(* ===== verification/Prelude.thy ===== *)
theory Prelude
  imports Main "HOL-Library.Word" "HOL-Library.Multiset"
begin

text \<open>
  Shared vocabulary of the development: the types that stand for Go's integers, times and
  durations, the byte-string operations of Go's \<open>strings\<close>, \<open>strconv\<close> and
  \<open>encoding/hex\<close> packages that the engine calls, iteration over a Go map (whose order
  the language leaves open), and the list lemmas several components need.

  Strings are byte strings: a HOL \<open>char\<close> is one byte and \<open>length\<close> counts bytes, as
  Go's \<open>len\<close> does.
\<close>

named_theorems status_simps "facts about the status constants"
named_theorems guar_intros "rules that show an operation stays within a table relation"

subsection \<open>Types\<close>

text \<open>
  Identifiers are \<open>int64\<close> values that the code compares and copies but never computes
  with, so they are integers here; where a conversion depends on the width
  (\<open>strconv.ParseInt\<close>) the range is written out. Times are nanoseconds on one time line.
  Durations are 64-bit words, because the back-off loops multiply them.
\<close>

type_synonym int64 = int
type_synonym gotime = int
type_synonym duration = "64 word"
type_synonym int32 = "32 word"

definition add_time :: "gotime \<Rightarrow> duration \<Rightarrow> gotime" where
  "add_time t d = t + sint d"

definition Second :: duration where "Second = 1000000000"
definition Minute :: duration where "Minute = 60000000000"
definition Millisecond :: duration where "Millisecond = 1000000"

subsection \<open>Lists\<close>

text \<open>Consecutive pieces of \<open>n\<close> elements, the last one possibly shorter.\<close>

fun chunks :: "nat \<Rightarrow> 'a list \<Rightarrow> 'a list list" where
  "chunks n [] = []"
| "chunks n (x # xs) = (x # take (n - 1) xs) # chunks n (drop (n - 1) xs)"

lemma concat_chunks [simp]: "concat (chunks n xs) = xs"
  by (induction n xs rule: chunks.induct) auto

lemma chunks_eq_Nil [simp]: "chunks n xs = [] \<longleftrightarrow> xs = []"
  by (cases xs) auto

lemma length_chunk: "c \<in> set (chunks n xs) \<Longrightarrow> 0 < n \<Longrightarrow> 0 < length c \<and> length c \<le> n"
  by (induction n xs rule: chunks.induct) auto

lemma set_chunk: "c \<in> set (chunks n xs) \<Longrightarrow> set c \<subseteq> set xs"
proof
  fix x assume "c \<in> set (chunks n xs)" "x \<in> set c"
  then have "x \<in> set (concat (chunks n xs))" by (subst set_concat) blast
  then show "x \<in> set xs" by simp
qed

lemma map_chunks: "map (map f) (chunks n xs) = chunks n (map f xs)"
  by (induction n xs rule: chunks.induct) (simp_all add: take_map drop_map)

lemma length_filter_less2:
  assumes "x \<in> set xs" and "P x" and "\<And>y. Q y \<Longrightarrow> P y" and "\<not> Q x"
  shows "length (filter Q xs) < length (filter P xs)"
proof -
  have "filter Q (filter P xs) = filter Q xs" using assms(3) by (auto intro!: filter_cong)
  moreover have "length (filter Q (filter P xs)) < length (filter P xs)"
    by (rule length_filter_less [of x]) (use assms(1,2,4) in auto)
  ultimately show ?thesis by simp
qed

text \<open>Every element keeps its first occurrence only.\<close>

fun dedup :: "'a list \<Rightarrow> 'a list \<Rightarrow> 'a list" where
  "dedup seen [] = []"
| "dedup seen (x # xs) = (if x \<in> set seen then dedup seen xs else x # dedup (x # seen) xs)"

lemma set_dedup: "set (dedup seen xs) = set xs - set seen"
  by (induction seen xs rule: dedup.induct) auto

lemma distinct_dedup [simp]: "distinct (dedup seen xs)"
  by (induction seen xs rule: dedup.induct) (auto simp: set_dedup)

lemma set_dedup_Nil [simp]: "set (dedup [] xs) = set xs"
  by (simp add: set_dedup)

lemma length_dedup_Nil: "length (dedup [] xs) = card (set xs)"
  using distinct_card [OF distinct_dedup [of "[]" xs]] by simp

lemma dedup_id: "distinct xs \<Longrightarrow> set xs \<inter> set seen = {} \<Longrightarrow> dedup seen xs = xs"
  by (induction seen xs rule: dedup.induct) auto

subsection \<open>Iterating over a Go map\<close>

text \<open>
  The order of \<open>range\<close> over a map is left open by the language. An order is any function
  on lists; where it does not permute its argument it is ignored, so that every \<open>ord\<close>
  stands for some order and every order is some \<open>ord\<close>.
\<close>

definition map_order :: "('a list \<Rightarrow> 'a list) \<Rightarrow> 'a list \<Rightarrow> 'a list" where
  "map_order ord xs = (if mset (ord xs) = mset xs then ord xs else xs)"

lemma mset_map_order [simp]: "mset (map_order ord xs) = mset xs"
  by (simp add: map_order_def)

lemma set_map_order [simp]: "set (map_order ord xs) = set xs"
  by (metis mset_map_order set_mset_mset)

lemma distinct_map_order [simp]: "distinct (map_order ord xs) = distinct xs"
  by (metis mset_map_order mset_eq_imp_distinct_iff)

lemma length_map_order [simp]: "length (map_order ord xs) = length xs"
  by (metis mset_map_order size_mset)

lemma map_order_Nil [simp]: "map_order ord [] = []"
  by (simp add: map_order_def)

lemma map_order_single [simp]: "map_order ord [x] = [x]"
  by (metis mset_map_order mset_single_iff mset.simps)

subsection \<open>Decimal conversion: strconv.FormatInt and strconv.ParseInt\<close>

definition digit :: "nat \<Rightarrow> char" where
  "digit d = char_of (48 + d)"

definition is_digit :: "char \<Rightarrow> bool" where
  "is_digit c = (48 \<le> (of_char c :: nat) \<and> (of_char c :: nat) \<le> 57)"

fun format_nat :: "nat \<Rightarrow> string" where
  "format_nat n = (if n < 10 then [digit n] else format_nat (n div 10) @ [digit (n mod 10)])"

declare format_nat.simps [simp del]

definition FormatInt :: "int64 \<Rightarrow> string" where
  "FormatInt i = (if i < 0 then ''-'' @ format_nat (nat (- i)) else format_nat (nat i))"

fun parse_digits :: "nat \<Rightarrow> string \<Rightarrow> nat option" where
  "parse_digits acc [] = Some acc"
| "parse_digits acc (c # cs) =
     (if is_digit c then parse_digits (10 * acc + (of_char c - 48)) cs else None)"

text \<open>Base 10, 64 bits: a sign, at least one digit, only digits, and the value in range.\<close>

definition ParseInt :: "string \<Rightarrow> int64 option" where
  "ParseInt s =
     (let neg = (s \<noteq> [] \<and> hd s = CHR ''-'');
          body = (if s \<noteq> [] \<and> (hd s = CHR ''-'' \<or> hd s = CHR ''+'') then tl s else s)
      in if body = [] then None
         else (case parse_digits 0 body of
                 None \<Rightarrow> None
               | Some n \<Rightarrow> (if neg then (if int n \<le> 2 ^ 63 then Some (- int n) else None)
                            else (if int n < 2 ^ 63 then Some (int n) else None))))"

lemma of_char_digit: "d < 10 \<Longrightarrow> (of_char (digit d) :: nat) = 48 + d"
  by (simp add: digit_def)

lemma is_digit_digit [simp]: "d < 10 \<Longrightarrow> is_digit (digit d)"
  by (simp add: is_digit_def of_char_digit)

lemma parse_digits_append:
  "parse_digits acc (xs @ ys) =
     (case parse_digits acc xs of None \<Rightarrow> None | Some a \<Rightarrow> parse_digits a ys)"
  by (induction acc xs rule: parse_digits.induct) auto

lemma parse_format_nat: "parse_digits 0 (format_nat n) = Some n"
proof (induction n rule: format_nat.induct)
  case (1 n)
  show ?case
  proof (cases "n < 10")
    case True
    then show ?thesis by (simp add: format_nat.simps [of n] of_char_digit)
  next
    case False
    with 1 show ?thesis
      by (simp add: format_nat.simps [of n] parse_digits_append of_char_digit)
  qed
qed

lemma format_nat_hd: "format_nat n \<noteq> [] \<and> is_digit (hd (format_nat n))"
proof (induction n rule: format_nat.induct)
  case (1 n)
  then show ?case
    by (cases "n < 10") (simp_all add: format_nat.simps [of n])
qed

lemma format_nat_not_sign:
  "hd (format_nat n) \<noteq> CHR ''-''" "hd (format_nat n) \<noteq> CHR ''+''"
  using format_nat_hd [of n] by (auto simp: is_digit_def)

lemma ParseInt_FormatInt:
  assumes "- (2 ^ 63) \<le> i" and "i < 2 ^ 63"
  shows "ParseInt (FormatInt i) = Some i"
proof (cases "i < 0")
  case True
  with assms format_nat_hd [of "nat (- i)"] show ?thesis
    by (simp add: ParseInt_def FormatInt_def parse_format_nat)
next
  case False
  with assms format_nat_hd [of "nat i"] format_nat_not_sign [of "nat i"] show ?thesis
    by (simp add: ParseInt_def FormatInt_def parse_format_nat)
qed

lemma FormatInt_inject: "FormatInt i = FormatInt j \<Longrightarrow> - (2 ^ 63) \<le> i \<Longrightarrow> i < 2 ^ 63 \<Longrightarrow>
    - (2 ^ 63) \<le> j \<Longrightarrow> j < 2 ^ 63 \<Longrightarrow> i = j"
  by (metis ParseInt_FormatInt option.inject)

subsection \<open>White space: strings.TrimSpace\<close>

text \<open>
  The bytes of one character that \<open>unicode.IsSpace\<close> accepts, in UTF-8: the six ASCII ones,
  U+0085, U+00A0, U+1680, U+2000 to U+200A, U+2028, U+2029, U+202F, U+205F and U+3000.
\<close>

definition is_space :: "nat list \<Rightarrow> bool" where
  "is_space bs \<longleftrightarrow>
     bs \<in> {[9], [10], [11], [12], [13], [32], [194, 133], [194, 160], [225, 154, 128],
           [226, 128, 168], [226, 128, 169], [226, 128, 175], [226, 129, 159], [227, 128, 128]}
     \<or> (length bs = 3 \<and> bs ! 0 = 226 \<and> bs ! 1 = 128 \<and> 128 \<le> bs ! 2 \<and> bs ! 2 \<le> 138)"

lemma is_space_length: "is_space bs \<Longrightarrow> length bs \<in> {1, 2, 3}"
  by (auto simp: is_space_def)

text \<open>Number of bytes of the white-space character at the front, 0 if there is none.\<close>

definition space_width :: "(nat list \<Rightarrow> bool) \<Rightarrow> string \<Rightarrow> nat" where
  "space_width p s =
     (if p (map of_char (take 1 s)) \<and> 1 \<le> length s then 1
      else if p (map of_char (take 2 s)) \<and> 2 \<le> length s then 2
      else if p (map of_char (take 3 s)) \<and> 3 \<le> length s then 3
      else 0)"

lemma space_width_le: "space_width p s \<le> length s"
  by (simp add: space_width_def)

lemma space_width_Nil [simp]: "space_width p [] = 0"
  by (simp add: space_width_def)

lemma space_width_pos: "space_width p s \<noteq> 0 \<Longrightarrow> s \<noteq> []"
  by auto

function trim_front :: "(nat list \<Rightarrow> bool) \<Rightarrow> string \<Rightarrow> string" where
  "trim_front p s =
     (if space_width p s = 0 then s else trim_front p (drop (space_width p s) s))"
  by pat_completeness auto
termination
  by (relation "measure (\<lambda>(p, s). length s)") (auto dest!: space_width_pos intro!: diff_less gr0I)

declare trim_front.simps [simp del]

definition TrimSpace :: "string \<Rightarrow> string" where
  "TrimSpace s = rev (trim_front (\<lambda>bs. is_space (rev bs)) (rev (trim_front is_space s)))"

lemma trim_front_stops: "space_width p (trim_front p s) = 0"
proof (induction p s rule: trim_front.induct)
  case (1 p s)
  then show ?case by (cases "space_width p s = 0") (simp_all add: trim_front.simps [of p s])
qed

lemma trim_front_id: "space_width p s = 0 \<Longrightarrow> trim_front p s = s"
  by (simp add: trim_front.simps)

lemma trim_front_suffix: "\<exists>us. s = us @ trim_front p s"
proof (induction p s rule: trim_front.induct)
  case (1 p s)
  show ?case
  proof (cases "space_width p s = 0")
    case True
    then show ?thesis by (simp add: trim_front_id)
  next
    case False
    with 1 obtain us where "drop (space_width p s) s = us @ trim_front p s"
      by (auto simp: trim_front.simps [of p s])
    then have "s = (take (space_width p s) s @ us) @ trim_front p s"
      by (metis append_take_drop_id append.assoc)
    then show ?thesis by blast
  qed
qed

lemma space_width_prefix:
  assumes "space_width p (u @ v) = 0"
  shows "space_width p u = 0"
  using assms by (auto simp: space_width_def split: if_splits)

lemma TrimSpace_idem [simp]: "TrimSpace (TrimSpace s) = TrimSpace s"
proof -
  let ?q = "\<lambda>bs. is_space (rev bs)"
  let ?l = "trim_front is_space s"
  let ?r = "trim_front ?q (rev ?l)"
  obtain us where "rev ?l = us @ ?r" using trim_front_suffix by blast
  then have "?l = rev ?r @ rev us" by (metis rev_append rev_rev_ident)
  then have "space_width is_space (rev ?r) = 0"
    using trim_front_stops [of is_space s] by (metis space_width_prefix)
  then show ?thesis
    by (simp add: TrimSpace_def trim_front_id trim_front_stops)
qed

lemma length_trim_front: "length (trim_front p s) \<le> length s"
  using trim_front_suffix [of s p] by (metis length_append le_add2)

lemma length_TrimSpace: "length (TrimSpace s) \<le> length s"
  using length_trim_front [of "\<lambda>bs. is_space (rev bs)" "rev (trim_front is_space s)"]
    length_trim_front [of is_space s] by (simp add: TrimSpace_def)

subsection \<open>hex.EncodeToString\<close>

type_synonym byte = "8 word"

definition hex_digit :: "nat \<Rightarrow> char" where
  "hex_digit d = (if d < 10 then char_of (48 + d) else char_of (87 + d))"

fun hex_encode :: "byte list \<Rightarrow> string" where
  "hex_encode [] = []"
| "hex_encode (b # bs) = hex_digit (unat b div 16) # hex_digit (unat b mod 16) # hex_encode bs"

lemma length_hex_encode [simp]: "length (hex_encode bs) = 2 * length bs"
  by (induction bs) auto

lemma hex_digit_not_space:
  assumes "d < 16"
  shows "48 \<le> (of_char (hex_digit d) :: nat) \<and> (of_char (hex_digit d) :: nat) \<le> 102"
  using assms by (auto simp: hex_digit_def)

lemma unat_byte: "unat (b :: byte) < 256"
proof -
  have "unat b < 2 ^ LENGTH(8)" by (rule unsigned_less)
  then show ?thesis by simp
qed

lemma hex_encode_bytes: "c \<in> set (hex_encode bs) \<Longrightarrow> 48 \<le> (of_char c :: nat) \<and> (of_char c :: nat) \<le> 102"
proof (induction bs)
  case Nil
  then show ?case by simp
next
  case (Cons b bs)
  have "unat b div 16 < 16" "unat b mod 16 < 16" using unat_byte [of b] by auto
  with Cons show ?case using hex_digit_not_space by auto
qed

lemma hex_digit_inject: "d < 16 \<Longrightarrow> e < 16 \<Longrightarrow> hex_digit d = hex_digit e \<Longrightarrow> d = e"
proof -
  assume "d < 16" "e < 16" "hex_digit d = hex_digit e"
  then have "(of_char (hex_digit d) :: nat) = of_char (hex_digit e)" by simp
  with \<open>d < 16\<close> \<open>e < 16\<close> show "d = e"
    by (auto simp: hex_digit_def split: if_splits)
qed

lemma hex_encode_inject: "hex_encode bs = hex_encode cs \<Longrightarrow> bs = cs"
proof (induction bs arbitrary: cs)
  case Nil
  then show ?case by (cases cs) auto
next
  case (Cons b bs)
  then obtain c cs' where cs: "cs = c # cs'" by (cases cs) auto
  have lt: "unat b < 256" "unat c < 256" by (rule unat_byte)+
  from Cons.prems cs have d: "hex_digit (unat b div 16) = hex_digit (unat c div 16)"
    "hex_digit (unat b mod 16) = hex_digit (unat c mod 16)" by auto
  have "unat b div 16 = unat c div 16" by (rule hex_digit_inject [OF _ _ d(1)]) (use lt in auto)
  moreover have "unat b mod 16 = unat c mod 16" by (rule hex_digit_inject [OF _ _ d(2)]) auto
  ultimately have "unat b = unat c" by (metis div_mult_mod_eq)
  then have "b = c" by (simp add: word_unat_eq_iff)
  with Cons cs show ?case by simp
qed

text \<open>A string of printable ASCII bytes other than the space is left alone by \<open>TrimSpace\<close>.\<close>

lemma space_width_ascii:
  assumes "\<forall>c \<in> set s. 33 \<le> (of_char c :: nat) \<and> (of_char c :: nat) < 128"
  shows "space_width is_space s = 0" and "space_width (\<lambda>bs. is_space (rev bs)) s = 0"
proof -
  have "hd bs < 33 \<or> 128 \<le> hd bs" "bs \<noteq> []" if "is_space bs" for bs
    using that by (cases bs; auto simp: is_space_def)+
  then have none: "\<not> is_space bs" if "set bs \<subseteq> {33..<128}" for bs
    using that hd_in_set [of bs] by fastforce
  have "set (map of_char (take k s)) \<subseteq> {33..<(128::nat)}" for k
    using assms by (auto dest: in_set_takeD)
  with none show "space_width is_space s = 0" "space_width (\<lambda>bs. is_space (rev bs)) s = 0"
    by (simp_all add: space_width_def)
qed

lemma TrimSpace_hex [simp]: "TrimSpace (hex_encode bs) = hex_encode bs"
proof -
  have "\<forall>c \<in> set (hex_encode bs). 33 \<le> (of_char c :: nat) \<and> (of_char c :: nat) < 128"
    using hex_encode_bytes by force
  then have "space_width is_space (hex_encode bs) = 0"
    "space_width (\<lambda>bs. is_space (rev bs)) (rev (hex_encode bs)) = 0"
    by (simp_all add: space_width_ascii)
  then show ?thesis by (simp add: TrimSpace_def trim_front_id)
qed

end
