(* ===== verification/Errors.thy ===== *)
theory Errors
  imports Prelude
begin

text \<open>
  Go errors as values: \<open>internal/domain/errs/errors.go\<close>, and of the packages \<open>errors\<close> and
  \<open>fmt\<close> what the engine uses. A sentinel is a package-level variable and has an
  identity; \<open>errors.New\<close> inside a function makes an error that is equal to no sentinel;
  \<open>fmt.Errorf\<close> with \<open>%w\<close> makes one with its own text that wraps another.
  \<open>errors.Is\<close> follows the wrapping chain.
\<close>

datatype sentinel =
    ErrCaseNotExist
  | ErrExecutionNotFound
  | ErrIllegalStatusTransition
  | ErrInvalidArgument
  | ErrClientClosed            \<comment> \<open>rabbitmq/executor_client.go\<close>
  | ErrRecordNotFound          \<comment> \<open>gorm\<close>
  | Canceled                   \<comment> \<open>context\<close>
  | DeadlineExceeded           \<comment> \<open>context\<close>

datatype goerr =
    Sentinel sentinel
  | ErrorsNew string
  | Wrapf string goerr          \<comment> \<open>the complete message, and the wrapped error\<close>

fun sentinel_text :: "sentinel \<Rightarrow> string" where
  "sentinel_text ErrCaseNotExist = ''case not exist''"
| "sentinel_text ErrExecutionNotFound = ''execution record not found''"
| "sentinel_text ErrIllegalStatusTransition = ''illegal execution status transition''"
| "sentinel_text ErrInvalidArgument = ''invalid argument''"
| "sentinel_text ErrClientClosed = ''rabbitmq client closed''"
| "sentinel_text ErrRecordNotFound = ''record not found''"
| "sentinel_text Canceled = ''context canceled''"
| "sentinel_text DeadlineExceeded = ''context deadline exceeded''"

fun Error :: "goerr \<Rightarrow> string" where
  "Error (Sentinel s) = sentinel_text s"
| "Error (ErrorsNew msg) = msg"
| "Error (Wrapf msg e) = msg"

fun errors_Is :: "goerr \<Rightarrow> sentinel \<Rightarrow> bool" where
  "errors_Is (Sentinel s) t = (s = t)"
| "errors_Is (ErrorsNew msg) t = False"
| "errors_Is (Wrapf msg e) t = errors_Is e t"

text \<open>\<open>fmt.Errorf("pre: %w", err)\<close>.\<close>

definition wrap_prefix :: "string \<Rightarrow> goerr \<Rightarrow> goerr" where
  "wrap_prefix pre e = Wrapf (pre @ Error e) e"

text \<open>\<open>fmt.Errorf("%w" + suffix, sentinel)\<close>.\<close>

definition wrap_suffix :: "sentinel \<Rightarrow> string \<Rightarrow> goerr" where
  "wrap_suffix s suf = Wrapf (sentinel_text s @ suf) (Sentinel s)"

definition NewCaseNotExist :: "int64 \<Rightarrow> goerr" where
  "NewCaseNotExist caseID = wrap_suffix ErrCaseNotExist ('': caseID='' @ FormatInt caseID)"

definition NewExecutionNotFound :: "int64 \<Rightarrow> goerr" where
  "NewExecutionNotFound executionID =
     wrap_suffix ErrExecutionNotFound ('': executionID='' @ FormatInt executionID)"

definition NewIllegalStatusTransition :: "int64 \<Rightarrow> string \<Rightarrow> string \<Rightarrow> goerr" where
  "NewIllegalStatusTransition executionID from to =
     wrap_suffix ErrIllegalStatusTransition
       ('': executionID='' @ FormatInt executionID @ '' '' @ from @ ''->'' @ to)"

definition NewInvalidArgument :: "string \<Rightarrow> goerr" where
  "NewInvalidArgument msg = wrap_suffix ErrInvalidArgument ('': '' @ msg)"

lemma errors_Is_wrap_prefix [simp]: "errors_Is (wrap_prefix pre e) s = errors_Is e s"
  by (simp add: wrap_prefix_def)

lemma errors_Is_wrap_suffix [simp]: "errors_Is (wrap_suffix s suf) t = (s = t)"
  by (simp add: wrap_suffix_def)

lemmas new_error_defs =
  NewCaseNotExist_def NewExecutionNotFound_def NewIllegalStatusTransition_def NewInvalidArgument_def

lemma errors_Is_new [simp]:
  "errors_Is (NewCaseNotExist i) s = (s = ErrCaseNotExist)"
  "errors_Is (NewExecutionNotFound i) s = (s = ErrExecutionNotFound)"
  "errors_Is (NewIllegalStatusTransition i a b) s = (s = ErrIllegalStatusTransition)"
  "errors_Is (NewInvalidArgument m) s = (s = ErrInvalidArgument)"
  by (auto simp: new_error_defs)

text \<open>An error carries at most one sentinel, so the order of tests on sentinels is immaterial.\<close>

lemma errors_Is_unique: "errors_Is e s \<Longrightarrow> errors_Is e t \<Longrightarrow> s = t"
  by (induction e) auto

lemma Error_wrap_prefix [simp]: "Error (wrap_prefix pre e) = pre @ Error e"
  by (simp add: wrap_prefix_def)

end
