(* ===== verification/Values.thy ===== *)
theory Values
  imports Errors
begin

text \<open>
  The value objects of \<open>internal/domain/vo\<close>: versions and channels, the execution status
  with its state machine, and the result of publishing a batch. In Go the status is a string
  type with five constants; a row of the database may hold any string, so it is a string here.
\<close>

subsection \<open>Versions and channels (vo/version.go, vo/channel.go)\<close>

type_synonym Version = string
type_synonym Channel = string

definition NewVersion :: "string \<Rightarrow> Version" where "NewVersion s = TrimSpace s"
definition NewChannel :: "string \<Rightarrow> Channel" where "NewChannel s = TrimSpace s"
definition Version_IsEmpty :: "Version \<Rightarrow> bool" where "Version_IsEmpty v = (v = '''')"
definition Channel_IsEmpty :: "Channel \<Rightarrow> bool" where "Channel_IsEmpty c = (c = '''')"

subsection \<open>Execution status (vo/execution_status.go)\<close>

type_synonym ExecutionStatus = string

definition StatusWait :: ExecutionStatus where "StatusWait = ''WAIT''"
definition StatusRunning :: ExecutionStatus where "StatusRunning = ''RUNNING''"
definition StatusSuccess :: ExecutionStatus where "StatusSuccess = ''SUCCESS''"
definition StatusFailed :: ExecutionStatus where "StatusFailed = ''FAILED''"
definition StatusDispatchFailed :: ExecutionStatus where "StatusDispatchFailed = ''DISPATCH_FAILED''"

lemmas status_defs =
  StatusWait_def StatusRunning_def StatusSuccess_def StatusFailed_def StatusDispatchFailed_def

lemma status_distinct [simp, status_simps]:
  "StatusWait \<noteq> StatusRunning" "StatusWait \<noteq> StatusSuccess" "StatusWait \<noteq> StatusFailed"
  "StatusWait \<noteq> StatusDispatchFailed" "StatusRunning \<noteq> StatusWait"
  "StatusRunning \<noteq> StatusSuccess" "StatusRunning \<noteq> StatusFailed"
  "StatusRunning \<noteq> StatusDispatchFailed" "StatusSuccess \<noteq> StatusWait"
  "StatusSuccess \<noteq> StatusRunning" "StatusSuccess \<noteq> StatusFailed"
  "StatusSuccess \<noteq> StatusDispatchFailed" "StatusFailed \<noteq> StatusWait"
  "StatusFailed \<noteq> StatusRunning" "StatusFailed \<noteq> StatusSuccess"
  "StatusFailed \<noteq> StatusDispatchFailed" "StatusDispatchFailed \<noteq> StatusWait"
  "StatusDispatchFailed \<noteq> StatusRunning" "StatusDispatchFailed \<noteq> StatusSuccess"
  "StatusDispatchFailed \<noteq> StatusFailed"
  by (simp_all add: status_defs)

lemma status_nonempty [simp, status_simps]:
  "StatusWait \<noteq> ''''" "StatusRunning \<noteq> ''''" "StatusSuccess \<noteq> ''''" "StatusFailed \<noteq> ''''"
  "StatusDispatchFailed \<noteq> ''''"
  by (simp_all add: status_defs)

definition IsTerminal :: "ExecutionStatus \<Rightarrow> bool" where
  "IsTerminal s \<longleftrightarrow> s = StatusSuccess \<or> s = StatusFailed \<or> s = StatusDispatchFailed"

definition CanTransitTo :: "ExecutionStatus \<Rightarrow> ExecutionStatus \<Rightarrow> bool" where
  "CanTransitTo s next \<longleftrightarrow>
     (if s = StatusWait
      then next = StatusRunning \<or> next = StatusFailed \<or> next = StatusSuccess
           \<or> next = StatusDispatchFailed
      else if s = StatusRunning then next = StatusSuccess \<or> next = StatusFailed
      else False)"

text \<open>
  Being equal or reachable by one edge. The edges are transitive (WAIT has an edge to both
  successors of RUNNING), so this is also what any number of edges reaches.
\<close>

definition status_le :: "ExecutionStatus \<Rightarrow> ExecutionStatus \<Rightarrow> bool" where
  "status_le s t \<longleftrightarrow> s = t \<or> CanTransitTo s t"

lemma CanTransitTo_trans: "CanTransitTo a b \<Longrightarrow> CanTransitTo b c \<Longrightarrow> CanTransitTo a c"
  by (auto simp: CanTransitTo_def split: if_splits)

lemma CanTransitTo_irrefl [simp]: "\<not> CanTransitTo a a"
  by (auto simp: CanTransitTo_def)

lemma IsTerminal_stuck: "IsTerminal s \<Longrightarrow> \<not> CanTransitTo s t"
  by (auto simp: IsTerminal_def CanTransitTo_def)

lemma CanTransitTo_not_wait: "\<not> CanTransitTo s StatusWait"
  by (auto simp: CanTransitTo_def)

lemma CanTransitTo_wait_fail [simp]: "CanTransitTo StatusWait StatusDispatchFailed"
  by (simp add: CanTransitTo_def)

lemma CanTransitTo_fail_iff: "CanTransitTo s StatusDispatchFailed \<longleftrightarrow> s = StatusWait"
  by (auto simp: CanTransitTo_def)

lemma status_le_refl [simp]: "status_le s s"
  by (simp add: status_le_def)

lemma status_le_trans: "status_le a b \<Longrightarrow> status_le b c \<Longrightarrow> status_le a c"
  by (auto simp: status_le_def dest: CanTransitTo_trans)

lemma status_le_terminal: "IsTerminal s \<Longrightarrow> status_le s t \<longleftrightarrow> t = s"
  by (auto simp: status_le_def IsTerminal_stuck)

lemma status_le_antisym: "status_le a b \<Longrightarrow> status_le b a \<Longrightarrow> a = b"
  by (auto simp: status_le_def dest: CanTransitTo_trans)

lemma rtranclp_CanTransitTo: "CanTransitTo\<^sup>*\<^sup>* s t \<longleftrightarrow> status_le s t"
proof
  assume "CanTransitTo\<^sup>*\<^sup>* s t"
  then show "status_le s t"
    by (induction rule: rtranclp_induct) (auto simp: status_le_def dest: CanTransitTo_trans)
next
  assume "status_le s t"
  then show "CanTransitTo\<^sup>*\<^sup>* s t" by (auto simp: status_le_def)
qed

text \<open>The edges of the status machine form a strict partial order, so no status can ever be
  reached again, and from a status that was entered by an edge no edge leaves exactly when
  \<open>IsTerminal\<close> holds for it.\<close>

theorem status_machine:
  "CanTransitTo\<^sup>+\<^sup>+ s t = CanTransitTo s t \<and> \<not> CanTransitTo\<^sup>+\<^sup>+ s s \<and>
     (CanTransitTo s t \<longrightarrow> (\<forall>u. \<not> CanTransitTo t u) = IsTerminal t)"
proof -
  have eq: "CanTransitTo\<^sup>+\<^sup>+ a b = CanTransitTo a b" for a b
  proof
    assume "CanTransitTo\<^sup>+\<^sup>+ a b"
    then show "CanTransitTo a b"
      by (induction rule: tranclp_induct) (auto dest: CanTransitTo_trans)
  qed auto
  then show ?thesis by (auto simp: CanTransitTo_def IsTerminal_def split: if_splits)
qed

theorem status_machine_witness:
  "CanTransitTo StatusWait StatusRunning \<and> (\<forall>u. \<not> CanTransitTo StatusRunning u) = IsTerminal StatusRunning"
  using status_machine [of StatusWait StatusRunning] by (simp add: CanTransitTo_def)

subsection \<open>Batch results (vo/batch_result.go)\<close>

record BatchResult =
  SuccessIDs :: "int64 list"
  FailedIDs :: "int64 list"
  ErrorMessage :: string

definition empty_result :: BatchResult where
  "empty_result = \<lparr>SuccessIDs = [], FailedIDs = [], ErrorMessage = ''''\<rparr>"

end
