(* ===== verification/Entities.thy ===== *)
theory Entities
  imports Values
begin

text \<open>
  The entities of \<open>internal/domain/entity\<close>. A method that changes its receiver returns the
  new record; \<open>time.Now()\<close> is an argument.
\<close>

subsection \<open>Test cases and tasks (entity/ut_case.go, entity/execution_task.go)\<close>

record UtCase =
  uc_CaseID :: int64
  uc_CaseName :: string
  uc_Version :: Version
  uc_Channel :: Channel

record ExecutionTask =
  tk_ExecutionID :: int64
  tk_CaseID :: int64
  tk_CaseName :: string
  tk_Version :: Version

subsection \<open>Execution records (entity/execution_record.go)\<close>

record ExecutionRecord =
  er_ExecutionID :: int64
  er_RequestID :: string
  er_CaseID :: int64
  er_Version :: Version
  er_CreateBy :: string
  er_ExecutionStatus :: ExecutionStatus
  er_CreateAt :: gotime
  er_ExecuteAt :: "gotime option"
  er_FinishAt :: "gotime option"

definition NewExecutionRecordForRequest ::
  "gotime \<Rightarrow> string \<Rightarrow> int64 \<Rightarrow> Version \<Rightarrow> string \<Rightarrow> ExecutionRecord" where
  "NewExecutionRecordForRequest now requestID caseID v user =
     \<lparr>er_ExecutionID = 0, er_RequestID = requestID, er_CaseID = caseID, er_Version = v,
      er_CreateBy = user, er_ExecutionStatus = StatusWait, er_CreateAt = now,
      er_ExecuteAt = None, er_FinishAt = None\<rparr>"

definition NewExecutionRecord :: "gotime \<Rightarrow> int64 \<Rightarrow> Version \<Rightarrow> string \<Rightarrow> ExecutionRecord" where
  "NewExecutionRecord now caseID v user = NewExecutionRecordForRequest now '''' caseID v user"

definition transit :: "gotime \<Rightarrow> ExecutionRecord \<Rightarrow> ExecutionStatus \<Rightarrow> goerr + ExecutionRecord" where
  "transit now r next =
     (if \<not> CanTransitTo (er_ExecutionStatus r) next
      then Inl (NewIllegalStatusTransition (er_ExecutionID r) (er_ExecutionStatus r) next)
      else let r' = r\<lparr>er_ExecutionStatus := next\<rparr>
           in Inr (if IsTerminal next then r'\<lparr>er_FinishAt := Some now\<rparr> else r'))"

definition MarkAsDispatchFailed :: "gotime \<Rightarrow> ExecutionRecord \<Rightarrow> goerr + ExecutionRecord" where
  "MarkAsDispatchFailed now r = transit now r StatusDispatchFailed"

definition MarkAsFailed :: "gotime \<Rightarrow> ExecutionRecord \<Rightarrow> goerr + ExecutionRecord" where
  "MarkAsFailed now r = transit now r StatusFailed"

text \<open>\<open>now\<close> is the reading taken before the transition, \<open>now'\<close> the one inside it.\<close>

definition MarkAsRunning :: "gotime \<Rightarrow> gotime \<Rightarrow> ExecutionRecord \<Rightarrow> goerr + ExecutionRecord" where
  "MarkAsRunning now now' r =
     (case transit now' r StatusRunning of
        Inl e \<Rightarrow> Inl e
      | Inr r' \<Rightarrow> Inr (r'\<lparr>er_ExecuteAt := Some now\<rparr>))"

lemma transit_Inr:
  "transit now r next = Inr r' \<longleftrightarrow>
     CanTransitTo (er_ExecutionStatus r) next \<and>
     r' = (if IsTerminal next
           then r\<lparr>er_ExecutionStatus := next, er_FinishAt := Some now\<rparr>
           else r\<lparr>er_ExecutionStatus := next\<rparr>)"
  by (auto simp: transit_def Let_def)

lemma transit_Inl:
  "transit now r next = Inl e \<longleftrightarrow>
     \<not> CanTransitTo (er_ExecutionStatus r) next \<and>
     e = NewIllegalStatusTransition (er_ExecutionID r) (er_ExecutionStatus r) next"
  by (auto simp: transit_def Let_def)

lemma MarkAsDispatchFailed_Inr:
  "MarkAsDispatchFailed now r = Inr r' \<longleftrightarrow>
     er_ExecutionStatus r = StatusWait \<and>
     r' = r\<lparr>er_ExecutionStatus := StatusDispatchFailed, er_FinishAt := Some now\<rparr>"
  by (auto simp: MarkAsDispatchFailed_def transit_Inr CanTransitTo_fail_iff IsTerminal_def)

lemma MarkAsDispatchFailed_Inl:
  "MarkAsDispatchFailed now r = Inl e \<longleftrightarrow>
     er_ExecutionStatus r \<noteq> StatusWait \<and>
     e = NewIllegalStatusTransition (er_ExecutionID r) (er_ExecutionStatus r) StatusDispatchFailed"
  by (auto simp: MarkAsDispatchFailed_def transit_Inl CanTransitTo_fail_iff)

text \<open>
  The lifecycle methods as a step relation: which records one successful call leads to.
\<close>

inductive mark_step :: "ExecutionRecord \<Rightarrow> ExecutionRecord \<Rightarrow> bool" where
  running: "MarkAsRunning now now' r = Inr r' \<Longrightarrow> mark_step r r'"
| failed: "MarkAsFailed now r = Inr r' \<Longrightarrow> mark_step r r'"
| dispatch_failed: "MarkAsDispatchFailed now r = Inr r' \<Longrightarrow> mark_step r r'"

text \<open>
  What the stamps say: a record in a terminal state reached through the methods carries its
  finish time, one that is not terminal carries none.
\<close>

definition stamped :: "ExecutionRecord \<Rightarrow> bool" where
  "stamped r \<longleftrightarrow> (er_FinishAt r \<noteq> None) = IsTerminal (er_ExecutionStatus r)
     \<and> (er_ExecutionStatus r = StatusRunning \<longrightarrow> er_ExecuteAt r \<noteq> None)
     \<and> er_ExecutionStatus r \<in> {StatusWait, StatusRunning, StatusSuccess, StatusFailed,
          StatusDispatchFailed}"

lemma mark_step_advance:
  "mark_step r r' \<Longrightarrow> CanTransitTo (er_ExecutionStatus r) (er_ExecutionStatus r') \<and>
     r' = r\<lparr>er_ExecutionStatus := er_ExecutionStatus r', er_ExecuteAt := er_ExecuteAt r',
            er_FinishAt := er_FinishAt r'\<rparr>"
  by (induction rule: mark_step.induct)
    (auto simp: MarkAsRunning_def MarkAsFailed_def MarkAsDispatchFailed_def transit_Inr
      split: sum.splits if_splits)

lemma mark_step_stamped: "mark_step r r' \<Longrightarrow> stamped r \<Longrightarrow> stamped r'"
  by (induction rule: mark_step.induct)
    (auto simp: stamped_def MarkAsRunning_def MarkAsFailed_def MarkAsDispatchFailed_def transit_Inr
      IsTerminal_def CanTransitTo_def split: sum.splits if_splits)

lemma stamped_new: "stamped (NewExecutionRecordForRequest now rid c v u)"
  by (simp add: stamped_def NewExecutionRecordForRequest_def IsTerminal_def)

subsection \<open>Outbox messages (entity/outbox_message.go)\<close>

type_synonym OutboxState = string

definition OutboxPending :: OutboxState where "OutboxPending = ''PENDING''"
definition OutboxProcessing :: OutboxState where "OutboxProcessing = ''PROCESSING''"
definition OutboxPublished :: OutboxState where "OutboxPublished = ''PUBLISHED''"
definition OutboxDead :: OutboxState where "OutboxDead = ''DEAD''"

lemmas outbox_state_defs =
  OutboxPending_def OutboxProcessing_def OutboxPublished_def OutboxDead_def

lemma outbox_state_distinct [simp, status_simps]:
  "OutboxPending \<noteq> OutboxProcessing" "OutboxPending \<noteq> OutboxPublished"
  "OutboxPending \<noteq> OutboxDead" "OutboxProcessing \<noteq> OutboxPending"
  "OutboxProcessing \<noteq> OutboxPublished" "OutboxProcessing \<noteq> OutboxDead"
  "OutboxPublished \<noteq> OutboxPending" "OutboxPublished \<noteq> OutboxProcessing"
  "OutboxPublished \<noteq> OutboxDead" "OutboxDead \<noteq> OutboxPending"
  "OutboxDead \<noteq> OutboxProcessing" "OutboxDead \<noteq> OutboxPublished"
  by (simp_all add: outbox_state_defs)

record OutboxMessage =
  om_OutboxID :: int64
  om_ExecutionID :: int64
  om_CaseID :: int64
  om_CaseName :: string
  om_Version :: Version
  om_State :: OutboxState
  om_Attempts :: int
  om_AvailableAt :: gotime
  om_LeaseUntil :: "gotime option"
  om_LeaseToken :: string
  om_LastError :: string
  om_CreatedAt :: gotime
  om_UpdatedAt :: gotime
  om_PublishedAt :: "gotime option"

text \<open>Go's zero time, which a field left out of a composite literal holds.\<close>

definition zero_time :: gotime where "zero_time = - 62135596800000000000"

definition NewOutboxMessage :: "ExecutionRecord \<Rightarrow> string \<Rightarrow> gotime \<Rightarrow> OutboxMessage" where
  "NewOutboxMessage rec caseName availableAt =
     \<lparr>om_OutboxID = 0, om_ExecutionID = er_ExecutionID rec, om_CaseID = er_CaseID rec,
      om_CaseName = caseName, om_Version = er_Version rec, om_State = OutboxPending,
      om_Attempts = 0, om_AvailableAt = availableAt, om_LeaseUntil = None, om_LeaseToken = '''',
      om_LastError = '''', om_CreatedAt = zero_time, om_UpdatedAt = zero_time,
      om_PublishedAt = None\<rparr>"

definition Task :: "OutboxMessage \<Rightarrow> ExecutionTask" where
  "Task m = \<lparr>tk_ExecutionID = om_ExecutionID m, tk_CaseID = om_CaseID m,
             tk_CaseName = om_CaseName m, tk_Version = om_Version m\<rparr>"

definition ReplayStatus :: "OutboxMessage \<Rightarrow> ExecutionStatus \<times> bool" where
  "ReplayStatus m =
     (if om_State m = OutboxDead then (StatusDispatchFailed, True)
      else if om_State m = OutboxPublished \<or> om_State m = OutboxProcessing then (StatusWait, True)
      else ('''', False))"

subsection \<open>Assembling the tasks of a batch\<close>

fun BatchAssemble :: "ExecutionRecord list \<Rightarrow> (int64 \<rightharpoonup> string) \<Rightarrow> ExecutionTask list" where
  "BatchAssemble [] nameMap = []"
| "BatchAssemble (r # rs) nameMap =
     (case nameMap (er_CaseID r) of
        None \<Rightarrow> BatchAssemble rs nameMap
      | Some name \<Rightarrow>
          \<lparr>tk_ExecutionID = er_ExecutionID r, tk_CaseID = er_CaseID r, tk_CaseName = name,
           tk_Version = er_Version r\<rparr> # BatchAssemble rs nameMap)"

lemma BatchAssemble_ids:
  "map tk_ExecutionID (BatchAssemble rs m) =
     map er_ExecutionID (filter (\<lambda>r. er_CaseID r \<in> dom m) rs)"
  by (induction rs) (auto split: option.splits)

lemma BatchAssemble_all:
  "(\<And>r. r \<in> set rs \<Longrightarrow> er_CaseID r \<in> dom m) \<Longrightarrow>
     map tk_ExecutionID (BatchAssemble rs m) = map er_ExecutionID rs"
  by (simp add: BatchAssemble_ids)

end
