(* ===== verification/Execution_Service.thy ===== *)
theory Execution_Service
  imports Entities
begin

text \<open>
  The domain service of \<open>internal/domain/service/execution_service.go\<close>. Where the code reads
  the clock once per element of a loop, \<open>clk i\<close> is the reading of round \<open>i\<close>.
\<close>

definition CreateExecutionRecordForRequest ::
  "gotime \<Rightarrow> string \<Rightarrow> int64 \<Rightarrow> Version \<Rightarrow> string \<Rightarrow> ExecutionRecord" where
  "CreateExecutionRecordForRequest now requestID caseID v user =
     NewExecutionRecordForRequest now requestID caseID v user"

definition CreateExecutionRecord :: "gotime \<Rightarrow> int64 \<Rightarrow> Version \<Rightarrow> string \<Rightarrow> ExecutionRecord" where
  "CreateExecutionRecord now caseID v user = NewExecutionRecord now caseID v user"

fun CreateBatchRecords_loop ::
  "(nat \<Rightarrow> gotime) \<Rightarrow> string \<Rightarrow> Version \<Rightarrow> string \<Rightarrow> UtCase list \<Rightarrow> (int64 \<rightharpoonup> string)
     \<Rightarrow> ExecutionRecord list \<times> (int64 \<rightharpoonup> string)" where
  "CreateBatchRecords_loop clk requestID v user [] nameMap = ([], nameMap)"
| "CreateBatchRecords_loop clk requestID v user (c # cs) nameMap =
     (let (rs, nm) = CreateBatchRecords_loop (\<lambda>i. clk (Suc i)) requestID v user cs
                       (nameMap(uc_CaseID c \<mapsto> uc_CaseName c))
      in (NewExecutionRecordForRequest (clk 0) requestID (uc_CaseID c) v user # rs, nm))"

definition CreateBatchRecordsForRequest ::
  "(nat \<Rightarrow> gotime) \<Rightarrow> string \<Rightarrow> UtCase list \<Rightarrow> Version \<Rightarrow> string
     \<Rightarrow> ExecutionRecord list \<times> (int64 \<rightharpoonup> string)" where
  "CreateBatchRecordsForRequest clk requestID cases v user =
     CreateBatchRecords_loop clk requestID v user cases Map.empty"

definition CreateBatchRecords ::
  "(nat \<Rightarrow> gotime) \<Rightarrow> UtCase list \<Rightarrow> Version \<Rightarrow> string
     \<Rightarrow> ExecutionRecord list \<times> (int64 \<rightharpoonup> string)" where
  "CreateBatchRecords clk cases v user = CreateBatchRecordsForRequest clk '''' cases v user"

lemma CreateBatchRecords_loop_shape:
  "CreateBatchRecords_loop clk rid v u cs nm0 = (rs, nm) \<Longrightarrow>
     length rs = length cs \<and> map er_CaseID rs = map uc_CaseID cs \<and>
     (\<forall>r \<in> set rs. er_ExecutionID r = 0 \<and> er_RequestID r = rid \<and> er_Version r = v \<and>
        er_CreateBy r = u \<and> er_ExecutionStatus r = StatusWait \<and> er_FinishAt r = None) \<and>
     nm = nm0(map uc_CaseID cs [\<mapsto>] map uc_CaseName cs)"
  by (induction clk rid v u cs nm0 arbitrary: rs nm rule: CreateBatchRecords_loop.induct)
    (auto simp: NewExecutionRecordForRequest_def split: prod.splits)

lemma CreateBatchRecords_dom:
  "CreateBatchRecordsForRequest clk rid cs v u = (rs, nm) \<Longrightarrow> dom nm = uc_CaseID ` set cs"
  unfolding CreateBatchRecordsForRequest_def
  by (drule CreateBatchRecords_loop_shape) simp

lemma CreateBatchRecords_shape:
  "CreateBatchRecordsForRequest clk rid cs v u = (rs, nm) \<Longrightarrow>
     map er_CaseID rs = map uc_CaseID cs \<and> dom nm = uc_CaseID ` set cs \<and>
     (\<forall>r \<in> set rs. er_ExecutionID r = 0 \<and> er_RequestID r = rid \<and> er_Version r = v \<and>
        er_CreateBy r = u \<and> er_ExecutionStatus r = StatusWait \<and> er_FinishAt r = None)"
  using CreateBatchRecords_dom
  by (fastforce simp: CreateBatchRecordsForRequest_def dest: CreateBatchRecords_loop_shape)

text \<open>
  An illegal transition is logged and skipped: the record stays as it is.
\<close>

fun DispatchBatch :: "(nat \<Rightarrow> gotime) \<Rightarrow> ExecutionRecord list \<Rightarrow> BatchResult \<Rightarrow> ExecutionRecord list" where
  "DispatchBatch clk [] result = []"
| "DispatchBatch clk (r # rs) result =
     (if er_ExecutionID r \<notin> set (FailedIDs result) then r
      else (case MarkAsDispatchFailed (clk 0) r of Inl e \<Rightarrow> r | Inr r' \<Rightarrow> r'))
     # DispatchBatch (\<lambda>i. clk (Suc i)) rs result"

lemma DispatchBatch_ids [simp]:
  "map er_ExecutionID (DispatchBatch clk rs res) = map er_ExecutionID rs"
  by (induction clk rs res rule: DispatchBatch.induct)
    (auto simp: MarkAsDispatchFailed_Inr split: sum.splits)

lemma length_DispatchBatch [simp]: "length (DispatchBatch clk rs res) = length rs"
  by (induction clk rs res rule: DispatchBatch.induct) auto

lemma DispatchBatch_nth:
  "i < length rs \<Longrightarrow>
     DispatchBatch clk rs res ! i =
       (if er_ExecutionID (rs ! i) \<in> set (FailedIDs res) \<and> er_ExecutionStatus (rs ! i) = StatusWait
        then (rs ! i)\<lparr>er_ExecutionStatus := StatusDispatchFailed, er_FinishAt := Some (clk i)\<rparr>
        else rs ! i)"
proof (induction clk rs res arbitrary: i rule: DispatchBatch.induct)
  case (1 clk result)
  then show ?case by simp
next
  case (2 clk r rs result)
  then show ?case
    by (cases i)
      (auto simp: MarkAsDispatchFailed_Inr MarkAsDispatchFailed_Inl split: sum.splits)
qed

end
