(* ===== verification/Database.thy ===== *)
theory Database
  imports Execution_Service
begin

text \<open>
  What the MySQL repositories work on: the persistent objects of
  \<open>persistence/mysql/po\<close> with their mapping functions, the three tables of
  \<open>scripts/schema.sql\<close>, the SQL statements the repositories issue, and the transaction
  runner of \<open>db.go\<close>.

  A database operation is a function from the world to a result and the new world. The world
  holds the tables and what the engine cannot know beforehand: whether each statement
  succeeds (\<open>outcomes\<close>), what other processes do to the tables before each transaction of
  this one (\<open>foreign\<close>), the clock GORM stamps rows with, and the order in which a Go map is
  iterated. The tables carry their collation: two strings are equal for a WHERE clause or a unique
  key when \<open>t_coll\<close> maps them to the same sort key. The status and state columns only ever
  hold the spellings of the constants, for which equality is equality.
  Transactions do not interleave with other transactions statement by statement.
\<close>

subsection \<open>Persistent objects (po/*.go)\<close>

record ExecutionRecordPO =
  pe_ExecutionID :: int64
  pe_RequestID :: "string option"
  pe_CaseID :: int64
  pe_Version :: string
  pe_CreateBy :: string
  pe_ExecutionStatus :: string
  pe_CreateAt :: gotime
  pe_ExecuteAt :: "gotime option"
  pe_FinishAt :: "gotime option"

record OutboxMessagePO =
  po_OutboxID :: int64
  po_ExecutionID :: int64
  po_CaseID :: int64
  po_CaseName :: string
  po_Version :: string
  po_State :: string
  po_Attempts :: int
  po_AvailableAt :: gotime
  po_LeaseUntil :: "gotime option"
  po_LeaseToken :: string
  po_LastError :: string
  po_CreatedAt :: gotime
  po_UpdatedAt :: gotime
  po_PublishedAt :: "gotime option"

record UtCasePO =
  pu_CaseID :: int64
  pu_CaseName :: string
  pu_Version :: string
  pu_Channel :: string

definition optionalString :: "string \<Rightarrow> string option" where
  "optionalString value = (if value = '''' then None else Some value)"

definition stringValue :: "string option \<Rightarrow> string" where
  "stringValue value = (case value of None \<Rightarrow> '''' | Some s \<Rightarrow> s)"

definition ExecutionRecord_ToEntity :: "ExecutionRecordPO \<Rightarrow> ExecutionRecord" where
  "ExecutionRecord_ToEntity p =
     \<lparr>er_ExecutionID = pe_ExecutionID p, er_RequestID = stringValue (pe_RequestID p),
      er_CaseID = pe_CaseID p, er_Version = pe_Version p, er_CreateBy = pe_CreateBy p,
      er_ExecutionStatus = pe_ExecutionStatus p, er_CreateAt = pe_CreateAt p,
      er_ExecuteAt = pe_ExecuteAt p, er_FinishAt = pe_FinishAt p\<rparr>"

definition FromExecutionRecord :: "ExecutionRecord \<Rightarrow> ExecutionRecordPO" where
  "FromExecutionRecord r =
     \<lparr>pe_ExecutionID = er_ExecutionID r, pe_RequestID = optionalString (er_RequestID r),
      pe_CaseID = er_CaseID r, pe_Version = er_Version r, pe_CreateBy = er_CreateBy r,
      pe_ExecutionStatus = er_ExecutionStatus r, pe_CreateAt = er_CreateAt r,
      pe_ExecuteAt = er_ExecuteAt r, pe_FinishAt = er_FinishAt r\<rparr>"

definition FromOutboxMessage :: "OutboxMessage \<Rightarrow> OutboxMessagePO" where
  "FromOutboxMessage m =
     \<lparr>po_OutboxID = om_OutboxID m, po_ExecutionID = om_ExecutionID m, po_CaseID = om_CaseID m,
      po_CaseName = om_CaseName m, po_Version = om_Version m, po_State = om_State m,
      po_Attempts = om_Attempts m, po_AvailableAt = om_AvailableAt m,
      po_LeaseUntil = om_LeaseUntil m, po_LeaseToken = om_LeaseToken m,
      po_LastError = om_LastError m, po_CreatedAt = om_CreatedAt m,
      po_UpdatedAt = om_UpdatedAt m, po_PublishedAt = om_PublishedAt m\<rparr>"

definition OutboxMessage_ToEntity :: "OutboxMessagePO \<Rightarrow> OutboxMessage" where
  "OutboxMessage_ToEntity m =
     \<lparr>om_OutboxID = po_OutboxID m, om_ExecutionID = po_ExecutionID m, om_CaseID = po_CaseID m,
      om_CaseName = po_CaseName m, om_Version = po_Version m, om_State = po_State m,
      om_Attempts = po_Attempts m, om_AvailableAt = po_AvailableAt m,
      om_LeaseUntil = po_LeaseUntil m, om_LeaseToken = po_LeaseToken m,
      om_LastError = po_LastError m, om_CreatedAt = po_CreatedAt m,
      om_UpdatedAt = po_UpdatedAt m, om_PublishedAt = po_PublishedAt m\<rparr>"

definition UtCase_ToEntity :: "UtCasePO \<Rightarrow> UtCase" where
  "UtCase_ToEntity p =
     \<lparr>uc_CaseID = pu_CaseID p, uc_CaseName = pu_CaseName p, uc_Version = pu_Version p,
      uc_Channel = pu_Channel p\<rparr>"

lemmas ToEntity_defs = ExecutionRecord_ToEntity_def OutboxMessage_ToEntity_def UtCase_ToEntity_def

lemma stringValue_optionalString [simp]: "stringValue (optionalString s) = s"
  by (simp add: stringValue_def optionalString_def)

lemma ToEntity_sel [simp]:
  "er_ExecutionID (ExecutionRecord_ToEntity p) = pe_ExecutionID p"
  "er_CaseID (ExecutionRecord_ToEntity p) = pe_CaseID p"
  "er_Version (ExecutionRecord_ToEntity p) = pe_Version p"
  "er_ExecutionStatus (ExecutionRecord_ToEntity p) = pe_ExecutionStatus p"
  "om_ExecutionID (OutboxMessage_ToEntity m) = po_ExecutionID m"
  "om_State (OutboxMessage_ToEntity m) = po_State m"
  "om_LeaseToken (OutboxMessage_ToEntity m) = po_LeaseToken m"
  "om_Attempts (OutboxMessage_ToEntity m) = po_Attempts m"
  "om_OutboxID (OutboxMessage_ToEntity m) = po_OutboxID m"
  by (simp_all add: ToEntity_defs)

lemma From_sel [simp]:
  "pe_ExecutionID (FromExecutionRecord r) = er_ExecutionID r"
  "pe_CaseID (FromExecutionRecord r) = er_CaseID r"
  "pe_RequestID (FromExecutionRecord r) = optionalString (er_RequestID r)"
  "pe_ExecutionStatus (FromExecutionRecord r) = er_ExecutionStatus r"
  "pe_Version (FromExecutionRecord r) = er_Version r"
  "po_ExecutionID (FromOutboxMessage m) = om_ExecutionID m"
  "po_OutboxID (FromOutboxMessage m) = om_OutboxID m"
  "po_State (FromOutboxMessage m) = om_State m"
  by (simp_all add: FromExecutionRecord_def FromOutboxMessage_def)

lemma ToEntity_From [simp]:
  "ExecutionRecord_ToEntity (FromExecutionRecord r) = r"
  "OutboxMessage_ToEntity (FromOutboxMessage m) = m"
  by (simp_all add: ToEntity_defs FromExecutionRecord_def FromOutboxMessage_def)

lemma FromOutboxMessage_ToEntity [simp]: "FromOutboxMessage (OutboxMessage_ToEntity p) = p"
  by (simp add: ToEntity_defs FromOutboxMessage_def)

subsection \<open>Tables and the world\<close>

record tables =
  t_cases :: "UtCasePO list"
  t_execs :: "ExecutionRecordPO list"
  t_exec_next :: int64
  t_outbox :: "OutboxMessagePO list"
  t_outbox_next :: int64
  t_coll :: "string \<Rightarrow> string"   \<comment> \<open>sort key of a string under the tables' collation\<close>

text \<open>
  A statement runs and succeeds, fails without effect, or takes effect although the client
  sees an error (a connection that breaks while the reply is on its way).
\<close>

datatype outcome = Done | Fail goerr | Late goerr

record world =
  tabs :: tables
  outcomes :: "outcome list"
  foreign :: "(tables \<Rightarrow> tables) list"
  clock :: gotime
  mord :: "string list \<Rightarrow> string list"

type_synonym 'a io = "world \<Rightarrow> (goerr + 'a) \<times> world"

definition next_outcome :: "world \<Rightarrow> outcome \<times> world" where
  "next_outcome w = (case outcomes w of [] \<Rightarrow> (Done, w) | x # xs \<Rightarrow> (x, w\<lparr>outcomes := xs\<rparr>))"

definition interfere :: "world \<Rightarrow> world" where
  "interfere w = (case foreign w of [] \<Rightarrow> w | f # fs \<Rightarrow> w\<lparr>foreign := fs, tabs := f (tabs w)\<rparr>)"

definition io_return :: "'a \<Rightarrow> 'a io" where
  "io_return x w = (Inr x, w)"

definition io_fail :: "goerr \<Rightarrow> 'a io" where
  "io_fail e w = (Inl e, w)"

definition io_bind :: "'a io \<Rightarrow> ('a \<Rightarrow> 'b io) \<Rightarrow> 'b io" where
  "io_bind m k w = (case m w of (Inl e, w') \<Rightarrow> (Inl e, w') | (Inr x, w') \<Rightarrow> k x w')"

definition io_then :: "'a io \<Rightarrow> 'b io \<Rightarrow> 'b io" where
  "io_then m k = io_bind m (\<lambda>_. k)"

text \<open>The error as a value, and an error with a prefix.\<close>

definition io_try :: "'a io \<Rightarrow> (goerr + 'a) io" where
  "io_try m w = (case m w of (r, w') \<Rightarrow> (Inr r, w'))"

definition io_wrap :: "string \<Rightarrow> 'a io \<Rightarrow> 'a io" where
  "io_wrap pre m w = (case m w of (Inl e, w') \<Rightarrow> (Inl (wrap_prefix pre e), w') | (Inr x, w') \<Rightarrow> (Inr x, w'))"

definition io_of :: "goerr + 'a \<Rightarrow> 'a io" where
  "io_of r w = (r, w)"

definition io_world :: "world io" where
  "io_world w = (Inr w, w)"

definition sql :: "(world \<Rightarrow> goerr + ('a \<times> tables)) \<Rightarrow> 'a io" where
  "sql stmt w =
     (case next_outcome w of
        (Fail e, w1) \<Rightarrow> (Inl e, w1)
      | (Done, w1) \<Rightarrow> (case stmt w1 of Inl e \<Rightarrow> (Inl e, w1) | Inr (x, t) \<Rightarrow> (Inr x, w1\<lparr>tabs := t\<rparr>))
      | (Late e, w1) \<Rightarrow> (case stmt w1 of Inl _ \<Rightarrow> (Inl e, w1) | Inr (x, t) \<Rightarrow> (Inl e, w1\<lparr>tabs := t\<rparr>)))"

text \<open>Rolling back restores the rows; auto-increment counters keep what they handed out.\<close>

definition rollback_to :: "tables \<Rightarrow> tables \<Rightarrow> tables" where
  "rollback_to before after =
     before\<lparr>t_exec_next := max (t_exec_next before) (t_exec_next after),
            t_outbox_next := max (t_outbox_next before) (t_outbox_next after)\<rparr>"

text \<open>
  \<open>TxRunner.Do\<close>: begin, run \<open>fn\<close>, commit; an error of \<open>fn\<close> or of the commit rolls back, a
  commit whose reply is lost does not. Other processes act before the transaction begins, not within it; the
  statements of a transaction see one state of the tables, changed only by themselves, and the older snapshot
  that REPEATABLE READ may show to a plain query is not distinguished from it.
\<close>

definition tx_Do :: "'a io \<Rightarrow> 'a io" where
  "tx_Do fn w =
     (case sql (\<lambda>w. Inr ((), tabs w)) (interfere w) of
        (Inl e, w1) \<Rightarrow> (Inl e, w1)
      | (Inr _, w1) \<Rightarrow>
          (case fn w1 of
             (Inl e, w2) \<Rightarrow> (Inl e, w2\<lparr>tabs := rollback_to (tabs w1) (tabs w2)\<rparr>)
           | (Inr x, w2) \<Rightarrow>
               (case next_outcome w2 of
                  (Done, w3) \<Rightarrow> (Inr x, w3)
                | (Fail e, w3) \<Rightarrow> (Inl e, w3\<lparr>tabs := rollback_to (tabs w1) (tabs w3)\<rparr>)
                | (Late e, w3) \<Rightarrow> (Inl e, w3))))"

lemmas io_defs = io_return_def io_fail_def io_bind_def io_then_def io_try_def io_wrap_def io_world_def io_of_def

text \<open>What a successful run says about its parts.\<close>

lemma io_return_Inr: "io_return x w = (Inr y, w') \<longleftrightarrow> y = x \<and> w' = w"
  by (auto simp: io_return_def)

lemma io_fail_Inr: "io_fail e w = (Inr y, w') \<longleftrightarrow> False"
  by (simp add: io_fail_def)

lemma io_bind_Inr: "io_bind m k w = (Inr y, w') \<longleftrightarrow> (\<exists>x w1. m w = (Inr x, w1) \<and> k x w1 = (Inr y, w'))"
  by (auto simp: io_bind_def split: prod.splits sum.splits)

lemma io_then_Inr: "io_then m k w = (Inr y, w') \<longleftrightarrow> (\<exists>x w1. m w = (Inr x, w1) \<and> k w1 = (Inr y, w'))"
  by (simp add: io_then_def io_bind_Inr)

lemma io_try_Inr: "io_try m w = (Inr y, w') \<longleftrightarrow> m w = (y, w')"
  by (auto simp: io_try_def split: prod.splits)

lemma io_wrap_Inr: "io_wrap pre m w = (Inr y, w') \<longleftrightarrow> m w = (Inr y, w')"
  by (auto simp: io_wrap_def split: prod.splits sum.splits)

lemma io_world_Inr: "io_world w = (Inr y, w') \<longleftrightarrow> y = w \<and> w' = w"
  by (auto simp: io_world_def)

lemma io_of_Inr: "io_of r w = (Inr y, w') \<longleftrightarrow> r = Inr y \<and> w' = w"
  by (auto simp: io_of_def)

lemma sql_Inr:
  "sql stmt w = (Inr x, w') \<longleftrightarrow>
     (\<exists>w1 t. next_outcome w = (Done, w1) \<and> stmt w1 = Inr (x, t) \<and> w' = w1\<lparr>tabs := t\<rparr>)"
  by (auto simp: sql_def split: prod.splits outcome.splits sum.splits)

lemma case_sum_Inr:
  "(case s of Inl a \<Rightarrow> f a | Inr b \<Rightarrow> g b) w = (Inr y, w') \<longleftrightarrow>
     (\<exists>a. s = Inl a \<and> f a w = (Inr y, w')) \<or> (\<exists>b. s = Inr b \<and> g b w = (Inr y, w'))"
  by (cases s) auto

lemma case_option_Inr:
  "(case s of None \<Rightarrow> m | Some b \<Rightarrow> g b) w = (Inr y, w') \<longleftrightarrow>
     (s = None \<and> m w = (Inr y, w')) \<or> (\<exists>b. s = Some b \<and> g b w = (Inr y, w'))"
  by (cases s) auto

lemmas io_Inr = case_sum_Inr case_option_Inr io_return_Inr io_fail_Inr io_bind_Inr io_then_Inr io_try_Inr io_wrap_Inr
  io_world_Inr io_of_Inr sql_Inr

lemma next_outcome_sel:
  "next_outcome w = (x, w') \<Longrightarrow> tabs w' = tabs w \<and> foreign w' = foreign w \<and> clock w' = clock w
     \<and> mord w' = mord w"
  by (auto simp: next_outcome_def split: list.splits)

text \<open>What an operation leaves alone whatever it does: the settings of the environment.\<close>

definition same_env :: "world \<Rightarrow> world \<Rightarrow> bool" where
  "same_env w w' \<longleftrightarrow> clock w' = clock w \<and> mord w' = mord w"

subsection \<open>Statements\<close>

definition duplicate_key :: goerr where
  "duplicate_key = ErrorsNew ''Error 1062 (23000): Duplicate entry''"

text \<open>
  INSERT of one row: primary key 0 takes the next auto-increment value. A row that clashes on
  a unique key makes the statement fail, or, with \<open>OnConflict{DoNothing: true}\<close>, is left out.
\<close>

definition insert_row ::
  "('r \<Rightarrow> 'r \<Rightarrow> bool) \<Rightarrow> ('r \<Rightarrow> int64) \<Rightarrow> (int64 \<Rightarrow> 'r \<Rightarrow> 'r) \<Rightarrow> bool \<Rightarrow> 'r \<Rightarrow> 'r list \<times> int64
     \<Rightarrow> goerr + ('r \<times> 'r list \<times> int64)" where
  "insert_row clash pk set_pk doNothing row tab =
     (let (rows, nxt) = tab in
      if \<exists>r \<in> set rows. clash row r \<or> (pk row \<noteq> 0 \<and> pk r = pk row)
      then (if doNothing then Inr (row, rows, if pk row = 0 then nxt + 1 else nxt) else Inl duplicate_key)
      else (let i = (if pk row = 0 then nxt else pk row); row' = set_pk i row
            in Inr (row', rows @ [row'], max nxt (i + 1))))"

fun insert_rows ::
  "('r \<Rightarrow> 'r \<Rightarrow> bool) \<Rightarrow> ('r \<Rightarrow> int64) \<Rightarrow> (int64 \<Rightarrow> 'r \<Rightarrow> 'r) \<Rightarrow> bool \<Rightarrow> 'r list \<Rightarrow> 'r list \<times> int64
     \<Rightarrow> goerr + ('r list \<times> 'r list \<times> int64)" where
  "insert_rows clash pk set_pk dn [] tab = Inr ([], tab)"
| "insert_rows clash pk set_pk dn (row # rs) tab =
     (case insert_row clash pk set_pk dn row tab of
        Inl e \<Rightarrow> Inl e
      | Inr (row', tab') \<Rightarrow>
          (case insert_rows clash pk set_pk dn rs tab' of
             Inl e \<Rightarrow> Inl e
           | Inr (rs', tab'') \<Rightarrow> Inr (row' # rs', tab'')))"

text \<open>
  The unique key of \<open>execution_record\<close> is (request_id, case_id), where NULL equals nothing; the
  one of \<open>dispatch_outbox\<close> is execution_id.
\<close>

definition exec_clash :: "(string \<Rightarrow> string) \<Rightarrow> ExecutionRecordPO \<Rightarrow> ExecutionRecordPO \<Rightarrow> bool" where
  "exec_clash co a b \<longleftrightarrow>
     (case (pe_RequestID a, pe_RequestID b) of
        (Some x, Some y) \<Rightarrow> co x = co y \<and> pe_CaseID a = pe_CaseID b
      | _ \<Rightarrow> False)"

definition outbox_clash :: "OutboxMessagePO \<Rightarrow> OutboxMessagePO \<Rightarrow> bool" where
  "outbox_clash a b \<longleftrightarrow> po_ExecutionID a = po_ExecutionID b"

definition sql_insert_execs :: "bool \<Rightarrow> ExecutionRecordPO list \<Rightarrow> ExecutionRecordPO list io" where
  "sql_insert_execs dn rows = sql (\<lambda>w.
     case insert_rows (exec_clash (t_coll (tabs w))) pe_ExecutionID (\<lambda>i r. r\<lparr>pe_ExecutionID := i\<rparr>) dn
            (map (\<lambda>r. if pe_CreateAt r = zero_time then r\<lparr>pe_CreateAt := clock w\<rparr> else r) rows)
            (t_execs (tabs w), t_exec_next (tabs w)) of
       Inl e \<Rightarrow> Inl e
     | Inr (rows', ts, n) \<Rightarrow> Inr (rows', (tabs w)\<lparr>t_execs := ts, t_exec_next := n\<rparr>))"

definition stamp_outbox :: "gotime \<Rightarrow> OutboxMessagePO \<Rightarrow> OutboxMessagePO" where
  "stamp_outbox now r =
     r\<lparr>po_CreatedAt := (if po_CreatedAt r = zero_time then now else po_CreatedAt r),
       po_UpdatedAt := (if po_UpdatedAt r = zero_time then now else po_UpdatedAt r)\<rparr>"

definition sql_insert_outbox :: "bool \<Rightarrow> OutboxMessagePO list \<Rightarrow> OutboxMessagePO list io" where
  "sql_insert_outbox dn rows = sql (\<lambda>w.
     case insert_rows outbox_clash po_OutboxID (\<lambda>i r. r\<lparr>po_OutboxID := i\<rparr>) dn
            (map (stamp_outbox (clock w)) rows) (t_outbox (tabs w), t_outbox_next (tabs w)) of
       Inl e \<Rightarrow> Inl e
     | Inr (rows', ts, n) \<Rightarrow> Inr (rows', (tabs w)\<lparr>t_outbox := ts, t_outbox_next := n\<rparr>))"

text \<open>\<open>CreateInBatches\<close>: one INSERT per piece, in order.\<close>

fun in_batches :: "('r list \<Rightarrow> 'r list io) \<Rightarrow> 'r list list \<Rightarrow> 'r list io" where
  "in_batches ins [] = io_return []"
| "in_batches ins (c # cs) =
     io_bind (ins c) (\<lambda>xs. io_bind (in_batches ins cs) (\<lambda>ys. io_return (xs @ ys)))"

text \<open>SELECT: the matching rows, or (\<open>First\<close>) the one with the least primary key.\<close>

definition sql_find :: "(tables \<Rightarrow> 'r list) \<Rightarrow> (tables \<Rightarrow> 'r \<Rightarrow> bool) \<Rightarrow> 'r list io" where
  "sql_find tab p = sql (\<lambda>w. Inr (filter (p (tabs w)) (tab (tabs w)), tabs w))"

definition sql_first :: "(tables \<Rightarrow> 'r list) \<Rightarrow> ('r \<Rightarrow> int64) \<Rightarrow> (tables \<Rightarrow> 'r \<Rightarrow> bool) \<Rightarrow> 'r io" where
  "sql_first tab pk p = sql (\<lambda>w.
     case sort_key pk (filter (p (tabs w)) (tab (tabs w))) of
       [] \<Rightarrow> Inl (Sentinel ErrRecordNotFound)
     | r # _ \<Rightarrow> Inr (r, tabs w))"

text \<open>UPDATE: the number of rows whose values changed is the number of affected rows.\<close>

definition apply_where :: "('r \<Rightarrow> bool) \<Rightarrow> ('r \<Rightarrow> 'r) \<Rightarrow> 'r list \<Rightarrow> 'r list" where
  "apply_where p f rows = map (\<lambda>r. if p r then f r else r) rows"

definition affected :: "('r \<Rightarrow> bool) \<Rightarrow> ('r \<Rightarrow> 'r) \<Rightarrow> 'r list \<Rightarrow> int" where
  "affected p f rows = int (length (filter (\<lambda>r. p r \<and> f r \<noteq> r) rows))"

definition sql_update_execs ::
  "(ExecutionRecordPO \<Rightarrow> bool) \<Rightarrow> (ExecutionRecordPO \<Rightarrow> ExecutionRecordPO) \<Rightarrow> int io" where
  "sql_update_execs p f = sql (\<lambda>w.
     Inr (affected p f (t_execs (tabs w)),
          (tabs w)\<lparr>t_execs := apply_where p f (t_execs (tabs w))\<rparr>))"

text \<open>GORM adds \<open>update_at\<close> to every UPDATE of \<open>dispatch_outbox\<close>.\<close>

definition sql_update_outbox ::
  "(tables \<Rightarrow> OutboxMessagePO \<Rightarrow> bool) \<Rightarrow> (OutboxMessagePO \<Rightarrow> OutboxMessagePO) \<Rightarrow> int io" where
  "sql_update_outbox p f = sql (\<lambda>w.
     let f' = (\<lambda>r. (f r)\<lparr>po_UpdatedAt := clock w\<rparr>) in
     Inr (affected (p (tabs w)) f' (t_outbox (tabs w)),
          (tabs w)\<lparr>t_outbox := apply_where (p (tabs w)) f' (t_outbox (tabs w))\<rparr>))"

lemma sql_find_Inr:
  "sql_find tab p w = (Inr rs, w') \<Longrightarrow>
     rs = filter (p (tabs w)) (tab (tabs w)) \<and> tabs w' = tabs w \<and> mord w' = mord w"
  by (auto simp: sql_find_def sql_Inr dest: next_outcome_sel)

lemma sql_first_Inr:
  assumes "sql_first tab pk p w = (Inr r, w')"
  shows "r \<in> set (tab (tabs w)) \<and> p (tabs w) r \<and> tabs w' = tabs w \<and> mord w' = mord w"
proof -
  let ?hits = "\<lambda>w. sort_key pk (filter (p (tabs w)) (tab (tabs w)))"
  from assms obtain w1 t where n: "next_outcome w = (Done, w1)"
    and s: "(case ?hits w1 of [] \<Rightarrow> Inl (Sentinel ErrRecordNotFound) | r # _ \<Rightarrow> Inr (r, tabs w1)) = Inr (r, t)"
    and w': "w' = w1\<lparr>tabs := t\<rparr>"
    unfolding sql_first_def sql_Inr by blast
  from s have "r \<in> set (?hits w1)" "t = tabs w1" by (cases "?hits w1"; simp)+
  with n w' show ?thesis by (auto dest: next_outcome_sel)
qed

lemma sql_first_unique:
  assumes "sql_first tab pk p w = (Inr r, w')" and "x \<in> set (tab (tabs w))" and "p (tabs w) x"
    and "\<And>y. y \<in> set (tab (tabs w)) \<Longrightarrow> p (tabs w) y \<Longrightarrow> y = x"
  shows "r = x"
  using sql_first_Inr [OF assms(1)] assms(4) by blast

subsection \<open>Relations between the tables before and after\<close>

text \<open>
  An operation stays within a relation on tables when, started in a world where the other
  processes stay within it too, it leads to related tables. Two-state invariants of this
  kind are proved statement by statement and then hold for every operation built from them.
\<close>

definition rely :: "(tables \<Rightarrow> tables \<Rightarrow> bool) \<Rightarrow> world \<Rightarrow> bool" where
  "rely R w \<longleftrightarrow> (\<forall>f \<in> set (foreign w). \<forall>t. R t (f t))"

definition within :: "(tables \<Rightarrow> tables \<Rightarrow> bool) \<Rightarrow> world \<Rightarrow> world \<Rightarrow> bool" where
  "within R w w' \<longleftrightarrow> R (tabs w) (tabs w') \<and> set (foreign w') \<subseteq> set (foreign w)"

definition guarantees :: "(tables \<Rightarrow> tables \<Rightarrow> bool) \<Rightarrow> 'a io \<Rightarrow> bool" where
  "guarantees R m \<longleftrightarrow> (\<forall>w r w'. rely R w \<longrightarrow> m w = (r, w') \<longrightarrow> within R w w')"

lemma guaranteesI: "(\<And>w r w'. rely R w \<Longrightarrow> m w = (r, w') \<Longrightarrow> within R w w') \<Longrightarrow> guarantees R m"
  by (simp add: guarantees_def)

lemma guaranteesD: "guarantees R m \<Longrightarrow> rely R w \<Longrightarrow> m w = (r, w') \<Longrightarrow> within R w w'"
  by (simp add: guarantees_def)

lemma within_rely: "within R w w' \<Longrightarrow> rely R w \<Longrightarrow> rely R w'"
  by (auto simp: within_def rely_def)

text \<open>What a transaction did, when it reports success and when it reports an error.\<close>

lemma tx_Do_Inr:
  assumes "tx_Do m w = (Inr x, w')"
  obtains w1 w2 where "tabs w1 = tabs (interfere w)" and "foreign w1 = foreign (interfere w)"
    and "clock w1 = clock w" and "mord w1 = mord w" and "m w1 = (Inr x, w2)" and "tabs w' = tabs w2"
    and "foreign w' = foreign w2"
proof -
  obtain b w1 where b: "sql (\<lambda>w. Inr ((), tabs w)) (interfere w) = (b, w1)" by (metis surj_pair)
  from assms b obtain u where u: "b = Inr u" by (cases b) (auto simp: tx_Do_def)
  obtain v where v: "next_outcome (interfere w) = (Done, v)" "w1 = v\<lparr>tabs := tabs v\<rparr>"
    using b u by (auto simp: sql_Inr)
  have i: "clock (interfere w) = clock w" "mord (interfere w) = mord w"
    by (simp_all add: interfere_def split: list.splits)
  obtain a w2 where a: "m w1 = (a, w2)" by (cases "m w1")
  from assms b u a have "a = Inr x" and "tabs w' = tabs w2 \<and> foreign w' = foreign w2"
    by (auto simp: tx_Do_def split: sum.splits prod.splits outcome.splits dest: next_outcome_sel)
  with that [of w1 w2] v i a next_outcome_sel [OF v(1)] show ?thesis by auto
qed

lemma tx_Do_Inl:
  assumes "tx_Do m w = (Inl e, w')"
  obtains (rolled_back) t where "tabs w' = rollback_to (tabs (interfere w)) t"
    | (committed) w1 w2 x where "tabs w1 = tabs (interfere w)" and "foreign w1 = foreign (interfere w)"
      and "m w1 = (Inr x, w2)" and "tabs w' = tabs w2"
proof -
  have same: "\<exists>t'. t = rollback_to t t'" for t
    by (rule exI [of _ t]) (simp add: rollback_to_def)
  obtain b w1 where b: "sql (\<lambda>w. Inr ((), tabs w)) (interfere w) = (b, w1)" by (metis surj_pair)
  then have t1: "tabs w1 = tabs (interfere w)" "foreign w1 = foreign (interfere w)"
    by (auto simp: sql_def split: prod.splits outcome.splits dest!: next_outcome_sel)
  obtain a w2 where a: "m w1 = (a, w2)" by (cases "m w1")
  obtain y w3 where n: "next_outcome w2 = (y, w3)" by (metis surj_pair)
  have "(\<exists>t. tabs w' = rollback_to (tabs (interfere w)) t) \<or> ((\<exists>x. a = Inr x) \<and> tabs w' = tabs w2)"
    using assms b a n t1(1) same [of "tabs w1"] next_outcome_sel [OF n]
    by (auto simp: tx_Do_def split: sum.splits outcome.splits)
  with that a t1 show ?thesis by blast
qed

lemma rely_interfere: "rely R w \<Longrightarrow> rely R (interfere w)"
  by (auto simp: rely_def interfere_def split: list.splits)

locale table_relation =
  fixes R :: "tables \<Rightarrow> tables \<Rightarrow> bool"
  assumes refl: "R t t"
    and trans: "R a b \<Longrightarrow> R b c \<Longrightarrow> R a c"
    and counters: "R t (t\<lparr>t_exec_next := max (t_exec_next t) i, t_outbox_next := max (t_outbox_next t) j\<rparr>)"
begin

lemma within_same: "tabs w' = tabs w \<Longrightarrow> foreign w' = foreign w \<Longrightarrow> within R w w'"
  by (simp add: within_def refl)

lemma within_trans: "within R a b \<Longrightarrow> within R b c \<Longrightarrow> within R a c"
  unfolding within_def using trans by blast

lemma return: "guarantees R (io_return x)"
  by (simp add: guarantees_def io_return_def within_same)

lemma fail: "guarantees R (io_fail e)"
  by (simp add: guarantees_def io_fail_def within_same)

lemma of_: "guarantees R (io_of r)"
  by (simp add: guarantees_def io_of_def within_same)

lemma world: "guarantees R io_world"
  by (simp add: guarantees_def io_world_def within_same)

lemma bind:
  assumes m: "guarantees R m" and k: "\<And>x. guarantees R (k x)"
  shows "guarantees R (io_bind m k)"
proof (rule guaranteesI)
  fix w r w' assume w: "rely R w" and run: "io_bind m k w = (r, w')"
  obtain a w1 where a: "m w = (a, w1)" by (cases "m w")
  from guaranteesD [OF m w a] have 1: "within R w w1" .
  show "within R w w'"
  proof (cases a)
    case (Inl e)
    with run a 1 show ?thesis by (simp add: io_bind_def)
  next
    case (Inr x)
    with run a have "k x w1 = (r, w')" by (simp add: io_bind_def)
    with guaranteesD [OF k within_rely [OF 1 w]] within_trans [OF 1] show ?thesis by blast
  qed
qed

lemma andthen: "guarantees R m \<Longrightarrow> guarantees R k \<Longrightarrow> guarantees R (io_then m k)"
  by (simp add: io_then_def bind)

lemma try_: "guarantees R m \<Longrightarrow> guarantees R (io_try m)"
  unfolding guarantees_def io_try_def by (auto split: prod.splits)

lemma wrap: "guarantees R m \<Longrightarrow> guarantees R (io_wrap pre m)"
  unfolding guarantees_def io_wrap_def by (auto split: prod.splits sum.splits)

lemma statement:
  assumes "\<And>w x t. stmt w = Inr (x, t) \<Longrightarrow> R (tabs w) t"
  shows "guarantees R (sql stmt)"
proof (rule guaranteesI)
  fix w r w' assume "sql stmt w = (r, w')"
  moreover obtain x w1 where n: "next_outcome w = (x, w1)" by (cases "next_outcome w")
  ultimately show "within R w w'"
    using next_outcome_sel [OF n] assms [of w1]
    by (auto simp: within_def sql_def refl split: outcome.splits sum.splits prod.splits)
qed

lemma within_statement:
  assumes "sql stmt w = (r, w')" and "\<And>w1 x t. tabs w1 = tabs w \<Longrightarrow> stmt w1 = Inr (x, t) \<Longrightarrow> R (tabs w) t"
  shows "within R w w'"
proof -
  obtain x w1 where n: "next_outcome w = (x, w1)" by (cases "next_outcome w")
  with assms show ?thesis
    using next_outcome_sel [OF n] assms(2) [of w1]
    by (auto simp: within_def sql_def refl split: outcome.splits sum.splits prod.splits)
qed

lemma within_bind:
  assumes "io_bind m k w = (r, w')" and "\<And>a w1. m w = (a, w1) \<Longrightarrow> within R w w1"
    and "\<And>x w1. m w = (Inr x, w1) \<Longrightarrow> k x w1 = (r, w') \<Longrightarrow> within R w1 w'"
  shows "within R w w'"
proof -
  obtain a w1 where m: "m w = (a, w1)" by (cases "m w")
  with assms show ?thesis by (cases a) (auto simp: io_bind_def intro: within_trans)
qed

lemma within_rollback: "tabs w'' = rollback_to (tabs w) (tabs w') \<Longrightarrow> foreign w'' = foreign w'
    \<Longrightarrow> within R w w' \<Longrightarrow> within R w w''"
  by (simp add: within_def rollback_to_def counters)

lemma interfered: "rely R w \<Longrightarrow> within R w (interfere w)"
  by (auto simp: within_def rely_def interfere_def refl split: list.splits)

lemma begin_tx: "guarantees R (sql (\<lambda>w. Inr ((), tabs w)))"
  by (rule statement) (auto simp: refl)

lemma transaction:
  assumes "guarantees R m"
  shows "guarantees R (tx_Do m)"
proof (rule guaranteesI)
  fix w r w' assume w: "rely R w" and run: "tx_Do m w = (r, w')"
  obtain b w1 where b: "sql (\<lambda>w. Inr ((), tabs w)) (interfere w) = (b, w1)" by (metis surj_pair)
  have 0: "within R w (interfere w)" by (rule interfered [OF w])
  then have 1: "within R w w1"
    by (rule within_trans) (rule guaranteesD [OF begin_tx within_rely [OF 0 w] b])
  obtain a w2 where a: "m w1 = (a, w2)" by (cases "m w1")
  have 2: "within R w1 w2" by (rule guaranteesD [OF assms within_rely [OF 1 w] a])
  obtain x w3 where n: "next_outcome w2 = (x, w3)" by (cases "next_outcome w2")
  have 3: "within R w1 w3"
    using 2 within_same [of w3 w2] next_outcome_sel [OF n] by (auto intro: within_trans)
  have "within R w1 w' \<or> w' = w1"
    using run a b n 2 3
    by (auto simp: tx_Do_def split: sum.splits outcome.splits intro: within_rollback)
  then show "within R w w'" using 1 within_trans by blast
qed

lemma find: "guarantees R (sql_find tab p)"
  unfolding sql_find_def by (rule statement) (auto simp: refl)

lemma first: "guarantees R (sql_first tab pk p)"
  unfolding sql_first_def by (rule statement) (auto simp: refl split: list.splits)

lemma batches: "(\<And>c. guarantees R (ins c)) \<Longrightarrow> guarantees R (in_batches ins cs)"
  by (induction cs) (auto intro!: bind return)

lemma if_: "guarantees R m \<Longrightarrow> guarantees R n \<Longrightarrow> guarantees R (if b then m else n)"
  by simp

lemma case_sum_: "(\<And>x. guarantees R (f x)) \<Longrightarrow> (\<And>y. guarantees R (g y)) \<Longrightarrow>
    guarantees R (case s of Inl x \<Rightarrow> f x | Inr y \<Rightarrow> g y)"
  by (cases s) auto

lemma case_option_: "guarantees R m \<Longrightarrow> (\<And>y. guarantees R (g y)) \<Longrightarrow>
    guarantees R (case s of None \<Rightarrow> m | Some y \<Rightarrow> g y)"
  by (cases s) auto

lemmas pieces = if_ case_sum_ case_option_ return fail of_ world bind andthen try_ wrap transaction find first batches

end

end
