(* ===== verification/Integrity.thy ===== *)
theory Integrity
  imports Database
begin

text \<open>
  The integrity of the tables: primary keys and unique keys hold, and the auto-increment
  counters are ahead of every key handed out. An interface states what an INSERT keeps of
  a table with a unique key; the two tables of the engine are instances.
\<close>

definition keyed_ok ::
  "('r \<Rightarrow> 'r \<Rightarrow> bool) \<Rightarrow> ('r \<Rightarrow> int64) \<Rightarrow> 'r list \<Rightarrow> int64 \<Rightarrow> bool" where
  "keyed_ok clash pk rows nxt \<longleftrightarrow>
     0 < nxt \<and> distinct (map pk rows) \<and> (\<forall>r \<in> set rows. pk r \<noteq> 0 \<and> pk r < nxt) \<and>
     (\<forall>r \<in> set rows. \<forall>r' \<in> set rows. clash r r' \<longrightarrow> r = r')"

locale keyed_table =
  fixes clash :: "'r \<Rightarrow> 'r \<Rightarrow> bool" and pk :: "'r \<Rightarrow> int64" and set_pk :: "int64 \<Rightarrow> 'r \<Rightarrow> 'r"
  assumes clash_sym: "clash a b \<Longrightarrow> clash b a"
    and pk_set [simp]: "pk (set_pk i r) = i"
    and clash_set [simp]: "clash (set_pk i r) r' = clash r r'"
begin

lemma clash_set' [simp]: "clash r' (set_pk i r) = clash r' r"
  by (metis clash_set clash_sym)

lemma insert_row_ok:
  assumes "insert_row clash pk set_pk dn row (rows, nxt) = Inr (row', rows', nxt')"
    and "keyed_ok clash pk rows nxt"
  shows "keyed_ok clash pk rows' nxt'"
proof (cases "\<exists>r \<in> set rows. clash row r \<or> (pk row \<noteq> 0 \<and> pk r = pk row)")
  case True
  with assms show ?thesis
    by (auto simp: insert_row_def keyed_ok_def split: if_splits)
next
  case False
  define i where "i = (if pk row = 0 then nxt else pk row)"
  from False assms have eq: "rows' = rows @ [set_pk i row]" "nxt' = max nxt (i + 1)"
    by (auto simp: insert_row_def i_def Let_def)
  from False assms have "i \<noteq> 0" "\<forall>r \<in> set rows. pk r \<noteq> i" "\<forall>r \<in> set rows. \<not> clash row r"
    by (auto simp: i_def keyed_ok_def)
  with assms(2) show ?thesis
    unfolding keyed_ok_def eq by (auto dest: clash_sym)
qed

lemma insert_rows_ok:
  "insert_rows clash pk set_pk dn rs (rows, nxt) = Inr (rs', rows', nxt') \<Longrightarrow>
     keyed_ok clash pk rows nxt \<Longrightarrow> keyed_ok clash pk rows' nxt'"
proof (induction rs arbitrary: rows nxt rs')
  case Nil
  then show ?case by simp
next
  case (Cons row rs)
  from Cons.prems(1) obtain row1 rows1 n1 rs1 where
    1: "insert_row clash pk set_pk dn row (rows, nxt) = Inr (row1, rows1, n1)" and
    2: "insert_rows clash pk set_pk dn rs (rows1, n1) = Inr (rs1, rows', nxt')"
    by (auto split: sum.splits prod.splits)
  from Cons.IH [OF 2 insert_row_ok [OF 1 Cons.prems(2)]] show ?case .
qed

text \<open>Rows that are in the table stay there, and what is added comes back as the result.\<close>

lemma insert_row_rows:
  assumes "insert_row clash pk set_pk dn row (rows, n) = Inr (row', rows', n')"
  shows "(rows' = rows \<and> row' = row \<and> (\<exists>r \<in> set rows. clash row r \<or> (pk row \<noteq> 0 \<and> pk r = pk row)))
    \<or> (rows' = rows @ [row'] \<and> (\<exists>i. row' = set_pk i row \<and> (pk row = 0 \<longrightarrow> i = n)))"
  using assms by (auto simp: insert_row_def Let_def split: if_splits)

lemma insert_rows_rows:
  "insert_rows clash pk set_pk dn rs (rows, n) = Inr (rs', rows', n') \<Longrightarrow>
     \<exists>new. rows' = rows @ new \<and> set new \<subseteq> set rs'"
proof (induction rs arbitrary: rows n rs')
  case Nil
  then show ?case by auto
next
  case (Cons row rs)
  from Cons.prems obtain row' rows1 n1 rs1 where
    1: "insert_row clash pk set_pk dn row (rows, n) = Inr (row', rows1, n1)" and
    2: "insert_rows clash pk set_pk dn rs (rows1, n1) = Inr (rs1, rows', n')" and 3: "rs' = row' # rs1"
    by (auto split: sum.splits prod.splits)
  from insert_row_rows [OF 1] Cons.IH [OF 2] 3 show ?case by auto
qed

lemma insert_rows_origin:
  "insert_rows clash pk set_pk dn rs (rows, n) = Inr (rs', rows', n') \<Longrightarrow>
     \<forall>r \<in> set rs'. \<exists>s \<in> set rs. \<exists>i. r = s \<or> r = set_pk i s"
proof (induction rs arbitrary: rows n rs')
  case Nil
  then show ?case by auto
next
  case (Cons row rs)
  from Cons.prems obtain row' rows1 n1 rs1 where
    1: "insert_row clash pk set_pk dn row (rows, n) = Inr (row', rows1, n1)" and
    2: "insert_rows clash pk set_pk dn rs (rows1, n1) = Inr (rs1, rows', n')" and 3: "rs' = row' # rs1"
    by (auto split: sum.splits prod.splits)
  from insert_row_rows [OF 1] Cons.IH [OF 2] 3 show ?case by auto
qed

lemma insert_rows_frame:
  "insert_rows clash pk set_pk dn rs (rows, n) = Inr (rs', rows', n') \<Longrightarrow>
     (keyed_ok clash pk rows n \<longrightarrow> keyed_ok clash pk rows' n') \<and> set rows \<subseteq> set rows'"
  using insert_rows_ok insert_rows_rows by fastforce

text \<open>After an INSERT every key it was asked to insert is present, old or new.\<close>

lemma insert_rows_present:
  "insert_rows clash pk set_pk dn rs (rows, n) = Inr (rs', rows', n') \<Longrightarrow>
     row \<in> set rs \<Longrightarrow> pk row = 0 \<Longrightarrow> clash row row \<Longrightarrow> \<exists>r \<in> set rows'. clash row r"
proof (induction rs arbitrary: rows n rs')
  case Nil
  then show ?case by simp
next
  case (Cons x rs)
  from Cons.prems obtain x' rows1 n1 rs1 where
    1: "insert_row clash pk set_pk dn x (rows, n) = Inr (x', rows1, n1)" and
    2: "insert_rows clash pk set_pk dn rs (rows1, n1) = Inr (rs1, rows', n')"
    by (auto split: sum.splits prod.splits)
  show ?case
  proof (cases "row = x")
    case True
    with insert_row_rows [OF 1] Cons.prems(3,4) have "\<exists>r \<in> set rows1. clash row r" by auto
    with insert_rows_rows [OF 2] show ?thesis by auto
  next
    case False
    with Cons.prems Cons.IH [OF 2] show ?thesis by auto
  qed
qed

text \<open>An UPDATE that leaves the keys alone keeps the table in order.\<close>

lemma apply_where_ok:
  assumes "keyed_ok clash pk rows nxt"
    and "\<And>r. p r \<Longrightarrow> pk (f r) = pk r"
    and "\<And>r r'. clash (if p r then f r else r) (if p r' then f r' else r') \<Longrightarrow> clash r r'"
  shows "keyed_ok clash pk (apply_where p f rows) nxt"
proof -
  have "map pk (apply_where p f rows) = map pk rows"
    using assms(2) by (auto simp: apply_where_def)
  moreover have "clash a b \<Longrightarrow> a = b"
    if "a \<in> set (apply_where p f rows)" "b \<in> set (apply_where p f rows)" for a b
  proof -
    assume ab: "clash a b"
    from that obtain r r' where r: "r \<in> set rows" "a = (if p r then f r else r)"
      and r': "r' \<in> set rows" "b = (if p r' then f r' else r')"
      by (auto simp: apply_where_def)
    with ab assms(3) [of r r'] have "clash r r'" by simp
    with r r' assms(1) have "r = r'" by (auto simp: keyed_ok_def)
    with r r' show "a = b" by simp
  qed
  moreover have "\<forall>a \<in> set (apply_where p f rows). pk a \<noteq> 0 \<and> pk a < nxt"
    using assms(1,2) by (auto simp: keyed_ok_def apply_where_def)
  ultimately show ?thesis using assms(1) by (auto simp: keyed_ok_def)
qed

end

lemma exec_clash_iff:
  "exec_clash co a b \<longleftrightarrow> (\<exists>x y. pe_RequestID a = Some x \<and> pe_RequestID b = Some y \<and> co x = co y
     \<and> pe_CaseID a = pe_CaseID b)"
  by (auto simp: exec_clash_def split: option.splits)

interpretation ekt: keyed_table "exec_clash co" pe_ExecutionID "\<lambda>i r. r\<lparr>pe_ExecutionID := i\<rparr>" for co
  by unfold_locales (auto simp: exec_clash_iff)

interpretation okt: keyed_table outbox_clash po_OutboxID "\<lambda>i r. r\<lparr>po_OutboxID := i\<rparr>"
  by unfold_locales (auto simp: outbox_clash_def)

definition tables_ok :: "tables \<Rightarrow> bool" where
  "tables_ok t \<longleftrightarrow>
     keyed_ok (exec_clash (t_coll t)) pe_ExecutionID (t_execs t) (t_exec_next t) \<and>
     keyed_ok outbox_clash po_OutboxID (t_outbox t) (t_outbox_next t)"

definition keeps_ok :: "tables \<Rightarrow> tables \<Rightarrow> bool" where
  "keeps_ok t t' \<longleftrightarrow> t_coll t' = t_coll t \<and> (tables_ok t \<longrightarrow> tables_ok t')"

lemma keyed_ok_mono: "keyed_ok cl pk rows n \<Longrightarrow> n \<le> n' \<Longrightarrow> keyed_ok cl pk rows n'"
  by (auto simp: keyed_ok_def)

interpretation ok: table_relation keeps_ok
  by unfold_locales (auto simp: keeps_ok_def tables_ok_def elim: keyed_ok_mono)

lemma ok_insert_execs: "guarantees keeps_ok (sql_insert_execs dn rows)"
  unfolding sql_insert_execs_def
  by (rule ok.statement)
    (auto simp: keeps_ok_def tables_ok_def split: sum.splits prod.splits dest: ekt.insert_rows_ok)

lemma ok_insert_outbox: "guarantees keeps_ok (sql_insert_outbox dn rows)"
  unfolding sql_insert_outbox_def
  by (rule ok.statement)
    (auto simp: keeps_ok_def tables_ok_def split: sum.splits prod.splits dest: okt.insert_rows_ok)

lemma ok_update_execs:
  assumes "\<And>r. p r \<Longrightarrow> pe_ExecutionID (f r) = pe_ExecutionID r \<and> pe_RequestID (f r) = pe_RequestID r
    \<and> pe_CaseID (f r) = pe_CaseID r"
  shows "guarantees keeps_ok (sql_update_execs p f)"
  unfolding sql_update_execs_def
  by (rule ok.statement)
    (use assms in \<open>auto simp: keeps_ok_def tables_ok_def exec_clash_iff intro!: ekt.apply_where_ok
      split: if_splits\<close>)

lemma ok_update_outbox:
  assumes "\<And>r. po_OutboxID (f r) = po_OutboxID r \<and> po_ExecutionID (f r) = po_ExecutionID r"
  shows "guarantees keeps_ok (sql_update_outbox p f)"
  unfolding sql_update_outbox_def
  by (rule ok.statement)
    (use assms in \<open>auto simp: Let_def keeps_ok_def tables_ok_def outbox_clash_def
      intro!: okt.apply_where_ok split: if_splits\<close>)

lemmas ok_pieces = ok.pieces ok_insert_execs ok_insert_outbox

text \<open>The only row with a given unique key.\<close>

lemma tables_ok_exec_unique:
  "tables_ok t \<Longrightarrow> r \<in> set (t_execs t) \<Longrightarrow> r' \<in> set (t_execs t) \<Longrightarrow>
     pe_ExecutionID r = pe_ExecutionID r' \<or> exec_clash (t_coll t) r r' \<Longrightarrow> r = r'"
  by (auto simp: tables_ok_def keyed_ok_def dest: distinct_map [THEN iffD1] inj_onD)

lemma tables_ok_outbox_unique:
  "tables_ok t \<Longrightarrow> m \<in> set (t_outbox t) \<Longrightarrow> m' \<in> set (t_outbox t) \<Longrightarrow>
     po_OutboxID m = po_OutboxID m' \<or> po_ExecutionID m = po_ExecutionID m' \<Longrightarrow> m = m'"
  by (auto simp: tables_ok_def keyed_ok_def outbox_clash_def dest: distinct_map [THEN iffD1] inj_onD)

lemma tables_ok_distinct_exec: "tables_ok t \<Longrightarrow> distinct (map po_ExecutionID (t_outbox t))"
  by (auto simp: tables_ok_def keyed_ok_def outbox_clash_def distinct_map intro!: inj_onI)

end
