(* ===== verification/Execution_Repository.thy ===== *)
theory Execution_Repository
  imports Integrity
begin

text \<open>
  The MySQL repository of execution records
  (\<open>persistence/mysql/execution_repository.go\<close>, port in
  \<open>domain/repository/execution_repository.go\<close>): the operations, what they leave alone, and
  the contract the use cases rely on. The helper \<open>uniqueInt64s\<close> of the outbox repository
  stands here because both repositories use it.
\<close>

subsection \<open>The operations\<close>

fun uniqueInt64s_loop :: "int64 list \<Rightarrow> int64 list \<Rightarrow> int64 list" where
  "uniqueInt64s_loop seen [] = []"
| "uniqueInt64s_loop seen (v # vs) =
     (if v \<in> set seen then uniqueInt64s_loop seen vs else v # uniqueInt64s_loop (v # seen) vs)"

definition uniqueInt64s :: "int64 list \<Rightarrow> int64 list" where
  "uniqueInt64s values = uniqueInt64s_loop [] values"

lemma uniqueInt64s_dedup: "uniqueInt64s xs = dedup [] xs"
proof -
  have "uniqueInt64s_loop seen xs = dedup seen xs" for seen
    by (induction xs arbitrary: seen) auto
  then show ?thesis by (simp add: uniqueInt64s_def)
qed

lemma set_uniqueInt64s [simp]: "set (uniqueInt64s xs) = set xs"
  by (simp add: uniqueInt64s_dedup)

lemma distinct_uniqueInt64s [simp]: "distinct (uniqueInt64s xs)"
  by (simp add: uniqueInt64s_dedup)

lemma length_uniqueInt64s: "length (uniqueInt64s xs) = card (set xs)"
  by (simp add: uniqueInt64s_dedup length_dedup_Nil)

text \<open>The conditions \<open>request_id = ?\<close> and \<open>request_id = ? AND case_id = ?\<close>.\<close>

definition request_is :: "tables \<Rightarrow> string \<Rightarrow> ExecutionRecordPO \<Rightarrow> bool" where
  "request_is t rid r \<longleftrightarrow>
     (case pe_RequestID r of None \<Rightarrow> False | Some x \<Rightarrow> t_coll t x = t_coll t rid)"

definition sql_insert_exec :: "bool \<Rightarrow> ExecutionRecordPO \<Rightarrow> ExecutionRecordPO io" where
  "sql_insert_exec dn row =
     io_bind (sql_insert_execs dn [row])
       (\<lambda>rows. io_return (case rows of [] \<Rightarrow> row | r # _ \<Rightarrow> r))"

text \<open>
  GORM's \<open>First\<close> adds the primary key of its destination to the condition when that is set,
  which it is when the INSERT before it created the row.
\<close>

definition ExecutionRepository_Add :: "ExecutionRecord \<Rightarrow> ExecutionRecord io" where
  "ExecutionRepository_Add record =
     io_bind (io_wrap ''insert execution_record: ''
                (sql_insert_exec (er_RequestID record \<noteq> '''') (FromExecutionRecord record)))
       (\<lambda>row. if er_RequestID record \<noteq> ''''
              then io_bind (io_wrap ''select idempotent execution_record: ''
                     (sql_first t_execs pe_ExecutionID
                        (\<lambda>t r. (pe_ExecutionID row \<noteq> 0 \<longrightarrow> pe_ExecutionID r = pe_ExecutionID row)
                               \<and> request_is t (er_RequestID record) r
                               \<and> pe_CaseID r = er_CaseID record)))
                     (\<lambda>row'. io_return (ExecutionRecord_ToEntity row'))
              else io_return (ExecutionRecord_ToEntity row))"

fun copy_persisted ::
  "(int64 \<rightharpoonup> ExecutionRecordPO) \<Rightarrow> ExecutionRecord list \<Rightarrow> goerr + ExecutionRecord list" where
  "copy_persisted byCaseID [] = Inr []"
| "copy_persisted byCaseID (r # rs) =
     (case byCaseID (er_CaseID r) of
        None \<Rightarrow> Inl (ErrorsNew (''select idempotent execution_record batch: case_id=''
                               @ FormatInt (er_CaseID r) @ '' missing''))
      | Some row \<Rightarrow>
          (case copy_persisted byCaseID rs of
             Inl e \<Rightarrow> Inl e
           | Inr rs' \<Rightarrow> Inr (ExecutionRecord_ToEntity row # rs')))"

definition by_case_id :: "ExecutionRecordPO list \<Rightarrow> (int64 \<rightharpoonup> ExecutionRecordPO)" where
  "by_case_id persisted = fold (\<lambda>p m. m(pe_CaseID p \<mapsto> p)) persisted Map.empty"

definition ExecutionRepository_BatchAdd :: "ExecutionRecord list \<Rightarrow> ExecutionRecord list io" where
  "ExecutionRepository_BatchAdd records =
     (if records = [] then io_return []
      else
        (let rows = map FromExecutionRecord records; requestID = er_RequestID (hd records) in
         if \<exists>r \<in> set records. er_RequestID r \<noteq> requestID
         then io_fail (ErrorsNew ''batch insert execution_record: mixed request_id values'')
         else io_bind (io_wrap ''batch insert execution_record: ''
                (in_batches (sql_insert_execs (requestID \<noteq> '''')) (chunks 200 rows)))
                (\<lambda>rows'. if requestID = ''''
                   then io_return (map ExecutionRecord_ToEntity rows')
                   else io_bind (io_wrap ''select idempotent execution_record batch: ''
                          (sql_find t_execs
                             (\<lambda>t r. request_is t requestID r
                                    \<and> pe_CaseID r \<in> set (map er_CaseID records))))
                          (\<lambda>persisted. io_of (copy_persisted (by_case_id persisted) records)))))"

definition ExecutionRepository_FindByID :: "int64 \<Rightarrow> ExecutionRecord option io" where
  "ExecutionRepository_FindByID executionID =
     io_bind (io_try (sql_first t_execs pe_ExecutionID (\<lambda>t r. pe_ExecutionID r = executionID)))
       (\<lambda>r. case r of
              Inl e \<Rightarrow> (if errors_Is e ErrRecordNotFound then io_return None
                      else io_fail (wrap_prefix ''select execution_record by id: '' e))
            | Inr row \<Rightarrow> io_return (Some (ExecutionRecord_ToEntity row)))"

definition ExecutionRepository_Save :: "ExecutionRecord \<Rightarrow> unit io" where
  "ExecutionRepository_Save record =
     io_bind (io_wrap ''update execution_record: ''
                (sql_update_execs
                   (\<lambda>r. pe_ExecutionID r = er_ExecutionID record \<and> pe_ExecutionStatus r = StatusWait)
                   (\<lambda>r. r\<lparr>pe_ExecutionStatus := er_ExecutionStatus record,
                          pe_ExecuteAt := er_ExecuteAt record, pe_FinishAt := er_FinishAt record\<rparr>)))
       (\<lambda>rowsAffected.
          if rowsAffected = 0
          then io_bind (io_try (sql_first t_execs pe_ExecutionID
                                  (\<lambda>t r. pe_ExecutionID r = er_ExecutionID record)))
                 (\<lambda>existing. case existing of
                    Inl e \<Rightarrow> (if errors_Is e ErrRecordNotFound
                            then io_fail (ErrorsNew (''update execution_record: no row matched id=''
                                                     @ FormatInt (er_ExecutionID record)))
                            else io_fail (wrap_prefix
                                   ''verify execution_record after conditional update: '' e))
                  | Inr _ \<Rightarrow> io_return ())
          else io_return ())"

fun recordFinishTime :: "ExecutionRecord list \<Rightarrow> int64 list \<Rightarrow> gotime option" where
  "recordFinishTime [] ids = None"
| "recordFinishTime (r # rs) ids =
     (if er_ExecutionID r \<in> set ids \<and> er_FinishAt r \<noteq> None then er_FinishAt r
      else recordFinishTime rs ids)"

definition group_ids :: "ExecutionRecord list \<Rightarrow> ExecutionStatus \<Rightarrow> int64 list" where
  "group_ids records status = map er_ExecutionID (filter (\<lambda>r. er_ExecutionStatus r = status) records)"

definition update_group :: "ExecutionRecord list \<Rightarrow> ExecutionStatus \<Rightarrow> unit io" where
  "update_group records status =
     (let ids = group_ids records status in
      io_bind (io_wrap (''bulk update execution_status='' @ status @ '': '')
                 (sql_update_execs
                    (\<lambda>r. pe_ExecutionID r \<in> set ids \<and> pe_ExecutionStatus r = StatusWait)
                    (\<lambda>r. if IsTerminal status
                         then r\<lparr>pe_ExecutionStatus := status, pe_FinishAt := recordFinishTime records ids\<rparr>
                         else r\<lparr>pe_ExecutionStatus := status\<rparr>)))
        (\<lambda>rowsAffected.
           let uniqueIDs = uniqueInt64s ids in
           if rowsAffected < int (length uniqueIDs)
           then io_bind (io_wrap ''verify execution_record batch after conditional update: ''
                           (sql_find t_execs (\<lambda>t r. pe_ExecutionID r \<in> set uniqueIDs)))
                  (\<lambda>existing. if length existing \<noteq> length uniqueIDs
                     then io_fail (ErrorsNew (''bulk update execution_status='' @ status
                                              @ '': one or more rows are missing''))
                     else io_return ())
           else io_return ()))"

fun update_groups :: "ExecutionRecord list \<Rightarrow> ExecutionStatus list \<Rightarrow> unit io" where
  "update_groups records [] = io_return ()"
| "update_groups records (s # ss) = io_then (update_group records s) (update_groups records ss)"

definition grouped_statuses :: "ExecutionRecord list \<Rightarrow> ExecutionStatus list" where
  "grouped_statuses records =
     dedup [] (filter (\<lambda>s. s \<noteq> StatusWait) (map er_ExecutionStatus records))"

definition ExecutionRepository_BatchUpdateStatus :: "ExecutionRecord list \<Rightarrow> unit io" where
  "ExecutionRepository_BatchUpdateStatus records =
     (if records = [] then io_return ()
      else io_bind io_world
             (\<lambda>w. update_groups records (map_order (mord w) (grouped_statuses records))))"

subsection \<open>Records are never lost and never go back\<close>

text \<open>
  The two-state invariant of \<open>execution_record\<close>: no row disappears, what a row was created
  with stays, and once its status has left WAIT it moves along edges of the status machine only.
\<close>

definition status_adv :: "ExecutionStatus \<Rightarrow> ExecutionStatus \<Rightarrow> bool" where
  "status_adv s t \<longleftrightarrow> s = StatusWait \<or> status_le s t"

definition exec_same :: "ExecutionRecordPO \<Rightarrow> ExecutionRecordPO \<Rightarrow> bool" where
  "exec_same r r' \<longleftrightarrow>
     pe_ExecutionID r' = pe_ExecutionID r \<and> pe_RequestID r' = pe_RequestID r \<and>
     pe_CaseID r' = pe_CaseID r \<and> pe_Version r' = pe_Version r \<and>
     pe_CreateBy r' = pe_CreateBy r \<and> pe_CreateAt r' = pe_CreateAt r"

definition exec_advance :: "tables \<Rightarrow> tables \<Rightarrow> bool" where
  "exec_advance t t' \<longleftrightarrow>
     (\<forall>r \<in> set (t_execs t). \<exists>r' \<in> set (t_execs t').
        exec_same r r' \<and> status_adv (pe_ExecutionStatus r) (pe_ExecutionStatus r'))"

lemma status_adv_refl [simp]: "status_adv s s"
  by (simp add: status_adv_def)

lemma status_adv_trans: "status_adv a b \<Longrightarrow> status_adv b c \<Longrightarrow> status_adv a c"
  by (auto simp: status_adv_def status_le_def CanTransitTo_not_wait dest: CanTransitTo_trans)

lemma exec_same_refl [simp]: "exec_same r r"
  by (simp add: exec_same_def)

lemma exec_same_trans: "exec_same a b \<Longrightarrow> exec_same b c \<Longrightarrow> exec_same a c"
  by (simp add: exec_same_def)

lemma exec_advance_trans: "exec_advance a b \<Longrightarrow> exec_advance b c \<Longrightarrow> exec_advance a c"
  unfolding exec_advance_def by (meson exec_same_trans status_adv_trans)

lemma exec_advance_superset:
  "set (t_execs t) \<subseteq> set (t_execs t') \<Longrightarrow> exec_advance t t'"
  by (force simp: exec_advance_def)

interpretation adv: table_relation exec_advance
  by unfold_locales (auto intro: exec_advance_superset exec_advance_trans)

lemma exec_advance_apply:
  assumes "\<And>r. p r \<Longrightarrow> exec_same r (f r) \<and> pe_ExecutionStatus r = StatusWait"
  shows "exec_advance t (t\<lparr>t_execs := apply_where p f (t_execs t)\<rparr>)"
  unfolding exec_advance_def
proof
  fix r assume "r \<in> set (t_execs t)"
  then have "(if p r then f r else r) \<in> set (apply_where p f (t_execs t))"
    unfolding apply_where_def set_map by (rule imageI)
  moreover have "exec_same r (if p r then f r else r) \<and>
      status_adv (pe_ExecutionStatus r) (pe_ExecutionStatus (if p r then f r else r))"
    using assms [of r] by (auto simp: status_adv_def)
  ultimately show "\<exists>r' \<in> set (t_execs (t\<lparr>t_execs := apply_where p f (t_execs t)\<rparr>)).
      exec_same r r' \<and> status_adv (pe_ExecutionStatus r) (pe_ExecutionStatus r')"
    by auto
qed

lemma adv_insert_execs: "guarantees exec_advance (sql_insert_execs dn rows)"
  unfolding sql_insert_execs_def
  by (rule adv.statement)
    (auto split: sum.splits prod.splits dest!: ekt.insert_rows_rows intro!: exec_advance_superset)

lemma adv_insert_outbox: "guarantees exec_advance (sql_insert_outbox dn rows)"
  unfolding sql_insert_outbox_def
  by (rule adv.statement)
    (auto split: sum.splits prod.splits intro!: exec_advance_superset)

lemma adv_update_outbox: "guarantees exec_advance (sql_update_outbox p f)"
  unfolding sql_update_outbox_def
  by (rule adv.statement) (auto simp: Let_def intro!: exec_advance_superset)

lemma adv_update_execs:
  assumes "\<And>r. p r \<Longrightarrow> exec_same r (f r) \<and> pe_ExecutionStatus r = StatusWait"
  shows "guarantees exec_advance (sql_update_execs p f)"
  unfolding sql_update_execs_def
  by (rule adv.statement) (use exec_advance_apply [of p f] assms in auto)

lemmas adv_pieces = adv.pieces adv_insert_execs adv_insert_outbox adv_update_outbox

lemma adv_Add: "guarantees exec_advance (ExecutionRepository_Add r)"
  unfolding ExecutionRepository_Add_def sql_insert_exec_def
  by (intro adv_pieces)

lemma adv_BatchAdd: "guarantees exec_advance (ExecutionRepository_BatchAdd rs)"
  unfolding ExecutionRepository_BatchAdd_def Let_def
  by (intro adv_pieces)

lemma adv_FindByID: "guarantees exec_advance (ExecutionRepository_FindByID i)"
  unfolding ExecutionRepository_FindByID_def
  by (intro adv_pieces)

lemma adv_Save: "guarantees exec_advance (ExecutionRepository_Save r)"
  unfolding ExecutionRepository_Save_def
  by (auto intro!: adv_pieces adv_update_execs simp: exec_same_def split: sum.splits)

lemma adv_update_group: "guarantees exec_advance (update_group rs s)"
  unfolding update_group_def Let_def
  by (auto intro!: adv_pieces adv_update_execs simp: exec_same_def)

lemma adv_update_groups: "guarantees exec_advance (update_groups rs ss)"
  by (induction ss) (auto intro!: adv_pieces adv_update_group)

lemma adv_BatchUpdateStatus: "guarantees exec_advance (ExecutionRepository_BatchUpdateStatus rs)"
  unfolding ExecutionRepository_BatchUpdateStatus_def
  by (auto intro!: adv_pieces adv_update_groups)

lemmas adv_execution_repository =
  adv_Add adv_BatchAdd adv_FindByID adv_Save adv_BatchUpdateStatus

subsection \<open>Table integrity\<close>

lemma ok_Add: "guarantees keeps_ok (ExecutionRepository_Add r)"
  unfolding ExecutionRepository_Add_def sql_insert_exec_def
  by (intro ok_pieces)

lemma ok_BatchAdd: "guarantees keeps_ok (ExecutionRepository_BatchAdd rs)"
  unfolding ExecutionRepository_BatchAdd_def Let_def
  by (intro ok_pieces)

lemma ok_FindByID: "guarantees keeps_ok (ExecutionRepository_FindByID i)"
  unfolding ExecutionRepository_FindByID_def
  by (intro ok_pieces)

lemma ok_Save: "guarantees keeps_ok (ExecutionRepository_Save r)"
  unfolding ExecutionRepository_Save_def
  by (auto intro!: ok_pieces ok_update_execs split: sum.splits)

lemma ok_update_group: "guarantees keeps_ok (update_group rs s)"
  unfolding update_group_def Let_def
  by (auto intro!: ok_pieces ok_update_execs)

lemma ok_update_groups: "guarantees keeps_ok (update_groups rs ss)"
  by (induction ss) (auto intro!: ok_pieces ok_update_group)

lemma ok_BatchUpdateStatus: "guarantees keeps_ok (ExecutionRepository_BatchUpdateStatus rs)"
  unfolding ExecutionRepository_BatchUpdateStatus_def
  by (auto intro!: ok_pieces ok_update_groups)

lemmas ok_execution_repository =
  ok_Add ok_BatchAdd ok_FindByID ok_Save ok_BatchUpdateStatus

subsection \<open>What the operations return\<close>

lemma request_is_clash:
  "request_is t rid a \<Longrightarrow> request_is t rid b \<Longrightarrow> pe_CaseID a = pe_CaseID b \<Longrightarrow> exec_clash (t_coll t) a b"
  by (auto simp: request_is_def exec_clash_iff split: option.splits)

lemma Add_stored:
  assumes "ExecutionRepository_Add r w = (Inr r', w')" and "er_RequestID r \<noteq> ''''"
  shows "\<exists>p \<in> set (t_execs (tabs w')). r' = ExecutionRecord_ToEntity p \<and>
    request_is (tabs w') (er_RequestID r) p \<and> pe_CaseID p = er_CaseID r"
  using assms unfolding ExecutionRepository_Add_def
  by (auto simp: io_Inr dest!: sql_first_Inr)

lemma copy_persisted_Inr:
  "copy_persisted m rs = Inr rs' \<Longrightarrow>
     list_all2 (\<lambda>r r'. \<exists>p. m (er_CaseID r) = Some p \<and> r' = ExecutionRecord_ToEntity p) rs rs'"
  by (induction rs arbitrary: rs') (auto split: option.splits sum.splits)

lemma by_case_id_Some:
  "by_case_id ps c = Some p \<Longrightarrow> p \<in> set ps \<and> pe_CaseID p = c"
proof -
  have "fold (\<lambda>p m. m(pe_CaseID p \<mapsto> p)) ps m c = Some p \<Longrightarrow>
      p \<in> set ps \<and> pe_CaseID p = c \<or> m c = Some p" for m
  proof (induction ps arbitrary: m)
    case (Cons a ps)
    from Cons.IH [of "m(pe_CaseID a \<mapsto> a)"] Cons.prems
    have "p \<in> set ps \<and> pe_CaseID p = c \<or> (m(pe_CaseID a \<mapsto> a)) c = Some p" by simp
    then show ?case by (auto split: if_splits)
  qed simp
  then show "by_case_id ps c = Some p \<Longrightarrow> p \<in> set ps \<and> pe_CaseID p = c"
    by (auto simp: by_case_id_def)
qed

lemma BatchAdd_stored:
  assumes "ExecutionRepository_BatchAdd rs w = (Inr rs', w')"
    and "rid \<noteq> ''''" and "\<forall>r \<in> set rs. er_RequestID r = rid"
  shows "list_all2 (\<lambda>r r'. \<exists>p \<in> set (t_execs (tabs w')). r' = ExecutionRecord_ToEntity p \<and>
    request_is (tabs w') rid p \<and> pe_CaseID p = er_CaseID r) rs rs'"
proof (cases "rs = []")
  case True
  with assms(1) show ?thesis by (simp add: ExecutionRepository_BatchAdd_def io_Inr)
next
  case False
  let ?p = "\<lambda>t r. request_is t rid r \<and> pe_CaseID r \<in> set (map er_CaseID rs)"
  from False assms(3) have "er_RequestID (hd rs) = rid" by simp
  with False assms(1,2) obtain w1 ps where sel: "sql_find t_execs ?p w1 = (Inr ps, w')"
    and cp: "copy_persisted (by_case_id ps) rs = Inr rs'"
    by (auto simp: ExecutionRepository_BatchAdd_def io_Inr Let_def split: if_splits)
  have ps: "ps = filter (?p (tabs w1)) (t_execs (tabs w1))" "tabs w' = tabs w1"
    using sql_find_Inr [OF sel] by simp_all
  have "\<exists>p \<in> set (t_execs (tabs w')). r' = ExecutionRecord_ToEntity p \<and> request_is (tabs w') rid p \<and>
      pe_CaseID p = er_CaseID r"
    if "\<exists>p. by_case_id ps (er_CaseID r) = Some p \<and> r' = ExecutionRecord_ToEntity p" for r r'
    using that ps by (auto dest!: by_case_id_Some)
  with copy_persisted_Inr [OF cp] show ?thesis
    by (elim list_all2_mono) blast
qed

subsection \<open>The contract of the repository\<close>

text \<open>
  What the use cases rely on: no operation loses or regresses a record or breaks the tables, and
  a record that was added for a request is the stored row of that request and case. From this
  alone, adding again for the same request and case (a retry, by whichever process, however much
  later) yields the same execution.
\<close>

locale execution_repository =
  fixes add :: "ExecutionRecord \<Rightarrow> ExecutionRecord io"
    and batch_add :: "ExecutionRecord list \<Rightarrow> ExecutionRecord list io"
  assumes add_advances: "guarantees exec_advance (add r)"
    and add_ok: "guarantees keeps_ok (add r)"
    and add_stored: "add r w = (Inr r', w') \<Longrightarrow> er_RequestID r \<noteq> '''' \<Longrightarrow>
      \<exists>p \<in> set (t_execs (tabs w')). r' = ExecutionRecord_ToEntity p \<and>
        request_is (tabs w') (er_RequestID r) p \<and> pe_CaseID p = er_CaseID r"
    and batch_add_stored: "batch_add rs w = (Inr rs', w') \<Longrightarrow> rid \<noteq> '''' \<Longrightarrow>
      \<forall>r \<in> set rs. er_RequestID r = rid \<Longrightarrow>
      list_all2 (\<lambda>r r'. \<exists>p \<in> set (t_execs (tabs w')). r' = ExecutionRecord_ToEntity p \<and>
        request_is (tabs w') rid p \<and> pe_CaseID p = er_CaseID r) rs rs'"
begin

lemma stored_survives:
  assumes "p \<in> set (t_execs t)" and "request_is t rid p" and "exec_advance t t'"
    and "t_coll t' = t_coll t"
  obtains p' where "p' \<in> set (t_execs t')" and "request_is t' rid p'" and "exec_same p p'"
    and "status_adv (pe_ExecutionStatus p) (pe_ExecutionStatus p')"
proof -
  from assms(1,3) obtain p' where p': "p' \<in> set (t_execs t')" "exec_same p p'"
    "status_adv (pe_ExecutionStatus p) (pe_ExecutionStatus p')" by (auto simp: exec_advance_def)
  with assms(2,4) have "request_is t' rid p'" by (simp add: request_is_def exec_same_def split: option.splits)
  with p' that show ?thesis by blast
qed

lemma same_request_same_execution:
  assumes first: "add r w = (Inr r1, w1)"
    and meanwhile: "exec_advance (tabs w1) (tabs w2)" "t_coll (tabs w2) = t_coll (tabs w1)"
      "tables_ok (tabs w2)"
    and again: "add r' w2 = (Inr r2, w3)" "rely exec_advance w2" "rely keeps_ok w2"
    and key: "er_RequestID r' = er_RequestID r" "er_CaseID r' = er_CaseID r" "er_RequestID r \<noteq> ''''"
  shows "er_ExecutionID r2 = er_ExecutionID r1 \<and>
    status_adv (er_ExecutionStatus r1) (er_ExecutionStatus r2)"
proof -
  from add_stored [OF first key(3)] obtain p where p: "p \<in> set (t_execs (tabs w1))"
    "r1 = ExecutionRecord_ToEntity p" "request_is (tabs w1) (er_RequestID r) p"
    "pe_CaseID p = er_CaseID r" by blast
  from add_stored [OF again(1)] key obtain q where q: "q \<in> set (t_execs (tabs w3))"
    "r2 = ExecutionRecord_ToEntity q" "request_is (tabs w3) (er_RequestID r) q"
    "pe_CaseID q = er_CaseID r" by auto
  have k: "keeps_ok (tabs w2) (tabs w3)"
    using guaranteesD [OF add_ok again(3,1)] by (simp add: within_def)
  have "exec_advance (tabs w1) (tabs w3)"
    using guaranteesD [OF add_advances again(2,1)] meanwhile(1)
    by (auto simp: within_def intro: exec_advance_trans)
  then obtain p' where p': "p' \<in> set (t_execs (tabs w3))" "request_is (tabs w3) (er_RequestID r) p'"
      "exec_same p p'" "status_adv (pe_ExecutionStatus p) (pe_ExecutionStatus p')"
    using stored_survives [OF p(1,3)] k meanwhile(2) by (auto simp: keeps_ok_def)
  have "exec_clash (t_coll (tabs w3)) p' q"
    using p'(2,3) q(3,4) p(4) by (auto intro: request_is_clash simp: exec_same_def)
  then have "p' = q"
    using tables_ok_exec_unique [OF _ p'(1) q(1)] k meanwhile(3) by (simp add: keeps_ok_def)
  with p' p q show ?thesis by (simp add: exec_same_def)
qed

end

interpretation erepo: execution_repository ExecutionRepository_Add ExecutionRepository_BatchAdd
  by unfold_locales (rule adv_Add ok_Add Add_stored BatchAdd_stored; assumption)+

subsection \<open>The grouped updates write each record's own status\<close>

definition target_status :: "ExecutionRecord list \<Rightarrow> ExecutionRecordPO \<Rightarrow> ExecutionStatus option" where
  "target_status records p =
     (if pe_ExecutionStatus p \<noteq> StatusWait then None
      else map_option er_ExecutionStatus
             (find (\<lambda>r. er_ExecutionID r = pe_ExecutionID p \<and> er_ExecutionStatus r \<noteq> StatusWait)
                records))"

definition write_status :: "ExecutionRecord list \<Rightarrow> ExecutionStatus \<Rightarrow> ExecutionRecordPO \<Rightarrow> ExecutionRecordPO" where
  "write_status records s p =
     (if IsTerminal s
      then p\<lparr>pe_ExecutionStatus := s, pe_FinishAt := recordFinishTime records (group_ids records s)\<rparr>
      else p\<lparr>pe_ExecutionStatus := s\<rparr>)"

definition write_back :: "ExecutionRecord list \<Rightarrow> ExecutionStatus set \<Rightarrow> ExecutionRecordPO \<Rightarrow> ExecutionRecordPO" where
  "write_back records S p =
     (case target_status records p of
        None \<Rightarrow> p
      | Some s \<Rightarrow> (if s \<in> S then write_status records s p else p))"

lemma target_status_iff:
  assumes "distinct (map er_ExecutionID records)" and "s \<noteq> StatusWait"
  shows "target_status records p = Some s \<longleftrightarrow>
    pe_ExecutionID p \<in> set (group_ids records s) \<and> pe_ExecutionStatus p = StatusWait"
proof -
  have "map_option er_ExecutionStatus
      (find (\<lambda>r. er_ExecutionID r = i \<and> er_ExecutionStatus r \<noteq> StatusWait) records) = Some s
      \<longleftrightarrow> i \<in> set (group_ids records s)" for i
    using assms by (induction records) (auto simp: group_ids_def)
  then show ?thesis by (simp add: target_status_def)
qed

lemma target_status_wait [simp]: "pe_ExecutionStatus p \<noteq> StatusWait \<Longrightarrow> target_status records p = None"
  by (simp add: target_status_def)

lemma find_SomeD: "find P xs = Some x \<Longrightarrow> x \<in> set xs \<and> P x"
  by (induction xs) (auto split: if_splits)

lemma target_status_grouped:
  "target_status records p = Some s \<Longrightarrow> s \<in> set (grouped_statuses records)"
  by (auto simp: target_status_def grouped_statuses_def split: if_splits dest!: find_SomeD)

lemma target_status_not_wait: "target_status records p = Some s \<Longrightarrow> s \<noteq> StatusWait"
  by (auto simp: target_status_def find_Some_iff split: if_splits)

lemma write_status_done [simp]:
  "s \<noteq> StatusWait \<Longrightarrow> target_status records (write_status records s p) = None"
  by (simp add: write_status_def)

lemma sql_update_execs_Inr:
  "sql_update_execs p f w = (Inr n, w') \<Longrightarrow>
     n = affected p f (t_execs (tabs w)) \<and>
     tabs w' = (tabs w)\<lparr>t_execs := apply_where p f (t_execs (tabs w))\<rparr> \<and> mord w' = mord w"
  by (auto simp: sql_update_execs_def sql_Inr dest: next_outcome_sel)

lemma write_status_lambda:
  "(\<lambda>r. if IsTerminal s
      then r\<lparr>pe_ExecutionStatus := s, pe_FinishAt := recordFinishTime records (group_ids records s)\<rparr>
      else r\<lparr>pe_ExecutionStatus := s\<rparr>) = write_status records s"
  by (simp add: write_status_def fun_eq_iff)

lemma write_status_id [simp]: "pe_ExecutionID (write_status records s p) = pe_ExecutionID p"
  by (simp add: write_status_def)

lemma update_group_Inr:
  assumes "update_group records s w = (Inr (), w')"
  shows "tabs w' = (tabs w)\<lparr>t_execs := apply_where
      (\<lambda>r. pe_ExecutionID r \<in> set (group_ids records s) \<and> pe_ExecutionStatus r = StatusWait)
      (write_status records s) (t_execs (tabs w))\<rparr>"
  using assms unfolding update_group_def Let_def write_status_lambda
  by (auto simp: io_bind_Inr io_wrap_Inr io_return_Inr io_fail_Inr
      dest!: sql_update_execs_Inr sql_find_Inr split: if_splits)

lemma update_group_write_back:
  assumes "distinct (map er_ExecutionID records)" and "s \<noteq> StatusWait"
    and "update_group records s w = (Inr (), w')"
  shows "tabs w' = (tabs w)\<lparr>t_execs := map (write_back records {s}) (t_execs (tabs w))\<rparr>"
proof -
  have "write_back records {s} p =
      (if pe_ExecutionID p \<in> set (group_ids records s) \<and> pe_ExecutionStatus p = StatusWait
       then write_status records s p else p)" for p
    using target_status_iff [OF assms(1,2), of p]
    by (auto simp: write_back_def split: option.splits)
  then show ?thesis
    using update_group_Inr [OF assms(3)] by (simp add: apply_where_def)
qed

lemma write_back_insert:
  assumes "s \<noteq> StatusWait"
  shows "write_back records S (write_back records {s} p) = write_back records (insert s S) p"
  using assms
  by (auto simp: write_back_def split: option.splits dest: target_status_not_wait)

lemma write_back_no_records [simp]: "write_back [] S p = p"
  by (simp add: write_back_def target_status_def)

lemma write_back_empty [simp]: "write_back records {} p = p"
  by (simp add: write_back_def split: option.splits)

lemma update_groups_write_back:
  assumes "distinct (map er_ExecutionID records)" and "StatusWait \<notin> set ss"
    and "update_groups records ss w = (Inr (), w')"
  shows "tabs w' = (tabs w)\<lparr>t_execs := map (write_back records (set ss)) (t_execs (tabs w))\<rparr>"
  using assms(2,3)
proof (induction ss arbitrary: w)
  case Nil
  then show ?case by (simp add: io_return_Inr)
next
  case (Cons s ss)
  then obtain w1 where 1: "update_group records s w = (Inr (), w1)"
    and 2: "update_groups records ss w1 = (Inr (), w')"
    by (auto simp: io_then_Inr)
  from Cons.prems(1) have s: "s \<noteq> StatusWait" "StatusWait \<notin> set ss" by auto
  show ?case
    using Cons.IH [OF s(2) 2] update_group_write_back [OF assms(1) s(1) 1] s(1)
    by (simp add: write_back_insert)
qed

text \<open>
  One UPDATE per status, in whatever order the map yields the statuses, writes to every row that
  is still WAIT the status its own record has, and to no other row anything.
\<close>

lemma BatchUpdateStatus_write_back:
  assumes "distinct (map er_ExecutionID records)"
    and "ExecutionRepository_BatchUpdateStatus records w = (Inr (), w')"
  shows "tabs w' = (tabs w)\<lparr>t_execs := map (write_back records UNIV) (t_execs (tabs w))\<rparr>"
proof (cases "records = []")
  case True
  with assms show ?thesis
    by (simp add: ExecutionRepository_BatchUpdateStatus_def io_return_Inr map_idI)
next
  case False
  with assms(2) have run: "update_groups records (map_order (mord w) (grouped_statuses records)) w = (Inr (), w')"
    by (simp add: ExecutionRepository_BatchUpdateStatus_def io_bind_Inr io_world_Inr)
  have all: "write_back records (set (grouped_statuses records)) p = write_back records UNIV p" for p
    by (auto simp: write_back_def split: option.splits dest: target_status_grouped)
  show ?thesis
    using update_groups_write_back [OF assms(1) _ run] all by (simp add: grouped_statuses_def)
qed

text \<open>
  An update that misses a row is tolerated when the row has moved on, and only then: if a record
  that is to be written has no row at all, the operation is an error.
\<close>

lemma card_present:
  assumes "distinct (map pk rows)" and "finite S" and "card S \<le> length (filter (\<lambda>r. pk r \<in> S) rows)"
  shows "S \<subseteq> pk ` set rows"
proof -
  let ?hits = "filter (\<lambda>r. pk r \<in> S) rows"
  have "distinct (map pk ?hits)" using assms(1) by (simp add: distinct_map_filter)
  then have "length ?hits = card (set (map pk ?hits))" by (metis distinct_card length_map)
  with assms(3) have "card S \<le> card (set (map pk ?hits))" by simp
  moreover have "set (map pk ?hits) \<subseteq> S" by auto
  ultimately have "set (map pk ?hits) = S" using assms(2) by (metis card_seteq)
  then show ?thesis by auto
qed

lemma update_group_present:
  assumes ok: "distinct (map pe_ExecutionID (t_execs (tabs w)))"
    and run: "update_group records s w = (Inr (), w')"
  shows "set (group_ids records s) \<subseteq> pe_ExecutionID ` set (t_execs (tabs w))"
proof -
  let ?S = "set (group_ids records s)" and ?rows = "t_execs (tabs w)"
  let ?p = "\<lambda>r. pe_ExecutionID r \<in> ?S \<and> pe_ExecutionStatus r = StatusWait"
  let ?f = "write_status records s"
  obtain n w1 where up: "sql_update_execs ?p ?f w = (Inr n, w1)"
    and rest: "n < int (card ?S) \<longrightarrow> (\<exists>ex. sql_find t_execs (\<lambda>t r. pe_ExecutionID r \<in> ?S) w1 = (Inr ex, w')
                 \<and> length ex = card ?S)"
    using run unfolding update_group_def Let_def write_status_lambda
    by (auto simp: io_bind_Inr io_wrap_Inr io_return_Inr io_fail_Inr length_uniqueInt64s
        split: if_splits)
  have n: "n = affected ?p ?f ?rows" "t_execs (tabs w1) = apply_where ?p ?f ?rows"
    using sql_update_execs_Inr [OF up] by simp_all
  have ids: "map pe_ExecutionID (apply_where ?p ?f ?rows) = map pe_ExecutionID ?rows"
    by (simp add: apply_where_def)
  show ?thesis
  proof (cases "n < int (card ?S)")
    case True
    with rest n(2) have "card ?S = length (filter (\<lambda>r. pe_ExecutionID r \<in> ?S) (apply_where ?p ?f ?rows))"
      by (auto dest: sql_find_Inr)
    then have "?S \<subseteq> pe_ExecutionID ` set (apply_where ?p ?f ?rows)"
      by (intro card_present) (simp_all add: ids ok)
    also have "\<dots> = pe_ExecutionID ` set ?rows" using ids by (metis list.set_map)
    finally show ?thesis .
  next
    case False
    have "length (filter (\<lambda>r. ?p r \<and> ?f r \<noteq> r) ?rows) \<le> length (filter (\<lambda>r. pe_ExecutionID r \<in> ?S) ?rows)"
      by (simp add: length_filter_conv_card) (rule card_mono, auto)
    with False n(1) have "card ?S \<le> length (filter (\<lambda>r. pe_ExecutionID r \<in> ?S) ?rows)"
      by (simp add: affected_def)
    then show ?thesis by (intro card_present) (simp_all add: ok)
  qed
qed

lemma update_groups_present:
  assumes "distinct (map pe_ExecutionID (t_execs (tabs w)))"
    and "update_groups records ss w = (Inr (), w')" and "s \<in> set ss"
  shows "set (group_ids records s) \<subseteq> pe_ExecutionID ` set (t_execs (tabs w))"
  using assms
proof (induction ss arbitrary: w)
  case Nil
  then show ?case by simp
next
  case (Cons x ss)
  then obtain w1 where 1: "update_group records x w = (Inr (), w1)"
    and 2: "update_groups records ss w1 = (Inr (), w')"
    by (auto simp: io_then_Inr)
  have ids: "map pe_ExecutionID (t_execs (tabs w1)) = map pe_ExecutionID (t_execs (tabs w))"
    using update_group_Inr [OF 1] by (simp add: apply_where_def write_status_def)
  then have "pe_ExecutionID ` set (t_execs (tabs w1)) = pe_ExecutionID ` set (t_execs (tabs w))"
    by (metis list.set_map)
  with Cons.IH [OF _ 2] Cons.prems ids update_group_present [OF _ 1] show ?case by auto
qed

lemma BatchUpdateStatus_present:
  assumes "tables_ok (tabs w)" and "ExecutionRepository_BatchUpdateStatus records w = (Inr (), w')"
    and "r \<in> set records" and "er_ExecutionStatus r \<noteq> StatusWait"
  shows "er_ExecutionID r \<in> pe_ExecutionID ` set (t_execs (tabs w))"
proof -
  have d: "distinct (map pe_ExecutionID (t_execs (tabs w)))"
    using assms(1) by (simp add: tables_ok_def keyed_ok_def)
  from assms(2,3) have run: "update_groups records (map_order (mord w) (grouped_statuses records)) w = (Inr (), w')"
    by (auto simp: ExecutionRepository_BatchUpdateStatus_def io_bind_Inr io_world_Inr split: if_splits)
  have "er_ExecutionStatus r \<in> set (grouped_statuses records)"
    using assms(3,4) by (auto simp: grouped_statuses_def)
  with update_groups_present [OF d run] have
    "set (group_ids records (er_ExecutionStatus r)) \<subseteq> pe_ExecutionID ` set (t_execs (tabs w))" by simp
  moreover have "er_ExecutionID r \<in> set (group_ids records (er_ExecutionStatus r))"
    using assms(3) by (auto simp: group_ids_def)
  ultimately show ?thesis by auto
qed

text \<open>
  \<open>Save\<close> writes the record's status and times to the row that is still WAIT, leaves a row that has
  moved on as it is, and fails when there is no row.
\<close>

lemma Save_Inr:
  assumes "ExecutionRepository_Save r w = (Inr (), w')"
  shows "tabs w' = (tabs w)\<lparr>t_execs := apply_where
      (\<lambda>p. pe_ExecutionID p = er_ExecutionID r \<and> pe_ExecutionStatus p = StatusWait)
      (\<lambda>p. p\<lparr>pe_ExecutionStatus := er_ExecutionStatus r, pe_ExecuteAt := er_ExecuteAt r,
             pe_FinishAt := er_FinishAt r\<rparr>) (t_execs (tabs w))\<rparr>
    \<and> (\<exists>p \<in> set (t_execs (tabs w)). pe_ExecutionID p = er_ExecutionID r)"
proof -
  let ?p = "\<lambda>p. pe_ExecutionID p = er_ExecutionID r \<and> pe_ExecutionStatus p = StatusWait"
  let ?f = "\<lambda>p. p\<lparr>pe_ExecutionStatus := er_ExecutionStatus r, pe_ExecuteAt := er_ExecuteAt r,
             pe_FinishAt := er_FinishAt r\<rparr>"
  from assms obtain n w1 where up: "sql_update_execs ?p ?f w = (Inr n, w1)"
    and rest: "if n = 0 then \<exists>q. sql_first t_execs pe_ExecutionID (\<lambda>t p. pe_ExecutionID p = er_ExecutionID r) w1
        = (Inr q, w') else w' = w1"
    unfolding ExecutionRepository_Save_def
    by (auto simp: io_bind_Inr io_wrap_Inr io_return_Inr io_fail_Inr io_try_Inr case_sum_Inr
        split: if_splits)
  have t: "tabs w1 = (tabs w)\<lparr>t_execs := apply_where ?p ?f (t_execs (tabs w))\<rparr>"
      "n = affected ?p ?f (t_execs (tabs w))"
    using sql_update_execs_Inr [OF up] by simp_all
  show ?thesis
  proof (cases "n = 0")
    case True
    with rest obtain q where q: "sql_first t_execs pe_ExecutionID
        (\<lambda>t p. pe_ExecutionID p = er_ExecutionID r) w1 = (Inr q, w')" by auto
    from sql_first_Inr [OF q] t show ?thesis by (auto simp: apply_where_def split: if_splits)
  next
    case False
    with t(2) have "filter (\<lambda>p. ?p p \<and> ?f p \<noteq> p) (t_execs (tabs w)) \<noteq> []" by (auto simp: affected_def)
    then obtain p where "p \<in> set (t_execs (tabs w))" "?p p" by (auto simp: filter_empty_conv)
    with rest t False show ?thesis by auto
  qed
qed

end
