(* ===== verification/Outbox_Repository.thy ===== *)
theory Outbox_Repository
  imports Execution_Repository
begin

text \<open>
  The MySQL repository of outbox messages (\<open>persistence/mysql/outbox_repository.go\<close>): idempotent
  insertion, claiming under a lease, and the conditional updates that only the holder of the lease
  (or, with the empty token, the fast path on a message nobody has claimed) can make.
\<close>

subsection \<open>The operations\<close>

definition sql_insert_outbox_one :: "OutboxMessagePO \<Rightarrow> OutboxMessagePO io" where
  "sql_insert_outbox_one row =
     io_bind (sql_insert_outbox True [row]) (\<lambda>rows. io_return (case rows of [] \<Rightarrow> row | r # _ \<Rightarrow> r))"

definition OutboxRepository_Add :: "OutboxMessage \<Rightarrow> OutboxMessage io" where
  "OutboxRepository_Add message =
     io_bind (io_wrap ''insert dispatch_outbox: '' (sql_insert_outbox_one (FromOutboxMessage message)))
       (\<lambda>row. io_bind (io_wrap ''select idempotent dispatch_outbox: ''
                 (sql_first t_outbox po_OutboxID
                    (\<lambda>t r. (po_OutboxID row \<noteq> 0 \<longrightarrow> po_OutboxID r = po_OutboxID row)
                           \<and> po_ExecutionID r = om_ExecutionID message)))
                 (\<lambda>row'. io_return (OutboxMessage_ToEntity row')))"

fun copy_messages ::
  "(int64 \<rightharpoonup> OutboxMessagePO) \<Rightarrow> OutboxMessage list \<Rightarrow> goerr + OutboxMessage list" where
  "copy_messages byExecutionID [] = Inr []"
| "copy_messages byExecutionID (m # ms) =
     (case byExecutionID (om_ExecutionID m) of
        None \<Rightarrow> Inl (ErrorsNew (''select idempotent dispatch_outbox batch: execution_id=''
                               @ FormatInt (om_ExecutionID m) @ '' missing''))
      | Some row \<Rightarrow>
          (case copy_messages byExecutionID ms of
             Inl e \<Rightarrow> Inl e
           | Inr ms' \<Rightarrow> Inr (OutboxMessage_ToEntity row # ms')))"

definition by_execution_id :: "OutboxMessagePO list \<Rightarrow> (int64 \<rightharpoonup> OutboxMessagePO)" where
  "by_execution_id persisted = fold (\<lambda>p m. m(po_ExecutionID p \<mapsto> p)) persisted Map.empty"

definition OutboxRepository_BatchAdd :: "OutboxMessage list \<Rightarrow> OutboxMessage list io" where
  "OutboxRepository_BatchAdd messages =
     (if messages = [] then io_return []
      else
        io_bind (io_wrap ''batch insert dispatch_outbox: ''
               (in_batches (sql_insert_outbox True) (chunks 200 (map FromOutboxMessage messages))))
          (\<lambda>_. io_bind (io_wrap ''select idempotent dispatch_outbox batch: ''
                  (sql_find t_outbox (\<lambda>t r. po_ExecutionID r \<in> set (map om_ExecutionID messages))))
                  (\<lambda>persisted. io_of (copy_messages (by_execution_id persisted) messages))))"

text \<open>\<open>rand\<close> is what \<open>rand.Read\<close> of 16 bytes yields.\<close>

definition newLeaseToken :: "goerr + byte list \<Rightarrow> goerr + string" where
  "newLeaseToken rand =
     (case rand of
        Inl e \<Rightarrow> Inl (wrap_prefix ''generate outbox lease token: '' e)
      | Inr random \<Rightarrow> Inr (hex_encode random))"

text \<open>The WHERE clause of the claim.\<close>

definition claimable :: "gotime \<Rightarrow> OutboxMessagePO \<Rightarrow> bool" where
  "claimable now r \<longleftrightarrow>
     (po_State r = OutboxPending \<and> po_AvailableAt r \<le> now) \<or>
     (po_State r = OutboxProcessing \<and>
        (case po_LeaseUntil r of None \<Rightarrow> False | Some l \<Rightarrow> l \<le> now))"

definition lease_row :: "gotime \<Rightarrow> string \<Rightarrow> OutboxMessagePO \<Rightarrow> OutboxMessagePO" where
  "lease_row leaseUntil leaseToken r =
     r\<lparr>po_State := OutboxProcessing, po_LeaseUntil := Some leaseUntil, po_LeaseToken := leaseToken,
       po_Attempts := po_Attempts r + 1\<rparr>"

text \<open>
  \<open>locked\<close> are the outbox rows other transactions hold locks on, which SKIP LOCKED passes over.
\<close>

definition sql_select_claimable ::
  "(int64 \<Rightarrow> bool) \<Rightarrow> int \<Rightarrow> gotime \<Rightarrow> OutboxMessagePO list io" where
  "sql_select_claimable locked limit now = sql (\<lambda>w.
     Inr (take (nat limit) (sort_key po_OutboxID
            (filter (\<lambda>r. claimable now r \<and> \<not> locked (po_OutboxID r)) (t_outbox (tabs w)))),
          tabs w))"

definition claim_tx ::
  "(int64 \<Rightarrow> bool) \<Rightarrow> string \<Rightarrow> int \<Rightarrow> gotime \<Rightarrow> gotime \<Rightarrow> OutboxMessage list io" where
  "claim_tx locked leaseToken limit now leaseUntil =
     io_bind (io_wrap ''select claimable dispatch_outbox: '' (sql_select_claimable locked limit now))
       (\<lambda>rows. if rows = [] then io_return []
          else io_bind (io_wrap ''lease dispatch_outbox: ''
                 (sql_update_outbox (\<lambda>t r. po_OutboxID r \<in> set (map po_OutboxID rows))
                    (lease_row leaseUntil leaseToken)))
                 (\<lambda>_. io_return (map (\<lambda>r. OutboxMessage_ToEntity (lease_row leaseUntil leaseToken r)) rows)))"

definition OutboxRepository_ClaimPending ::
  "(int64 \<Rightarrow> bool) \<Rightarrow> goerr + byte list \<Rightarrow> int \<Rightarrow> gotime \<Rightarrow> gotime \<Rightarrow> OutboxMessage list io" where
  "OutboxRepository_ClaimPending locked rand limit now leaseUntil =
     (let limit' = (if limit \<le> 0 then 100 else limit) in
      case newLeaseToken rand of
        Inl e \<Rightarrow> io_fail e
      | Inr leaseToken \<Rightarrow> tx_Do (claim_tx locked leaseToken limit' now leaseUntil))"

text \<open>The condition of the conditional updates.\<close>

definition holds_lease :: "string \<Rightarrow> tables \<Rightarrow> OutboxMessagePO \<Rightarrow> bool" where
  "holds_lease leaseToken t r \<longleftrightarrow>
     (if leaseToken = '''' then po_State r = OutboxPending
      else po_State r = OutboxProcessing \<and> t_coll t (po_LeaseToken r) = t_coll t leaseToken)"

definition updateByExecutionIDs ::
  "int64 list \<Rightarrow> string \<Rightarrow> (OutboxMessagePO \<Rightarrow> OutboxMessagePO) \<Rightarrow> unit io" where
  "updateByExecutionIDs executionIDs leaseToken updates =
     (if executionIDs = [] then io_return ()
      else io_bind (io_wrap ''update dispatch_outbox: ''
             (sql_update_outbox
                (\<lambda>t r. po_ExecutionID r \<in> set executionIDs \<and> holds_lease leaseToken t r) updates))
             (\<lambda>rowsAffected.
                if rowsAffected \<noteq> int (length (uniqueInt64s executionIDs))
                then io_fail (ErrorsNew ''update dispatch_outbox: lease lost or state changed'')
                else io_return ()))"

definition truncateOutboxError :: "string \<Rightarrow> string" where
  "truncateOutboxError message =
     (if length message \<le> 1024 then message else take 1024 message)"

definition published_row :: "gotime \<Rightarrow> OutboxMessagePO \<Rightarrow> OutboxMessagePO" where
  "published_row publishedAt r =
     r\<lparr>po_State := OutboxPublished, po_PublishedAt := Some publishedAt, po_LeaseUntil := None,
       po_LeaseToken := '''', po_LastError := ''''\<rparr>"

definition retry_row :: "gotime \<Rightarrow> string \<Rightarrow> OutboxMessagePO \<Rightarrow> OutboxMessagePO" where
  "retry_row availableAt lastError r =
     r\<lparr>po_State := OutboxPending, po_AvailableAt := availableAt, po_LeaseUntil := None,
       po_LeaseToken := '''', po_LastError := truncateOutboxError lastError\<rparr>"

definition dead_row :: "string \<Rightarrow> OutboxMessagePO \<Rightarrow> OutboxMessagePO" where
  "dead_row lastError r =
     r\<lparr>po_State := OutboxDead, po_LeaseUntil := None, po_LeaseToken := '''',
       po_LastError := truncateOutboxError lastError\<rparr>"

definition OutboxRepository_MarkPublished :: "int64 list \<Rightarrow> string \<Rightarrow> gotime \<Rightarrow> unit io" where
  "OutboxRepository_MarkPublished executionIDs leaseToken publishedAt =
     updateByExecutionIDs executionIDs leaseToken (published_row publishedAt)"

definition OutboxRepository_MarkRetry :: "int64 list \<Rightarrow> string \<Rightarrow> gotime \<Rightarrow> string \<Rightarrow> unit io" where
  "OutboxRepository_MarkRetry executionIDs leaseToken availableAt lastError =
     updateByExecutionIDs executionIDs leaseToken (retry_row availableAt lastError)"

definition OutboxRepository_MarkDead :: "int64 list \<Rightarrow> string \<Rightarrow> string \<Rightarrow> unit io" where
  "OutboxRepository_MarkDead executionIDs leaseToken lastError =
     updateByExecutionIDs executionIDs leaseToken (dead_row lastError)"

lemmas row_defs = lease_row_def published_row_def retry_row_def dead_row_def
lemmas mark_defs = OutboxRepository_MarkPublished_def OutboxRepository_MarkRetry_def
  OutboxRepository_MarkDead_def

lemma length_truncateOutboxError: "length (truncateOutboxError m) \<le> 1024"
  by (simp add: truncateOutboxError_def)

lemma claimable_state: "claimable now r \<Longrightarrow> po_State r = OutboxPending \<or> po_State r = OutboxProcessing"
  by (auto simp: claimable_def)

lemma holds_lease_state: "holds_lease tok t r \<Longrightarrow> po_State r = OutboxPending \<or> po_State r = OutboxProcessing"
  by (auto simp: holds_lease_def split: if_splits)

subsection \<open>Messages are never lost and a settled message never changes\<close>

definition settled :: "OutboxState \<Rightarrow> bool" where
  "settled s \<longleftrightarrow> s = OutboxPublished \<or> s = OutboxDead"

definition outbox_adv :: "OutboxMessagePO \<Rightarrow> OutboxMessagePO \<Rightarrow> bool" where
  "outbox_adv r r' \<longleftrightarrow>
     po_OutboxID r' = po_OutboxID r \<and> po_ExecutionID r' = po_ExecutionID r \<and>
     po_CaseID r' = po_CaseID r \<and> po_CaseName r' = po_CaseName r \<and> po_Version r' = po_Version r \<and>
     po_CreatedAt r' = po_CreatedAt r \<and> po_Attempts r \<le> po_Attempts r' \<and>
     (settled (po_State r) \<longrightarrow> r' = r)"

definition outbox_advance :: "tables \<Rightarrow> tables \<Rightarrow> bool" where
  "outbox_advance t t' \<longleftrightarrow>
     keeps_ok t t' \<and>
     (tables_ok t \<longrightarrow> (\<forall>r \<in> set (t_outbox t). \<exists>r' \<in> set (t_outbox t'). outbox_adv r r'))"

lemma outbox_adv_refl [simp]: "outbox_adv r r"
  by (simp add: outbox_adv_def)

lemma outbox_adv_trans: "outbox_adv a b \<Longrightarrow> outbox_adv b c \<Longrightarrow> outbox_adv a c"
  by (auto simp: outbox_adv_def)

lemma outbox_advance_trans: "outbox_advance a b \<Longrightarrow> outbox_advance b c \<Longrightarrow> outbox_advance a c"
  unfolding outbox_advance_def keeps_ok_def by (metis outbox_adv_trans)

lemma outbox_advance_superset:
  "keeps_ok t t' \<Longrightarrow> set (t_outbox t) \<subseteq> set (t_outbox t') \<Longrightarrow> outbox_advance t t'"
  by (force simp: outbox_advance_def)

interpretation oadv: table_relation outbox_advance
proof (unfold_locales, goal_cases)
  case (1 t)
  show ?case by (rule outbox_advance_superset) (auto intro: ok.refl)
next
  case (2 a b c)
  then show ?case by (rule outbox_advance_trans)
next
  case (3 t i j)
  show ?case by (rule outbox_advance_superset) (auto intro: ok.counters)
qed

lemma outbox_advance_apply:
  assumes "\<And>r. tables_ok t \<Longrightarrow> r \<in> set (t_outbox t) \<Longrightarrow> p r \<Longrightarrow> outbox_adv r (f r)"
    and "keeps_ok t (t\<lparr>t_outbox := apply_where p f (t_outbox t)\<rparr>)"
  shows "outbox_advance t (t\<lparr>t_outbox := apply_where p f (t_outbox t)\<rparr>)"
  unfolding outbox_advance_def
proof (intro conjI impI ballI)
  fix r assume ok: "tables_ok t" and r: "r \<in> set (t_outbox t)"
  then have "(if p r then f r else r) \<in> set (apply_where p f (t_outbox t))"
    unfolding apply_where_def set_map by (intro imageI)
  moreover have "outbox_adv r (if p r then f r else r)" using assms(1) [OF ok r] by simp
  ultimately show "\<exists>r' \<in> set (t_outbox (t\<lparr>t_outbox := apply_where p f (t_outbox t)\<rparr>)). outbox_adv r r'"
    by auto
qed (rule assms(2))

text \<open>The same for the statement, with GORM's time stamp.\<close>

lemma keeps_ok_apply_outbox:
  assumes "\<And>r. po_OutboxID (f r) = po_OutboxID r \<and> po_ExecutionID (f r) = po_ExecutionID r"
  shows "keeps_ok t (t\<lparr>t_outbox := apply_where p f (t_outbox t)\<rparr>)"
  using assms
  by (auto simp: keeps_ok_def tables_ok_def outbox_clash_def intro!: okt.apply_where_ok split: if_splits)

lemma oadv_update_outbox:
  assumes run: "sql_update_outbox p f w = (x, w')"
    and adv: "\<And>r. tables_ok (tabs w) \<Longrightarrow> r \<in> set (t_outbox (tabs w)) \<Longrightarrow> p (tabs w) r \<Longrightarrow>
      \<not> settled (po_State r)"
    and keys: "\<And>r. po_OutboxID (f r) = po_OutboxID r \<and> po_ExecutionID (f r) = po_ExecutionID r \<and>
      po_CaseID (f r) = po_CaseID r \<and> po_CaseName (f r) = po_CaseName r \<and>
      po_Version (f r) = po_Version r \<and> po_CreatedAt (f r) = po_CreatedAt r \<and>
      po_Attempts r \<le> po_Attempts (f r)"
  shows "within outbox_advance w w'"
  using run unfolding sql_update_outbox_def
proof (rule oadv.within_statement)
  fix w1 :: world and y t assume "tabs w1 = tabs w"
    and "(let f' = \<lambda>r. (f r)\<lparr>po_UpdatedAt := clock w1\<rparr> in
       Inr (affected (p (tabs w1)) f' (t_outbox (tabs w1)),
            (tabs w1)\<lparr>t_outbox := apply_where (p (tabs w1)) f' (t_outbox (tabs w1))\<rparr>)) = Inr (y, t)"
  then have t: "t = (tabs w)\<lparr>t_outbox := apply_where (p (tabs w))
      (\<lambda>r. (f r)\<lparr>po_UpdatedAt := clock w1\<rparr>) (t_outbox (tabs w))\<rparr>" by (simp add: Let_def)
  show "outbox_advance (tabs w) t"
    unfolding t
    by (rule outbox_advance_apply)
      (use adv keys in \<open>auto simp: outbox_adv_def intro!: keeps_ok_apply_outbox\<close>)
qed

lemma oadv_insert_execs: "guarantees outbox_advance (sql_insert_execs dn rows)"
proof (rule guaranteesI)
  fix w r w' assume "sql_insert_execs dn rows w = (r, w')"
  then show "within outbox_advance w w'"
    unfolding sql_insert_execs_def
    by (rule oadv.within_statement)
      (auto simp: keeps_ok_def tables_ok_def split: sum.splits prod.splits
        intro!: outbox_advance_superset dest!: ekt.insert_rows_frame)
qed

lemma oadv_insert_outbox: "guarantees outbox_advance (sql_insert_outbox dn rows)"
proof (rule guaranteesI)
  fix w r w' assume "sql_insert_outbox dn rows w = (r, w')"
  then show "within outbox_advance w w'"
    unfolding sql_insert_outbox_def
    by (rule oadv.within_statement)
      (auto simp: keeps_ok_def tables_ok_def split: sum.splits prod.splits
        intro!: outbox_advance_superset dest!: okt.insert_rows_frame)
qed

lemma oadv_update_execs:
  assumes "\<And>r. p r \<Longrightarrow> pe_ExecutionID (f r) = pe_ExecutionID r \<and> pe_RequestID (f r) = pe_RequestID r
    \<and> pe_CaseID (f r) = pe_CaseID r"
  shows "guarantees outbox_advance (sql_update_execs p f)"
  unfolding sql_update_execs_def
  by (rule oadv.statement)
    (use assms in \<open>auto simp: keeps_ok_def tables_ok_def exec_clash_iff
      intro!: outbox_advance_superset ekt.apply_where_ok split: if_splits\<close>)

lemmas oadv_pieces = oadv.pieces oadv_insert_execs oadv_insert_outbox

lemma oadv_updateByExecutionIDs:
  assumes "\<And>r. po_OutboxID (f r) = po_OutboxID r \<and> po_ExecutionID (f r) = po_ExecutionID r \<and>
      po_CaseID (f r) = po_CaseID r \<and> po_CaseName (f r) = po_CaseName r \<and>
      po_Version (f r) = po_Version r \<and> po_CreatedAt (f r) = po_CreatedAt r \<and>
      po_Attempts r \<le> po_Attempts (f r)"
  shows "guarantees outbox_advance (updateByExecutionIDs ids tok f)"
proof -
  have "guarantees outbox_advance (sql_update_outbox
      (\<lambda>t r. po_ExecutionID r \<in> set ids \<and> holds_lease tok t r) f)"
    by (rule guaranteesI, erule oadv_update_outbox)
      (use assms in \<open>auto dest: holds_lease_state simp: settled_def\<close>)
  then show ?thesis
    unfolding updateByExecutionIDs_def by (intro oadv_pieces)
qed

lemma oadv_MarkPublished: "guarantees outbox_advance (OutboxRepository_MarkPublished ids tok at)"
  and oadv_MarkRetry: "guarantees outbox_advance (OutboxRepository_MarkRetry ids tok av e)"
  and oadv_MarkDead: "guarantees outbox_advance (OutboxRepository_MarkDead ids tok e)"
  unfolding mark_defs by (auto intro!: oadv_updateByExecutionIDs simp: row_defs)

lemma oadv_Outbox_Add: "guarantees outbox_advance (OutboxRepository_Add m)"
  unfolding OutboxRepository_Add_def sql_insert_outbox_one_def by (intro oadv_pieces)

lemma oadv_Outbox_BatchAdd: "guarantees outbox_advance (OutboxRepository_BatchAdd ms)"
  unfolding OutboxRepository_BatchAdd_def by (intro oadv_pieces)

lemma sql_select_claimable_Inr:
  "sql_select_claimable locked limit now w = (Inr rows, w') \<Longrightarrow>
     rows = take (nat limit) (sort_key po_OutboxID
       (filter (\<lambda>r. claimable now r \<and> \<not> locked (po_OutboxID r)) (t_outbox (tabs w)))) \<and>
     tabs w' = tabs w \<and> clock w' = clock w"
  by (auto simp: sql_select_claimable_def sql_Inr dest: next_outcome_sel)

lemma oadv_select_claimable: "guarantees outbox_advance (sql_select_claimable locked limit now)"
  unfolding sql_select_claimable_def by (rule oadv.statement) (auto simp: oadv.refl)

lemma claimed_rows:
  assumes "rows = take n (sort_key po_OutboxID (filter (\<lambda>r. claimable now r \<and> \<not> locked (po_OutboxID r)) tab))"
  shows "\<forall>r \<in> set rows. r \<in> set tab \<and> claimable now r \<and> \<not> locked (po_OutboxID r)"
  using assms by (auto dest!: in_set_takeD)

lemma oadv_claim_tx: "guarantees outbox_advance (claim_tx locked tok limit now leaseUntil)"
proof (rule guaranteesI)
  fix w r w' assume w: "rely outbox_advance w" and run: "claim_tx locked tok limit now leaseUntil w = (r, w')"
  let ?sel = "io_wrap ''select claimable dispatch_outbox: '' (sql_select_claimable locked limit now)"
  have sel: "guarantees outbox_advance ?sel"
    by (intro oadv.wrap oadv_select_claimable)
  show "within outbox_advance w w'"
    using run unfolding claim_tx_def
  proof (rule oadv.within_bind)
    fix a w1 assume "?sel w = (a, w1)"
    then show "within outbox_advance w w1" by (rule guaranteesD [OF sel w])
  next
    fix rows w1 assume "?sel w = (Inr rows, w1)"
      and rest: "(if rows = [] then io_return []
        else io_bind (io_wrap ''lease dispatch_outbox: ''
               (sql_update_outbox (\<lambda>t r. po_OutboxID r \<in> set (map po_OutboxID rows))
                 (lease_row leaseUntil tok)))
               (\<lambda>_. io_return (map (\<lambda>r. OutboxMessage_ToEntity (lease_row leaseUntil tok r)) rows))) w1 = (r, w')"
    then have s: "sql_select_claimable locked limit now w = (Inr rows, w1)" by (simp add: io_wrap_Inr)
    have rows: "\<forall>x \<in> set rows. x \<in> set (t_outbox (tabs w1)) \<and> claimable now x"
      using sql_select_claimable_Inr [OF s] claimed_rows by metis
    show "within outbox_advance w1 w'"
    proof (cases "rows = []")
      case True
      with rest show ?thesis by (simp add: io_return_def oadv.within_same)
    next
      case False
      with rest obtain y where "sql_update_outbox (\<lambda>t r. po_OutboxID r \<in> set (map po_OutboxID rows))
          (lease_row leaseUntil tok) w1 = (y, w')"
        by (auto simp: io_bind_def io_wrap_def io_return_def split: prod.splits sum.splits)
      then show ?thesis
      proof (rule oadv_update_outbox)
        fix m assume "tables_ok (tabs w1)" "m \<in> set (t_outbox (tabs w1))"
          "po_OutboxID m \<in> set (map po_OutboxID rows)"
        with rows have "m \<in> set rows" by (auto dest: tables_ok_outbox_unique)
        with rows show "\<not> settled (po_State m)" by (auto dest!: claimable_state simp: settled_def)
      qed (simp add: lease_row_def)
    qed
  qed
qed

lemma oadv_ClaimPending:
  "guarantees outbox_advance (OutboxRepository_ClaimPending locked rand limit now leaseUntil)"
  unfolding OutboxRepository_ClaimPending_def Let_def
  by (intro oadv_pieces oadv_claim_tx)

lemma oadv_execution_repository:
  "guarantees outbox_advance (ExecutionRepository_Add r)"
  "guarantees outbox_advance (ExecutionRepository_BatchAdd rs)"
  "guarantees outbox_advance (ExecutionRepository_FindByID i)"
  "guarantees outbox_advance (ExecutionRepository_Save r)"
proof -
  show "guarantees outbox_advance (ExecutionRepository_Add r)"
    unfolding ExecutionRepository_Add_def sql_insert_exec_def by (intro oadv_pieces)
  show "guarantees outbox_advance (ExecutionRepository_BatchAdd rs)"
    unfolding ExecutionRepository_BatchAdd_def Let_def by (intro oadv_pieces)
  show "guarantees outbox_advance (ExecutionRepository_FindByID i)"
    unfolding ExecutionRepository_FindByID_def by (intro oadv_pieces)
  show "guarantees outbox_advance (ExecutionRepository_Save r)"
    unfolding ExecutionRepository_Save_def by (intro oadv_pieces oadv_update_execs) simp
qed

lemma oadv_BatchUpdateStatus: "guarantees outbox_advance (ExecutionRepository_BatchUpdateStatus rs)"
proof -
  have g: "guarantees outbox_advance (update_group rs s)" for s
    unfolding update_group_def Let_def by (intro oadv_pieces oadv_update_execs) simp
  have "guarantees outbox_advance (update_groups rs ss)" for ss
    by (induction ss) (auto intro!: oadv_pieces g)
  then show ?thesis
    unfolding ExecutionRepository_BatchUpdateStatus_def by (intro oadv_pieces)
qed

lemmas oadv_operations = oadv_execution_repository oadv_BatchUpdateStatus oadv_Outbox_Add
  oadv_Outbox_BatchAdd oadv_MarkPublished oadv_MarkRetry oadv_MarkDead oadv_ClaimPending

lemma adv_outbox_repository:
  "guarantees exec_advance (OutboxRepository_Add m)"
  "guarantees exec_advance (OutboxRepository_BatchAdd ms)"
  "guarantees exec_advance (OutboxRepository_ClaimPending locked rand limit now leaseUntil)"
  "guarantees exec_advance (OutboxRepository_MarkPublished ids tok at)"
  "guarantees exec_advance (OutboxRepository_MarkRetry ids tok av e)"
  "guarantees exec_advance (OutboxRepository_MarkDead ids tok e)"
proof -
  have up: "guarantees exec_advance (updateByExecutionIDs ids tok f)" for ids tok f
    unfolding updateByExecutionIDs_def by (intro adv_pieces)
  show "guarantees exec_advance (OutboxRepository_Add m)"
    unfolding OutboxRepository_Add_def sql_insert_outbox_one_def by (intro adv_pieces)
  show "guarantees exec_advance (OutboxRepository_BatchAdd ms)"
    unfolding OutboxRepository_BatchAdd_def by (intro adv_pieces)
  have "guarantees exec_advance (sql_select_claimable locked l now)" for l
    unfolding sql_select_claimable_def by (rule adv.statement) (auto simp: adv.refl)
  then show "guarantees exec_advance (OutboxRepository_ClaimPending locked rand limit now leaseUntil)"
    unfolding OutboxRepository_ClaimPending_def claim_tx_def Let_def by (intro adv_pieces)
  show "guarantees exec_advance (OutboxRepository_MarkPublished ids tok at)"
    "guarantees exec_advance (OutboxRepository_MarkRetry ids tok av e)"
    "guarantees exec_advance (OutboxRepository_MarkDead ids tok e)"
    unfolding mark_defs by (rule up)+
qed

lemmas adv_operations = adv_execution_repository adv_outbox_repository

text \<open>An operation that advances the outbox keeps the tables in order.\<close>

lemma oadv_imp_keeps_ok: "within outbox_advance w w' \<Longrightarrow> within keeps_ok w w'"
  by (simp add: within_def outbox_advance_def)

subsection \<open>What a conditional update does\<close>

lemma sql_update_outbox_Inr:
  "sql_update_outbox p f w = (Inr n, w') \<Longrightarrow>
     n = affected (p (tabs w)) (\<lambda>r. (f r)\<lparr>po_UpdatedAt := clock w\<rparr>) (t_outbox (tabs w)) \<and>
     tabs w' = (tabs w)\<lparr>t_outbox := apply_where (p (tabs w))
       (\<lambda>r. (f r)\<lparr>po_UpdatedAt := clock w\<rparr>) (t_outbox (tabs w))\<rparr> \<and> clock w' = clock w"
  by (auto simp: sql_update_outbox_def sql_Inr Let_def dest: next_outcome_sel)

text \<open>
  It succeeds only when every message it names is held under the given token, and then it changes
  these messages and no other.
\<close>

lemma updateByExecutionIDs_Inr:
  assumes ok: "tables_ok (tabs w)" and run: "updateByExecutionIDs ids tok f w = (Inr (), w')"
  shows "(\<forall>i \<in> set ids. \<exists>r \<in> set (t_outbox (tabs w)). po_ExecutionID r = i \<and> holds_lease tok (tabs w) r) \<and>
    tabs w' = (tabs w)\<lparr>t_outbox := apply_where
      (\<lambda>r. po_ExecutionID r \<in> set ids \<and> holds_lease tok (tabs w) r)
      (\<lambda>r. (f r)\<lparr>po_UpdatedAt := clock w\<rparr>) (t_outbox (tabs w))\<rparr>"
proof (cases "ids = []")
  case True
  with run show ?thesis by (simp add: updateByExecutionIDs_def io_Inr apply_where_def map_idI)
next
  case False
  let ?p = "\<lambda>t r. po_ExecutionID r \<in> set ids \<and> holds_lease tok t r"
  let ?f = "\<lambda>r. (f r)\<lparr>po_UpdatedAt := clock w\<rparr>"
  let ?held = "filter (holds_lease tok (tabs w)) (t_outbox (tabs w))"
  from run False obtain w1 where up: "sql_update_outbox ?p f w = (Inr (int (card (set ids))), w1)"
    and w': "w' = w1"
    unfolding updateByExecutionIDs_def
    by (auto simp: io_Inr length_uniqueInt64s split: if_splits)
  have "affected (?p (tabs w)) ?f (t_outbox (tabs w))
      \<le> int (length (filter (\<lambda>r. po_ExecutionID r \<in> set ids) ?held))"
    unfolding affected_def filter_filter
    by (simp add: length_filter_conv_card) (rule card_mono, auto)
  with sql_update_outbox_Inr [OF up] have
    "card (set ids) \<le> length (filter (\<lambda>r. po_ExecutionID r \<in> set ids) ?held)" by linarith
  moreover have "distinct (map po_ExecutionID ?held)"
    using tables_ok_distinct_exec [OF ok] by (rule distinct_map_filter)
  ultimately have "set ids \<subseteq> po_ExecutionID ` set ?held" by (intro card_present) auto
  with sql_update_outbox_Inr [OF up] w' show ?thesis by auto
qed

text \<open>A message that is not held under the token makes the whole update fail.\<close>

lemma updateByExecutionIDs_fenced:
  assumes "tables_ok (tabs w)" and "i \<in> set ids"
    and "\<forall>r \<in> set (t_outbox (tabs w)). po_ExecutionID r = i \<longrightarrow> \<not> holds_lease tok (tabs w) r"
  obtains e w' where "updateByExecutionIDs ids tok f w = (Inl e, w')"
proof (cases "updateByExecutionIDs ids tok f w")
  case (Pair r w')
  then show ?thesis
  proof (cases r)
    case (Inl e)
    with Pair that show ?thesis by simp
  next
    case (Inr u)
    with Pair have "updateByExecutionIDs ids tok f w = (Inr (), w')" by simp
    from updateByExecutionIDs_Inr [OF assms(1) this] assms(2,3) show ?thesis by blast
  qed
qed

text \<open>After it the named messages are as the update says.\<close>

lemma updateByExecutionIDs_state:
  assumes "tables_ok (tabs w)" and "updateByExecutionIDs ids tok f w = (Inr (), w')" and "i \<in> set ids"
    and "\<And>r. po_ExecutionID (f r) = po_ExecutionID r"
  shows "\<exists>r \<in> set (t_outbox (tabs w)). holds_lease tok (tabs w) r \<and> po_ExecutionID r = i \<and>
    (f r)\<lparr>po_UpdatedAt := clock w\<rparr> \<in> set (t_outbox (tabs w'))"
proof -
  from updateByExecutionIDs_Inr [OF assms(1,2)] assms(3) obtain r where r: "r \<in> set (t_outbox (tabs w))"
    "po_ExecutionID r = i" "holds_lease tok (tabs w) r"
    and t: "tabs w' = (tabs w)\<lparr>t_outbox := apply_where
      (\<lambda>r. po_ExecutionID r \<in> set ids \<and> holds_lease tok (tabs w) r)
      (\<lambda>r. (f r)\<lparr>po_UpdatedAt := clock w\<rparr>) (t_outbox (tabs w))\<rparr>" by blast
  from r assms(3) have "(f r)\<lparr>po_UpdatedAt := clock w\<rparr> \<in> set (t_outbox (tabs w'))"
    by (auto simp: t apply_where_def image_iff intro!: bexI [of _ r])
  with r show ?thesis by blast
qed

lemma MarkPublished_state:
  "tables_ok (tabs w) \<Longrightarrow> OutboxRepository_MarkPublished ids tok at w = (Inr (), w') \<Longrightarrow> i \<in> set ids \<Longrightarrow>
     \<exists>q \<in> set (t_outbox (tabs w')). po_ExecutionID q = i \<and> po_State q = OutboxPublished"
  unfolding mark_defs by (drule (2) updateByExecutionIDs_state) (auto simp: row_defs elim!: bexI [rotated])

lemma MarkDead_state:
  "tables_ok (tabs w) \<Longrightarrow> OutboxRepository_MarkDead ids tok msg w = (Inr (), w') \<Longrightarrow> i \<in> set ids \<Longrightarrow>
     \<exists>q \<in> set (t_outbox (tabs w')). po_ExecutionID q = i \<and> po_State q = OutboxDead"
  unfolding mark_defs by (drule (2) updateByExecutionIDs_state) (auto simp: row_defs elim!: bexI [rotated])

lemma mark_execs:
  "tables_ok (tabs w) \<Longrightarrow> OutboxRepository_MarkPublished ids tok at w = (Inr (), w') \<Longrightarrow>
     t_execs (tabs w') = t_execs (tabs w) \<and> t_coll (tabs w') = t_coll (tabs w)"
  "tables_ok (tabs w) \<Longrightarrow> OutboxRepository_MarkDead ids tok msg w = (Inr (), w') \<Longrightarrow>
     t_execs (tabs w') = t_execs (tabs w) \<and> t_coll (tabs w') = t_coll (tabs w)"
  unfolding mark_defs by (drule (1) updateByExecutionIDs_Inr, simp)+

text \<open>What is inserted is what is read back.\<close>

lemma sql_insert_outbox_frame:
  assumes "sql_insert_outbox dn rows w = (Inr rows', w')"
  shows "t_execs (tabs w') = t_execs (tabs w) \<and> t_coll (tabs w') = t_coll (tabs w)"
proof -
  let ?ins = "\<lambda>w. insert_rows outbox_clash po_OutboxID (\<lambda>i r. r\<lparr>po_OutboxID := i\<rparr>) dn
      (map (stamp_outbox (clock w)) rows) (t_outbox (tabs w), t_outbox_next (tabs w))"
  from assms obtain w1 t where n: "next_outcome w = (Done, w1)" "w' = w1\<lparr>tabs := t\<rparr>"
    and s: "(case ?ins w1 of Inl e \<Rightarrow> Inl e
       | Inr (rows', ts, n) \<Rightarrow> Inr (rows', (tabs w1)\<lparr>t_outbox := ts, t_outbox_next := n\<rparr>)) = Inr (rows', t)"
    unfolding sql_insert_outbox_def sql_Inr by blast
  from s have "t_execs t = t_execs (tabs w1)" "t_coll t = t_coll (tabs w1)"
    by (cases "?ins w1"; auto)+
  with next_outcome_sel [OF n(1)] n(2) show ?thesis by simp
qed

lemma Outbox_Add_stored:
  assumes "OutboxRepository_Add m w = (Inr m', w')"
  shows "t_execs (tabs w') = t_execs (tabs w) \<and> t_coll (tabs w') = t_coll (tabs w) \<and>
    (\<exists>q \<in> set (t_outbox (tabs w')). m' = OutboxMessage_ToEntity q \<and> po_ExecutionID q = om_ExecutionID m)"
proof -
  from assms obtain row w1 q where ins: "sql_insert_outbox True [FromOutboxMessage m] w = (Inr row, w1)"
    and sel: "sql_first t_outbox po_OutboxID (\<lambda>t r. (po_OutboxID (case row of [] \<Rightarrow> FromOutboxMessage m | r # _ \<Rightarrow> r) \<noteq> 0
        \<longrightarrow> po_OutboxID r = po_OutboxID (case row of [] \<Rightarrow> FromOutboxMessage m | r # _ \<Rightarrow> r))
        \<and> po_ExecutionID r = om_ExecutionID m) w1 = (Inr q, w')" and m': "m' = OutboxMessage_ToEntity q"
    unfolding OutboxRepository_Add_def sql_insert_outbox_one_def io_Inr by blast
  have "t_execs (tabs w1) = t_execs (tabs w) \<and> t_coll (tabs w1) = t_coll (tabs w)"
    using sql_insert_outbox_frame [OF ins] .
  with sql_first_Inr [OF sel] m' show ?thesis by auto
qed

lemma in_batches_outbox_frame:
  "in_batches (sql_insert_outbox dn) cs w = (Inr rows, w') \<Longrightarrow>
     t_execs (tabs w') = t_execs (tabs w) \<and> t_coll (tabs w') = t_coll (tabs w)"
  by (induction cs arbitrary: w rows) (auto simp: io_Inr dest!: sql_insert_outbox_frame)

lemma copy_messages_Inr:
  "copy_messages f ms = Inr ms' \<Longrightarrow>
     list_all2 (\<lambda>m m'. \<exists>q. f (om_ExecutionID m) = Some q \<and> m' = OutboxMessage_ToEntity q) ms ms'"
  by (induction ms arbitrary: ms') (auto split: option.splits sum.splits)

lemma by_execution_id_Some: "by_execution_id ps c = Some p \<Longrightarrow> p \<in> set ps \<and> po_ExecutionID p = c"
proof -
  have "fold (\<lambda>p m. m(po_ExecutionID p \<mapsto> p)) ps m c = Some p \<Longrightarrow>
      p \<in> set ps \<and> po_ExecutionID p = c \<or> m c = Some p" for m
  proof (induction ps arbitrary: m)
    case (Cons a ps)
    from Cons.IH [of "m(po_ExecutionID a \<mapsto> a)"] Cons.prems
    have "p \<in> set ps \<and> po_ExecutionID p = c \<or> (m(po_ExecutionID a \<mapsto> a)) c = Some p" by simp
    then show ?case by (auto split: if_splits)
  qed simp
  then show "by_execution_id ps c = Some p \<Longrightarrow> p \<in> set ps \<and> po_ExecutionID p = c"
    by (auto simp: by_execution_id_def)
qed

lemma Outbox_BatchAdd_stored:
  assumes "OutboxRepository_BatchAdd ms w = (Inr ms', w')"
  shows "t_execs (tabs w') = t_execs (tabs w) \<and> t_coll (tabs w') = t_coll (tabs w) \<and>
    list_all2 (\<lambda>m m'. \<exists>q \<in> set (t_outbox (tabs w')). m' = OutboxMessage_ToEntity q \<and>
      po_ExecutionID q = om_ExecutionID m) ms ms'"
proof (cases "ms = []")
  case True
  with assms show ?thesis by (simp add: OutboxRepository_BatchAdd_def io_Inr)
next
  case False
  let ?p = "\<lambda>t r. po_ExecutionID r \<in> set (map om_ExecutionID ms)"
  from assms False obtain rows w1 ps where
    ins: "in_batches (sql_insert_outbox True) (chunks 200 (map FromOutboxMessage ms)) w = (Inr rows, w1)"
    and sel: "sql_find t_outbox ?p w1 = (Inr ps, w')"
    and cp: "copy_messages (by_execution_id ps) ms = Inr ms'"
    by (auto simp: OutboxRepository_BatchAdd_def io_Inr)
  have ps: "ps = filter (?p (tabs w1)) (t_outbox (tabs w1))" "tabs w' = tabs w1"
    using sql_find_Inr [OF sel] by simp_all
  have "\<exists>q \<in> set (t_outbox (tabs w')). m' = OutboxMessage_ToEntity q \<and> po_ExecutionID q = om_ExecutionID m"
    if "\<exists>q. by_execution_id ps (om_ExecutionID m) = Some q \<and> m' = OutboxMessage_ToEntity q" for m m'
    using that ps by (auto dest!: by_execution_id_Some)
  with copy_messages_Inr [OF cp] have "list_all2 (\<lambda>m m'. \<exists>q \<in> set (t_outbox (tabs w')).
      m' = OutboxMessage_ToEntity q \<and> po_ExecutionID q = om_ExecutionID m) ms ms'"
    by (elim list_all2_mono) blast
  with in_batches_outbox_frame [OF ins] ps(2) show ?thesis by simp
qed

end
