(* ===== verification/Leases.thy ===== *)
theory Leases
  imports Outbox_Repository
begin

text \<open>
  What a claim and a conditional write promise to the relays: the effect of
  \<open>OutboxRepository.ClaimPending\<close>, the lease contract (a message has at most one holder, the
  holder keeps it until the lease runs out, and nobody else can write it), and that no message
  can get stuck. The contract is an interface whose consequences are proved once; the MySQL
  repository is an instance for each of its three writes.
\<close>

subsection \<open>The effect of a claim\<close>

definition claim_limit :: "int \<Rightarrow> int" where
  "claim_limit limit = (if limit \<le> 0 then 100 else limit)"

definition claimed_rows_of :: "(int64 \<Rightarrow> bool) \<Rightarrow> int \<Rightarrow> gotime \<Rightarrow> OutboxMessagePO list \<Rightarrow> OutboxMessagePO list" where
  "claimed_rows_of locked limit now rows =
     take (nat limit) (sort_key po_OutboxID
       (filter (\<lambda>r. claimable now r \<and> \<not> locked (po_OutboxID r)) rows))"

definition leased_table :: "(OutboxMessagePO \<Rightarrow> bool) \<Rightarrow> gotime \<Rightarrow> string \<Rightarrow> gotime \<Rightarrow> tables \<Rightarrow> tables" where
  "leased_table p leaseUntil tok stamp t =
     t\<lparr>t_outbox := apply_where p (\<lambda>r. (lease_row leaseUntil tok r)\<lparr>po_UpdatedAt := stamp\<rparr>) (t_outbox t)\<rparr>"

lemma claimed_rows_ofD:
  "r \<in> set (claimed_rows_of locked limit now rows) \<Longrightarrow>
     r \<in> set rows \<and> claimable now r \<and> \<not> locked (po_OutboxID r)"
  by (auto simp: claimed_rows_of_def dest!: in_set_takeD)

lemma claimed_rows_of_sorted: "sorted (map po_OutboxID (claimed_rows_of locked limit now rows))"
  unfolding claimed_rows_of_def take_map [symmetric] by (intro sorted_wrt_take) simp

lemma length_claimed_rows_of: "int (length (claimed_rows_of locked limit now rows)) \<le> max 0 limit"
  by (simp add: claimed_rows_of_def)

lemma claim_tx_Inr:
  assumes ok: "tables_ok (tabs w)" and run: "claim_tx locked tok limit now leaseUntil w = (Inr ms, w')"
  defines "rows \<equiv> claimed_rows_of locked limit now (t_outbox (tabs w))"
  shows "ms = map (\<lambda>r. OutboxMessage_ToEntity (lease_row leaseUntil tok r)) rows \<and>
    tabs w' = leased_table (\<lambda>r. r \<in> set rows) leaseUntil tok (clock w) (tabs w)"
proof -
  let ?p = "\<lambda>r. po_OutboxID r \<in> set (map po_OutboxID rows)"
  from run obtain rows0 w1 where sel0: "sql_select_claimable locked limit now w = (Inr rows0, w1)"
    and rest0: "(if rows0 = [] then io_return []
      else io_bind (io_wrap ''lease dispatch_outbox: ''
             (sql_update_outbox (\<lambda>t r. po_OutboxID r \<in> set (map po_OutboxID rows0)) (lease_row leaseUntil tok)))
             (\<lambda>_. io_return (map (\<lambda>r. OutboxMessage_ToEntity (lease_row leaseUntil tok r)) rows0))) w1 = (Inr ms, w')"
    by (auto simp: claim_tx_def io_bind_Inr io_wrap_Inr)
  have "rows0 = rows" using sql_select_claimable_Inr [OF sel0] by (simp add: rows_def claimed_rows_of_def)
  note sel = sel0 [unfolded this] and rest = rest0 [unfolded this]
  have w1: "tabs w1 = tabs w" "clock w1 = clock w" using sql_select_claimable_Inr [OF sel] by simp_all
  show ?thesis
  proof (cases "rows = []")
    case True
    with rest w1 show ?thesis by (simp add: leased_table_def apply_where_def io_return_Inr)
  next
    case False
    with rest obtain n where up: "sql_update_outbox (\<lambda>t. ?p) (lease_row leaseUntil tok) w1 = (Inr n, w')"
      and ms: "ms = map (\<lambda>r. OutboxMessage_ToEntity (lease_row leaseUntil tok r)) rows" by (auto simp: io_Inr)
    have "?p r \<longleftrightarrow> r \<in> set rows" if "r \<in> set (t_outbox (tabs w))" for r
    proof
      assume "?p r"
      then obtain x where x: "x \<in> set rows" "po_OutboxID r = po_OutboxID x" by auto
      from x(1) have "x \<in> set (t_outbox (tabs w))" unfolding rows_def by (auto dest: claimed_rows_ofD)
      with tables_ok_outbox_unique [OF ok that this] x show "r \<in> set rows" by simp
    qed auto
    then have "tabs w' = leased_table (\<lambda>r. r \<in> set rows) leaseUntil tok (clock w) (tabs w)"
      using sql_update_outbox_Inr [OF up] w1
      by (auto simp: leased_table_def apply_where_def intro!: map_cong)
    with ms show ?thesis by simp
  qed
qed

lemma ClaimPending_Inr:
  assumes "tables_ok (tabs (interfere w))"
    and "OutboxRepository_ClaimPending locked rand limit now leaseUntil w = (Inr ms, w')"
  obtains random rows where "rand = Inr random"
    and "rows = claimed_rows_of locked (claim_limit limit) now (t_outbox (tabs (interfere w)))"
    and "ms = map (\<lambda>r. OutboxMessage_ToEntity (lease_row leaseUntil (hex_encode random) r)) rows"
    and "tabs w' = leased_table (\<lambda>r. r \<in> set rows) leaseUntil (hex_encode random) (clock w) (tabs (interfere w))"
proof -
  from assms(2) obtain random where r: "rand = Inr random"
    and tx: "tx_Do (claim_tx locked (hex_encode random) (claim_limit limit) now leaseUntil) w = (Inr ms, w')"
    by (auto simp: OutboxRepository_ClaimPending_def newLeaseToken_def Let_def claim_limit_def io_Inr
        split: sum.splits)
  from tx show ?thesis
  proof (rule tx_Do_Inr)
    fix w1 w2 assume "tabs w1 = tabs (interfere w)" "clock w1 = clock w"
      "claim_tx locked (hex_encode random) (claim_limit limit) now leaseUntil w1 = (Inr ms, w2)" "tabs w' = tabs w2"
    with claim_tx_Inr [of w1] assms(1) that [OF r] show thesis by simp
  qed
qed

subsection \<open>The lease contract\<close>

text \<open>Who holds a message, as the sort key of the token, and until when.\<close>

definition lease_of :: "tables \<Rightarrow> int64 \<Rightarrow> (string \<times> gotime option) option" where
  "lease_of t i =
     (case find (\<lambda>r. po_ExecutionID r = i) (t_outbox t) of
        None \<Rightarrow> None
      | Some r \<Rightarrow> (if po_State r = OutboxProcessing
                  then Some (t_coll t (po_LeaseToken r), po_LeaseUntil r) else None))"

lemma lease_of_row:
  assumes "tables_ok t" and "r \<in> set (t_outbox t)"
  shows "lease_of t (po_ExecutionID r) =
    (if po_State r = OutboxProcessing then Some (t_coll t (po_LeaseToken r), po_LeaseUntil r) else None)"
proof -
  have "find (\<lambda>x. po_ExecutionID x = po_ExecutionID r) (t_outbox t) \<noteq> None"
    using assms(2) by (auto simp: find_None_iff)
  then obtain x where x: "find (\<lambda>x. po_ExecutionID x = po_ExecutionID r) (t_outbox t) = Some x" by blast
  from find_SomeD [OF x] tables_ok_outbox_unique [OF assms(1) _ assms(2), of x] have "x = r" by simp
  with x show ?thesis by (simp add: lease_of_def)
qed

locale lease_store =
  fixes claim :: "'c \<Rightarrow> byte list \<Rightarrow> gotime \<Rightarrow> gotime \<Rightarrow> OutboxMessage list io"
    and settle :: "int64 list \<Rightarrow> string \<Rightarrow> unit io"
  assumes claim_leases: "tables_ok (tabs (interfere w)) \<Longrightarrow> claim c random now until w = (Inr ms, w') \<Longrightarrow>
      m \<in> set ms \<Longrightarrow> om_LeaseToken m = hex_encode random \<and>
      lease_of (tabs w') (om_ExecutionID m) = Some (t_coll (tabs w') (om_LeaseToken m), Some until)"
    and claim_free: "tables_ok (tabs (interfere w)) \<Longrightarrow> claim c random now until w = (Inr ms, w') \<Longrightarrow>
      m \<in> set ms \<Longrightarrow> lease_of (tabs (interfere w)) (om_ExecutionID m) = Some (k, u) \<Longrightarrow>
      \<exists>l. u = Some l \<and> l \<le> now"
    and write_holder: "tables_ok (tabs w) \<Longrightarrow> settle ids tok w = (Inr (), w') \<Longrightarrow> tok \<noteq> '''' \<Longrightarrow>
      i \<in> set ids \<Longrightarrow> \<exists>u. lease_of (tabs w) i = Some (t_coll (tabs w) tok, u)"
    and write_releases: "tables_ok (tabs w) \<Longrightarrow> settle ids tok w = (Inr (), w') \<Longrightarrow>
      i \<in> set ids \<Longrightarrow> lease_of (tabs w') i = None"
begin

text \<open>While the lease runs nobody else gets the message.\<close>

lemma exclusive:
  assumes "tables_ok (tabs (interfere w1))" and "claim c1 r1 now1 until w1 = (Inr ms1, w1')" and "m1 \<in> set ms1"
    and "lease_of (tabs (interfere w2)) (om_ExecutionID m1) = lease_of (tabs w1') (om_ExecutionID m1)"
    and "tables_ok (tabs (interfere w2))" and "claim c2 r2 now2 until2 w2 = (Inr ms2, w2')" and "now2 < until"
  shows "om_ExecutionID m1 \<notin> om_ExecutionID ` set ms2"
proof
  assume "om_ExecutionID m1 \<in> om_ExecutionID ` set ms2"
  then obtain m2 where m2: "m2 \<in> set ms2" "om_ExecutionID m2 = om_ExecutionID m1" by auto
  have "lease_of (tabs (interfere w2)) (om_ExecutionID m2) = Some (t_coll (tabs w1') (om_LeaseToken m1), Some until)"
    using claim_leases [OF assms(1-3)] assms(4) m2(2) by simp
  from claim_free [OF assms(5,6) m2(1) this] assms(7) show False by simp
qed

text \<open>Whoever lost the lease to another claim cannot write any more.\<close>

lemma fenced:
  assumes "tables_ok (tabs (interfere w1))" and "claim c random now until w1 = (Inr ms, w1')" and "m \<in> set ms"
    and "lease_of (tabs w2) (om_ExecutionID m) = lease_of (tabs w1') (om_ExecutionID m)"
    and "tables_ok (tabs w2)" and "tok \<noteq> ''''" and "t_coll (tabs w2) tok \<noteq> t_coll (tabs w1') (om_LeaseToken m)"
    and "om_ExecutionID m \<in> set ids"
  shows "\<exists>e w2'. settle ids tok w2 = (Inl e, w2')"
proof (cases "settle ids tok w2")
  case (Pair r w2')
  have "r \<noteq> Inr ()"
  proof
    assume "r = Inr ()"
    with Pair have "settle ids tok w2 = (Inr (), w2')" by simp
    from write_holder [OF assms(5) this assms(6,8)] assms(4,7) claim_leases [OF assms(1-3)]
    show False by simp
  qed
  with Pair show ?thesis by (cases r) auto
qed

text \<open>A claim is good for one write: after it the message is held by nobody.\<close>

lemma write_once:
  assumes "tables_ok (tabs w1)" and "settle ids tok w1 = (Inr (), w1')" and "i \<in> set ids"
    and "lease_of (tabs w2) i = lease_of (tabs w1') i" and "tables_ok (tabs w2)"
    and "tok' \<noteq> ''''" and "i \<in> set ids'"
  shows "\<exists>e w2'. settle ids' tok' w2 = (Inl e, w2')"
proof (cases "settle ids' tok' w2")
  case (Pair r w2')
  have "r \<noteq> Inr ()"
  proof
    assume "r = Inr ()"
    with Pair have "settle ids' tok' w2 = (Inr (), w2')" by simp
    from write_holder [OF assms(5) this assms(6,7)] write_releases [OF assms(1-3)] assms(4)
    show False by simp
  qed
  with Pair show ?thesis by (cases r) auto
qed

end

subsection \<open>The MySQL repository keeps the contract\<close>

lemma keeps_ok_leased_table:
  "tables_ok t \<Longrightarrow> tables_ok (leased_table p leaseUntil tok stamp t)"
  using keeps_ok_apply_outbox [of "\<lambda>r. (lease_row leaseUntil tok r)\<lparr>po_UpdatedAt := stamp\<rparr>" t p]
  by (simp add: leased_table_def keeps_ok_def lease_row_def)

lemma ClaimPending_leases:
  assumes ok: "tables_ok (tabs (interfere w))"
    and run: "OutboxRepository_ClaimPending locked (Inr random) limit now until w = (Inr ms, w')"
    and m: "m \<in> set ms"
  shows "om_LeaseToken m = hex_encode random \<and>
    lease_of (tabs w') (om_ExecutionID m) = Some (t_coll (tabs w') (om_LeaseToken m), Some until)"
  using ok run
proof (rule ClaimPending_Inr)
  fix random' rows assume r: "Inr random = (Inr random' :: goerr + byte list)"
    and rows: "rows = claimed_rows_of locked (claim_limit limit) now (t_outbox (tabs (interfere w)))"
    and ms: "ms = map (\<lambda>r. OutboxMessage_ToEntity (lease_row until (hex_encode random') r)) rows"
    and t: "tabs w' = leased_table (\<lambda>r. r \<in> set rows) until (hex_encode random') (clock w) (tabs (interfere w))"
  let ?g = "\<lambda>r. (lease_row until (hex_encode random) r)\<lparr>po_UpdatedAt := clock w\<rparr>"
  from m ms r obtain x where x: "x \<in> set rows" "m = OutboxMessage_ToEntity (lease_row until (hex_encode random) x)"
    by auto
  then have "x \<in> set (t_outbox (tabs (interfere w)))" using rows by (auto dest: claimed_rows_ofD)
  with x t r have "?g x \<in> set (t_outbox (tabs w'))"
    by (auto simp: leased_table_def apply_where_def image_iff intro!: bexI [of _ x])
  moreover have "tables_ok (tabs w')" using keeps_ok_leased_table [OF ok] t by simp
  ultimately show ?thesis
    using lease_of_row [of "tabs w'" "?g x"] x by (simp add: lease_row_def)
qed

lemma ClaimPending_free:
  assumes ok: "tables_ok (tabs (interfere w))"
    and run: "OutboxRepository_ClaimPending locked (Inr random) limit now until w = (Inr ms, w')"
    and m: "m \<in> set ms" and l: "lease_of (tabs (interfere w)) (om_ExecutionID m) = Some (k, u)"
  shows "\<exists>l. u = Some l \<and> l \<le> now"
  using ok run
proof (rule ClaimPending_Inr)
  fix random' rows
  assume rows: "rows = claimed_rows_of locked (claim_limit limit) now (t_outbox (tabs (interfere w)))"
    and ms: "ms = map (\<lambda>r. OutboxMessage_ToEntity (lease_row until (hex_encode random') r)) rows"
  from m ms obtain x where x: "x \<in> set rows" "om_ExecutionID m = po_ExecutionID x"
    by (auto simp: lease_row_def)
  with rows have "x \<in> set (t_outbox (tabs (interfere w)))" "claimable now x" by (auto dest: claimed_rows_ofD)
  with lease_of_row [OF ok this(1)] x l show ?thesis
    by (auto simp: claimable_def split: if_splits option.splits)
qed

lemma update_holder:
  assumes "tables_ok (tabs w)" and "updateByExecutionIDs ids tok f w = (Inr (), w')" and "tok \<noteq> ''''"
    and "i \<in> set ids"
  shows "\<exists>u. lease_of (tabs w) i = Some (t_coll (tabs w) tok, u)"
proof -
  from updateByExecutionIDs_Inr [OF assms(1,2)] assms(4) obtain r where r: "r \<in> set (t_outbox (tabs w))"
    "po_ExecutionID r = i" "holds_lease tok (tabs w) r" by blast
  with lease_of_row [OF assms(1) r(1)] assms(3) show ?thesis by (auto simp: holds_lease_def)
qed

lemma update_releases:
  assumes ok: "tables_ok (tabs w)" and run: "updateByExecutionIDs ids tok f w = (Inr (), w')"
    and i: "i \<in> set ids"
    and f: "\<And>r. po_OutboxID (f r) = po_OutboxID r \<and> po_ExecutionID (f r) = po_ExecutionID r \<and>
      po_State (f r) \<noteq> OutboxProcessing"
  shows "lease_of (tabs w') i = None"
proof -
  let ?p = "\<lambda>r. po_ExecutionID r \<in> set ids \<and> holds_lease tok (tabs w) r"
  let ?f = "\<lambda>r. (f r)\<lparr>po_UpdatedAt := clock w\<rparr>"
  have t: "tabs w' = (tabs w)\<lparr>t_outbox := apply_where ?p ?f (t_outbox (tabs w))\<rparr>"
    using updateByExecutionIDs_Inr [OF ok run] by blast
  then have ok': "tables_ok (tabs w')"
    using keeps_ok_apply_outbox [of ?f "tabs w" ?p] f ok by (simp add: keeps_ok_def)
  from updateByExecutionIDs_Inr [OF ok run] i obtain r where r: "r \<in> set (t_outbox (tabs w))"
    "po_ExecutionID r = i" "holds_lease tok (tabs w) r" by blast
  with t i have "?f r \<in> set (t_outbox (tabs w'))"
    by (auto simp: apply_where_def image_iff intro!: bexI [of _ r])
  from lease_of_row [OF ok' this] f [of r] r(2) show ?thesis by simp
qed

lemma mark_releases:
  "tables_ok (tabs w) \<Longrightarrow> OutboxRepository_MarkPublished ids tok at w = (Inr (), w') \<Longrightarrow>
     i \<in> set ids \<Longrightarrow> lease_of (tabs w') i = None"
  "tables_ok (tabs w) \<Longrightarrow> OutboxRepository_MarkRetry ids tok av e w = (Inr (), w') \<Longrightarrow>
     i \<in> set ids \<Longrightarrow> lease_of (tabs w') i = None"
  "tables_ok (tabs w) \<Longrightarrow> OutboxRepository_MarkDead ids tok e w = (Inr (), w') \<Longrightarrow>
     i \<in> set ids \<Longrightarrow> lease_of (tabs w') i = None"
  unfolding mark_defs by (erule (2) update_releases, simp add: row_defs)+

lemma mark_holder:
  "tables_ok (tabs w) \<Longrightarrow> OutboxRepository_MarkPublished ids tok at w = (Inr (), w') \<Longrightarrow> tok \<noteq> '''' \<Longrightarrow>
     i \<in> set ids \<Longrightarrow> \<exists>u. lease_of (tabs w) i = Some (t_coll (tabs w) tok, u)"
  "tables_ok (tabs w) \<Longrightarrow> OutboxRepository_MarkRetry ids tok av e w = (Inr (), w') \<Longrightarrow> tok \<noteq> '''' \<Longrightarrow>
     i \<in> set ids \<Longrightarrow> \<exists>u. lease_of (tabs w) i = Some (t_coll (tabs w) tok, u)"
  "tables_ok (tabs w) \<Longrightarrow> OutboxRepository_MarkDead ids tok e w = (Inr (), w') \<Longrightarrow> tok \<noteq> '''' \<Longrightarrow>
     i \<in> set ids \<Longrightarrow> \<exists>u. lease_of (tabs w) i = Some (t_coll (tabs w) tok, u)"
  unfolding mark_defs by (erule (3) update_holder)+

interpretation published: lease_store
  "\<lambda>c random. OutboxRepository_ClaimPending (fst c) (Inr random) (snd c)"
  "\<lambda>ids tok. OutboxRepository_MarkPublished ids tok at" for "at"
  by unfold_locales (erule (2) ClaimPending_leases | erule (3) ClaimPending_free
    | erule (3) mark_holder | erule (2) mark_releases)+

interpretation retried: lease_store
  "\<lambda>c random. OutboxRepository_ClaimPending (fst c) (Inr random) (snd c)"
  "\<lambda>ids tok. OutboxRepository_MarkRetry ids tok av e" for av e
  by unfold_locales (erule (2) ClaimPending_leases | erule (3) ClaimPending_free
    | erule (3) mark_holder | erule (2) mark_releases)+

interpretation given_up: lease_store
  "\<lambda>c random. OutboxRepository_ClaimPending (fst c) (Inr random) (snd c)"
  "\<lambda>ids tok. OutboxRepository_MarkDead ids tok e" for e
  by unfold_locales (erule (2) ClaimPending_leases | erule (3) ClaimPending_free
    | erule (3) mark_holder | erule (2) mark_releases)+

subsection \<open>No message gets stuck\<close>

text \<open>
  How state, lease and stamps of a row go together. A row that is PROCESSING without an expiry
  would be claimable never again; the invariant excludes it.
\<close>

definition row_ok :: "OutboxMessagePO \<Rightarrow> bool" where
  "row_ok r \<longleftrightarrow>
     (if po_State r = OutboxProcessing then po_LeaseUntil r \<noteq> None \<and> po_LeaseToken r \<noteq> ''''
      else po_State r \<in> {OutboxPending, OutboxPublished, OutboxDead} \<and> po_LeaseUntil r = None
           \<and> po_LeaseToken r = '''')
     \<and> (po_State r = OutboxPublished \<longrightarrow> po_PublishedAt r \<noteq> None)"

definition rows_ok :: "tables \<Rightarrow> tables \<Rightarrow> bool" where
  "rows_ok t t' \<longleftrightarrow> ((\<forall>r \<in> set (t_outbox t). row_ok r) \<longrightarrow> (\<forall>r \<in> set (t_outbox t'). row_ok r))"

lemma row_ok_stamps [simp]:
  "row_ok (r\<lparr>po_UpdatedAt := c\<rparr>) = row_ok r" "row_ok (r\<lparr>po_OutboxID := i\<rparr>) = row_ok r"
  "row_ok (stamp_outbox c r) = row_ok r"
  by (simp_all add: row_ok_def stamp_outbox_def)

interpretation rows: table_relation rows_ok
  by unfold_locales (auto simp: rows_ok_def)

lemma rows_ok_same: "t_outbox t' = t_outbox t \<Longrightarrow> rows_ok t t'"
  by (simp add: rows_ok_def)

lemma rows_insert_execs: "guarantees rows_ok (sql_insert_execs dn rs)"
  unfolding sql_insert_execs_def
  by (rule rows.statement) (auto split: sum.splits prod.splits intro!: rows_ok_same)

lemma rows_update_execs: "guarantees rows_ok (sql_update_execs p f)"
  unfolding sql_update_execs_def by (rule rows.statement) (auto intro!: rows_ok_same)

lemma rows_insert_outbox:
  assumes "\<forall>r \<in> set rs. row_ok r"
  shows "guarantees rows_ok (sql_insert_outbox dn rs)"
  unfolding sql_insert_outbox_def
proof (rule rows.statement)
  fix w :: world and x t
  assume "(case insert_rows outbox_clash po_OutboxID (\<lambda>i r. r\<lparr>po_OutboxID := i\<rparr>) dn
      (map (stamp_outbox (clock w)) rs) (t_outbox (tabs w), t_outbox_next (tabs w)) of
        Inl e \<Rightarrow> Inl e
      | Inr (rows', ts, n) \<Rightarrow> Inr (rows', (tabs w)\<lparr>t_outbox := ts, t_outbox_next := n\<rparr>)) = Inr (x, t)"
  then obtain ts n where ins: "insert_rows outbox_clash po_OutboxID (\<lambda>i r. r\<lparr>po_OutboxID := i\<rparr>) dn
      (map (stamp_outbox (clock w)) rs) (t_outbox (tabs w), t_outbox_next (tabs w)) = Inr (x, ts, n)"
    and t: "t_outbox t = ts" by (auto split: sum.splits prod.splits)
  obtain new where new: "ts = t_outbox (tabs w) @ new" "set new \<subseteq> set x"
    using okt.insert_rows_rows [OF ins] by blast
  have "\<forall>r \<in> set x. \<exists>s \<in> set rs. \<exists>i. r = stamp_outbox (clock w) s \<or> r = (stamp_outbox (clock w) s)\<lparr>po_OutboxID := i\<rparr>"
    using okt.insert_rows_origin [OF ins] by auto
  with assms have "\<forall>r \<in> set x. row_ok r" by (metis row_ok_stamps(2,3))
  with new t show "rows_ok (tabs w) t" by (auto simp: rows_ok_def)
qed

lemma rows_update_outbox:
  assumes "\<And>t r. p t r \<Longrightarrow> row_ok r \<Longrightarrow> row_ok (f r)"
  shows "guarantees rows_ok (sql_update_outbox p f)"
  unfolding sql_update_outbox_def
proof (rule rows.statement)
  fix w :: world and x t
  assume "(let f' = \<lambda>r. (f r)\<lparr>po_UpdatedAt := clock w\<rparr> in
      Inr (affected (p (tabs w)) f' (t_outbox (tabs w)),
           (tabs w)\<lparr>t_outbox := apply_where (p (tabs w)) f' (t_outbox (tabs w))\<rparr>)) = Inr (x, t)"
  with assms show "rows_ok (tabs w) t" by (auto simp: rows_ok_def apply_where_def Let_def)
qed

lemmas rows_pieces = rows.pieces rows_insert_execs rows_update_execs

lemma rows_execution_repository:
  "guarantees rows_ok (ExecutionRepository_Add r)"
  "guarantees rows_ok (ExecutionRepository_BatchAdd rs)"
  "guarantees rows_ok (ExecutionRepository_FindByID i)"
  "guarantees rows_ok (ExecutionRepository_Save r)"
  "guarantees rows_ok (ExecutionRepository_BatchUpdateStatus rs)"
proof -
  show "guarantees rows_ok (ExecutionRepository_Add r)"
    unfolding ExecutionRepository_Add_def sql_insert_exec_def by (intro rows_pieces)
  show "guarantees rows_ok (ExecutionRepository_BatchAdd rs)"
    unfolding ExecutionRepository_BatchAdd_def Let_def by (intro rows_pieces)
  show "guarantees rows_ok (ExecutionRepository_FindByID i)"
    unfolding ExecutionRepository_FindByID_def by (intro rows_pieces)
  show "guarantees rows_ok (ExecutionRepository_Save r)"
    unfolding ExecutionRepository_Save_def by (intro rows_pieces)
  have "guarantees rows_ok (update_group rs s)" for s
    unfolding update_group_def Let_def by (intro rows_pieces)
  then have "guarantees rows_ok (update_groups rs ss)" for ss
    by (induction ss) (auto intro!: rows_pieces)
  then show "guarantees rows_ok (ExecutionRepository_BatchUpdateStatus rs)"
    unfolding ExecutionRepository_BatchUpdateStatus_def by (intro rows_pieces)
qed

lemma rows_updateByExecutionIDs:
  assumes "\<And>r. row_ok (f r)"
  shows "guarantees rows_ok (updateByExecutionIDs ids tok f)"
  unfolding updateByExecutionIDs_def by (intro rows_pieces rows_update_outbox) (rule assms)

lemma rows_outbox_repository:
  "row_ok (FromOutboxMessage m) \<Longrightarrow> guarantees rows_ok (OutboxRepository_Add m)"
  "(\<And>m. m \<in> set ms \<Longrightarrow> row_ok (FromOutboxMessage m)) \<Longrightarrow> guarantees rows_ok (OutboxRepository_BatchAdd ms)"
  "guarantees rows_ok (OutboxRepository_MarkPublished ids tok at)"
  "guarantees rows_ok (OutboxRepository_MarkRetry ids tok av e)"
  "guarantees rows_ok (OutboxRepository_MarkDead ids tok e)"
proof -
  show "guarantees rows_ok (OutboxRepository_Add m)" if "row_ok (FromOutboxMessage m)"
    unfolding OutboxRepository_Add_def sql_insert_outbox_one_def
    using that by (intro rows_pieces rows_insert_outbox) simp
  have "guarantees rows_ok (in_batches (sql_insert_outbox True) cs)"
    if "\<forall>c \<in> set cs. \<forall>r \<in> set c. row_ok r" for cs
    using that by (induction cs) (auto intro!: rows_pieces rows_insert_outbox)
  moreover have "\<forall>c \<in> set (chunks 200 (map FromOutboxMessage ms)). \<forall>r \<in> set c. row_ok r"
    if "\<And>m. m \<in> set ms \<Longrightarrow> row_ok (FromOutboxMessage m)"
  proof (intro ballI)
    fix c r assume "c \<in> set (chunks 200 (map FromOutboxMessage ms))" "r \<in> set c"
    then have "r \<in> set (map FromOutboxMessage ms)" using set_chunk by blast
    then show "row_ok r" using that by auto
  qed
  ultimately show "guarantees rows_ok (OutboxRepository_BatchAdd ms)"
    if "\<And>m. m \<in> set ms \<Longrightarrow> row_ok (FromOutboxMessage m)"
    unfolding OutboxRepository_BatchAdd_def using that
    by (intro rows.if_ rows.return rows.bind rows.wrap rows.find rows.of_) simp
  show "guarantees rows_ok (OutboxRepository_MarkPublished ids tok at)"
    "guarantees rows_ok (OutboxRepository_MarkRetry ids tok av e)"
    "guarantees rows_ok (OutboxRepository_MarkDead ids tok e)"
    unfolding mark_defs by (rule rows_updateByExecutionIDs; simp add: row_ok_def row_defs)+
qed

lemma rows_ClaimPending:
  assumes "\<And>bs. rand = Inr bs \<Longrightarrow> bs \<noteq> []"
  shows "guarantees rows_ok (OutboxRepository_ClaimPending locked rand limit now leaseUntil)"
proof -
  have sel: "guarantees rows_ok (sql_select_claimable locked l now)" for l
    unfolding sql_select_claimable_def by (rule rows.statement) (auto intro: rows_ok_same)
  have "guarantees rows_ok (claim_tx locked tok l now leaseUntil)" if "tok \<noteq> ''''" for tok l
    unfolding claim_tx_def
    by (intro rows_pieces rows_update_outbox sel) (use that in \<open>simp add: row_ok_def lease_row_def\<close>)
  moreover have "hex_encode bs \<noteq> ''''" if "rand = Inr bs" for bs
    using assms [OF that] by (cases bs) auto
  ultimately show ?thesis
    unfolding OutboxRepository_ClaimPending_def newLeaseToken_def Let_def
    by (cases rand) (auto intro!: rows_pieces)
qed

lemma row_ok_new: "row_ok (FromOutboxMessage (NewOutboxMessage rec name at))"
  by (simp add: row_ok_def FromOutboxMessage_def NewOutboxMessage_def)

text \<open>From some time on, a message that is not settled can be claimed.\<close>

definition claimable_from :: "OutboxMessagePO \<Rightarrow> gotime" where
  "claimable_from r =
     (if po_State r = OutboxPending then po_AvailableAt r
      else case po_LeaseUntil r of None \<Rightarrow> 0 | Some l \<Rightarrow> l)"

lemma row_ok_claimable: "row_ok r \<Longrightarrow> \<not> settled (po_State r) \<Longrightarrow> claimable_from r \<le> now \<Longrightarrow> claimable now r"
  by (auto simp: row_ok_def settled_def claimable_def claimable_from_def split: if_splits)

end
