(* ===== verification/Ut_Case_Repository.thy ===== *)
theory Ut_Case_Repository
  imports Integrity
begin

text \<open>
  The MySQL repository of test cases (\<open>persistence/mysql/ut_case_repository.go\<close>): lookup,
  counting, and the paged scan. The scan follows \<open>FindInBatches\<close>: one SELECT per page, ordered by
  the primary key and starting behind the last key of the page before, until a page is not full.
  The pages are read outside a transaction, so other processes may change the catalogue between
  two pages. The callback works on a state \<open>'s\<close> and yields an error or none; \<open>ctxErr\<close> is what
  \<open>ctx.Err()\<close> says when a page has arrived.
\<close>

subsection \<open>Lookup and counting\<close>

definition UtCaseRepository_FindByID :: "int64 \<Rightarrow> UtCase option io" where
  "UtCaseRepository_FindByID caseID =
     io_bind (io_try (sql_first t_cases pu_CaseID (\<lambda>t r. pu_CaseID r = caseID)))
       (\<lambda>r. case r of
              Inl e \<Rightarrow> (if errors_Is e ErrRecordNotFound then io_return None
                      else io_fail (wrap_prefix ''select ut_case by id: '' e))
            | Inr row \<Rightarrow> io_return (Some (UtCase_ToEntity row)))"

definition version_is :: "Version \<Rightarrow> tables \<Rightarrow> UtCasePO \<Rightarrow> bool" where
  "version_is v t r \<longleftrightarrow> t_coll t (pu_Version r) = t_coll t v"

definition channel_version_is :: "Channel \<Rightarrow> Version \<Rightarrow> tables \<Rightarrow> UtCasePO \<Rightarrow> bool" where
  "channel_version_is ch v t r \<longleftrightarrow>
     t_coll t (pu_Channel r) = t_coll t ch \<and> t_coll t (pu_Version r) = t_coll t v"

definition sql_count_cases :: "(tables \<Rightarrow> UtCasePO \<Rightarrow> bool) \<Rightarrow> int64 io" where
  "sql_count_cases p = sql (\<lambda>w. Inr (int (length (filter (p (tabs w)) (t_cases (tabs w)))), tabs w))"

definition UtCaseRepository_CountByVersion :: "Version \<Rightarrow> int64 io" where
  "UtCaseRepository_CountByVersion v =
     io_wrap ''count ut_case by version: '' (sql_count_cases (version_is v))"

definition UtCaseRepository_CountByChannelVersion :: "Channel \<Rightarrow> Version \<Rightarrow> int64 io" where
  "UtCaseRepository_CountByChannelVersion ch v =
     io_wrap ''count ut_case by channel+version: '' (sql_count_cases (channel_version_is ch v))"

subsection \<open>The paged scan\<close>

definition behind :: "int64 option \<Rightarrow> UtCasePO \<Rightarrow> bool" where
  "behind after r \<longleftrightarrow> (case after of None \<Rightarrow> True | Some l \<Rightarrow> l < pu_CaseID r)"

definition sql_page :: "(tables \<Rightarrow> UtCasePO \<Rightarrow> bool) \<Rightarrow> nat \<Rightarrow> int64 option \<Rightarrow> UtCasePO list io" where
  "sql_page p psize after = sql (\<lambda>w.
     Inr (take psize (sort_key pu_CaseID
            (filter (\<lambda>r. p (tabs w) r \<and> behind after r) (t_cases (tabs w)))), tabs w))"

lemma sql_page_Inr:
  "sql_page p psize after w = (Inr rows, w') \<Longrightarrow>
     rows = take psize (sort_key pu_CaseID
       (filter (\<lambda>r. p (tabs w) r \<and> behind after r) (t_cases (tabs w)))) \<and>
     tabs w' = tabs w \<and> foreign w' = foreign w"
  by (auto simp: sql_page_def sql_Inr dest: next_outcome_sel)

lemma sql_page_rows:
  "sql_page p psize after w = (Inr rows, w') \<Longrightarrow> r \<in> set rows \<Longrightarrow>
     r \<in> set (t_cases (tabs w)) \<and> p (tabs w) r \<and> behind after r"
  by (drule sql_page_Inr) (auto dest: in_set_takeD)

text \<open>How much of the catalogue lies ahead; it shrinks with every full page.\<close>

definition ahead :: "int64 option \<Rightarrow> world \<Rightarrow> nat" where
  "ahead after w = length (filter (behind after) (t_cases (tabs w)))"

lemma ahead_less:
  assumes "r \<in> set (t_cases (tabs w))" and "behind after r"
  shows "ahead (Some (pu_CaseID r)) w < ahead after w"
  unfolding ahead_def
  by (rule length_filter_less2 [where x = r and P = "behind after"]) (use assms(1) in simp, use assms(2) in simp, use assms(2) in \<open>auto simp: behind_def split: option.splits\<close>)

lemma interfere_foreign:
  "length (foreign (interfere w)) \<le> length (foreign w)"
  "length (foreign (interfere w)) = length (foreign w) \<Longrightarrow> interfere w = w"
  by (auto simp: interfere_def split: list.splits)

text \<open>\<open>FindInBatches\<close> goes on after the last key of a full page. The keys are generated and start at 1, so its
  error for a page that ends with the key 0 does not occur.\<close>

function scan_pages ::
  "(tables \<Rightarrow> UtCasePO \<Rightarrow> bool) \<Rightarrow> nat \<Rightarrow> ('s \<Rightarrow> goerr option) \<Rightarrow> ('s \<Rightarrow> UtCase list \<Rightarrow> goerr option \<times> 's)
     \<Rightarrow> int64 option \<Rightarrow> 's \<Rightarrow> world \<Rightarrow> (goerr option \<times> 's) \<times> world" where
  "scan_pages p psize ctxErr fn after s w =
     (case sql_page p psize after (interfere w) of
        (Inl e, w1) \<Rightarrow> ((Some e, s), w1)
      | (Inr rows, w1) \<Rightarrow>
          (if rows = [] then ((None, s), w1)
           else case (case ctxErr s of Some e \<Rightarrow> (Some e, s) | None \<Rightarrow> fn s (map UtCase_ToEntity rows)) of
                  (Some e, s') \<Rightarrow> ((Some e, s'), w1)
                | (None, s') \<Rightarrow>
                    (if length rows < psize then ((None, s'), w1)
                     else scan_pages p psize ctxErr fn (Some (pu_CaseID (last rows))) s' w1)))"
  by pat_completeness auto

termination
proof (relation "(\<lambda>(p, psize, ctxErr, fn, after, s, w). length (foreign w)) <*mlex*>
    measure (\<lambda>(p, psize, ctxErr, fn, after, s, w). ahead after w)", goal_cases)
  case 1
  show ?case by (intro wf_mlex wf_measure)
next
  case (2 p psize ctxErr fn after s w x w1 rows xa s')
  have page: "sql_page p psize after (interfere w) = (Inr rows, w1)" "rows \<noteq> []"
    using 2 by auto
  then have row: "last rows \<in> set (t_cases (tabs (interfere w)))" "behind after (last rows)"
    using sql_page_rows [OF page(1)] by auto
  have w1: "tabs w1 = tabs (interfere w)" "foreign w1 = foreign (interfere w)"
    using sql_page_Inr [OF page(1)] by simp_all
  show ?case
  proof (cases "length (foreign (interfere w)) = length (foreign w)")
    case True
    then have i: "interfere w = w" by (rule interfere_foreign)
    have "ahead (Some (pu_CaseID (last rows))) w1 < ahead after w"
      using ahead_less [OF row] w1 i by (simp add: ahead_def)
    with w1 i show ?thesis by (simp add: mlex_leq)
  next
    case False
    with interfere_foreign(1) [of w] w1 show ?thesis by (simp add: mlex_less)
  qed
qed

declare scan_pages.simps [simp del]

definition UtCaseRepository_scan ::
  "int \<Rightarrow> (tables \<Rightarrow> UtCasePO \<Rightarrow> bool) \<Rightarrow> ('s \<Rightarrow> goerr option) \<Rightarrow> ('s \<Rightarrow> UtCase list \<Rightarrow> goerr option \<times> 's)
     \<Rightarrow> 's \<Rightarrow> world \<Rightarrow> (goerr option \<times> 's) \<times> world" where
  "UtCaseRepository_scan psize p ctxErr fn s w =
     (let psize' = (if psize \<le> 0 then 1000 else psize) in
      case scan_pages p (nat psize') ctxErr fn None s w of
        ((Some e, s'), w') \<Rightarrow> ((Some (wrap_prefix ''scan ut_case: '' e), s'), w')
      | ((None, s'), w') \<Rightarrow> ((None, s'), w'))"

definition UtCaseRepository_ScanByVersion where
  "UtCaseRepository_ScanByVersion v psize = UtCaseRepository_scan psize (version_is v)"

definition UtCaseRepository_ScanByChannelVersion where
  "UtCaseRepository_ScanByChannelVersion ch v psize = UtCaseRepository_scan psize (channel_version_is ch v)"

subsection \<open>Paging is chunking\<close>

text \<open>
  What a scan is for its caller: the matching cases in the order of their keys, cut into pieces
  of the page size, handed to the callback one after the other until it fails.
\<close>

fun run_batches ::
  "('s \<Rightarrow> goerr option) \<Rightarrow> ('s \<Rightarrow> UtCase list \<Rightarrow> goerr option \<times> 's) \<Rightarrow> 's \<Rightarrow> UtCase list list
     \<Rightarrow> goerr option \<times> 's" where
  "run_batches ctxErr fn s [] = (None, s)"
| "run_batches ctxErr fn s (b # bs) =
     (case (case ctxErr s of Some e \<Rightarrow> (Some e, s) | None \<Rightarrow> fn s b) of
        (Some e, s') \<Rightarrow> (Some e, s')
      | (None, s') \<Rightarrow> run_batches ctxErr fn s' bs)"

definition matching_cases :: "(tables \<Rightarrow> UtCasePO \<Rightarrow> bool) \<Rightarrow> tables \<Rightarrow> UtCase list" where
  "matching_cases p t = map UtCase_ToEntity (sort_key pu_CaseID (filter (p t) (t_cases t)))"

definition calm :: "world \<Rightarrow> bool" where
  "calm w \<longleftrightarrow> foreign w = [] \<and> outcomes w = [] \<and> distinct (map pu_CaseID (t_cases (tabs w)))"

lemma chunks_take_drop: "0 < n \<Longrightarrow> xs \<noteq> [] \<Longrightarrow> chunks n xs = take n xs # chunks n (drop n xs)"
  by (cases xs; cases n) auto

lemma drop_filter_last:
  assumes "sorted (map f xs)" and "distinct (map f xs)" and "0 < n" and "n \<le> length xs"
  shows "filter (\<lambda>x. f (last (take n xs)) < f x) xs = drop n xs"
proof -
  let ?l = "last (take n xs)"
  have xs: "xs = take n xs @ drop n xs" by simp
  have ne: "take n xs \<noteq> []" using assms(3,4) by auto
  have srt: "sorted (map f (take n xs))" "\<forall>x \<in> set (take n xs). \<forall>y \<in> set (drop n xs). f x \<le> f y"
    using assms(1) sorted_append [of "map f (take n xs)" "map f (drop n xs)"]
    by (auto simp flip: map_append)
  have dst: "\<forall>x \<in> set (take n xs). \<forall>y \<in> set (drop n xs). f x \<noteq> f y"
    using assms(2) distinct_append [of "map f (take n xs)" "map f (drop n xs)"]
    by (auto simp flip: map_append)
  have "f x \<le> f ?l" if "x \<in> set (take n xs)" for x
  proof -
    obtain ys l where ys: "take n xs = ys @ [l]" using ne rev_exhaust by blast
    with srt(1) that show ?thesis by (auto simp: sorted_append)
  qed
  then have "filter (\<lambda>x. f ?l < f x) (take n xs) = []" by (auto simp: filter_empty_conv not_less)
  moreover have "filter (\<lambda>x. f ?l < f x) (drop n xs) = drop n xs"
    using srt(2) dst ne last_in_set [OF ne] by (intro filter_True) (metis order_le_imp_less_or_eq)
  ultimately show ?thesis by (metis append_Nil filter_append xs)
qed

lemma sql_page_calm:
  "calm w \<Longrightarrow> sql_page p psize after (interfere w) =
     (Inr (take psize (sort_key pu_CaseID (filter (\<lambda>r. p (tabs w) r \<and> behind after r) (t_cases (tabs w))))), w)"
  by (simp add: calm_def sql_page_def sql_def interfere_def next_outcome_def)

lemma scan_pages_chunks:
  assumes "calm w" and "0 < psize"
  shows "scan_pages p psize ctxErr fn after s w =
    (run_batches ctxErr fn s (map (map UtCase_ToEntity) (chunks psize
       (sort_key pu_CaseID (filter (\<lambda>r. p (tabs w) r \<and> behind after r) (t_cases (tabs w)))))), w)"
  using assms
proof (induction p psize ctxErr fn after s w rule: scan_pages.induct)
  case (1 p psize ctxErr fn after s w)
  let ?all = "\<lambda>after. sort_key pu_CaseID (filter (\<lambda>r. p (tabs w) r \<and> behind after r) (t_cases (tabs w)))"
  let ?R = "?all after" let ?rows = "take psize ?R"
  let ?res = "case ctxErr s of Some e \<Rightarrow> (Some e, s) | None \<Rightarrow> fn s (map UtCase_ToEntity ?rows)"
  note page = sql_page_calm [OF 1(2), of p psize after]
  show ?case
  proof (cases "?R = []")
    case True
    then show ?thesis using page by (subst scan_pages.simps) simp
  next
    case False
    with 1(3) have rows: "?rows \<noteq> []" by simp
    have chunks: "chunks psize ?R = ?rows # chunks psize (drop psize ?R)"
      using 1(3) False by (rule chunks_take_drop)
    show ?thesis
    proof (cases ?res)
      case (Pair r s')
      show ?thesis
      proof (cases "r = None \<and> psize \<le> length ?R")
        case True
        then have full: "\<not> length ?rows < psize" by simp
        have "distinct (map pu_CaseID ?R)"
          using 1(2) by (simp add: calm_def distinct_map inj_on_def)
        then have "drop psize ?R = filter (\<lambda>r. pu_CaseID (last ?rows) < pu_CaseID r) ?R"
          using True 1(3) by (intro drop_filter_last [symmetric]) auto
        also have "\<dots> = ?all (Some (pu_CaseID (last ?rows)))"
        proof -
          have "behind after (last ?rows)" using last_in_set [OF rows] by (auto dest: in_set_takeD)
          then show ?thesis
            unfolding filter_sort filter_filter
            by (intro arg_cong [where f = "sort_key pu_CaseID"] filter_cong refl)
              (auto simp: behind_def split: option.splits)
        qed
        finally have next_page: "?all (Some (pu_CaseID (last ?rows))) = drop psize ?R" ..
        have "scan_pages p psize ctxErr fn after s w =
            scan_pages p psize ctxErr fn (Some (pu_CaseID (last ?rows))) s' w"
          using page rows full Pair True by (subst scan_pages.simps) simp
        also have "\<dots> = (run_batches ctxErr fn s' (map (map UtCase_ToEntity) (chunks psize (drop psize ?R))), w)"
          using 1(1) [OF page [symmetric] refl rows Pair [symmetric] _ full 1(2,3)] True next_page by simp
        finally show ?thesis using chunks Pair True by simp
      next
        case stop: False
        then show ?thesis
          using page rows Pair chunks
          by (subst scan_pages.simps) (cases r; auto split: prod.splits option.splits)
      qed
    qed
  qed
qed

definition page_size :: "int \<Rightarrow> nat" where
  "page_size psize = nat (if psize \<le> 0 then 1000 else psize)"

lemma page_size_pos [simp]: "0 < page_size psize"
  by (simp add: page_size_def)

lemma scan_chunks:
  assumes "calm w"
  shows "UtCaseRepository_scan psize p ctxErr fn s w =
    (apfst (map_option (wrap_prefix ''scan ut_case: ''))
       (run_batches ctxErr fn s (chunks (page_size psize) (matching_cases p (tabs w)))), w)"
proof -
  have "scan_pages p (page_size psize) ctxErr fn None s w =
      (run_batches ctxErr fn s (chunks (page_size psize) (matching_cases p (tabs w))), w)"
    using scan_pages_chunks [OF assms, of "page_size psize" p ctxErr fn None s]
    by (simp add: behind_def matching_cases_def map_chunks)
  then show ?thesis
    by (auto simp: UtCaseRepository_scan_def page_size_def Let_def split: prod.splits option.splits)
qed

lemma run_batches_collect: "run_batches (\<lambda>_. None) (\<lambda>acc b. (None, acc @ [b])) s bs = (None, s @ bs)"
  by (induction bs arbitrary: s) auto

lemma count_calm:
  "calm w \<Longrightarrow> sql_count_cases p w = (Inr (int (length (matching_cases p (tabs w)))), w)"
  by (simp add: calm_def sql_count_cases_def sql_def next_outcome_def matching_cases_def)

text \<open>C40: While the catalogue does not change, a scan by version is: take the cases of that version in
  the order of their ids, cut them into pieces of the page size (1000 for a size that is not
  positive), hand the pieces to the callback in order, and stop at the first error, which comes back
  wrapped. Paging by key thus loses no case, repeats none and asks for no empty page.\<close>

theorem scan_is_chunking:
  assumes "calm w"
  shows "UtCaseRepository_ScanByVersion v psize ctxErr fn s w =
    (apfst (map_option (wrap_prefix ''scan ut_case: ''))
       (run_batches ctxErr fn s (chunks (page_size psize) (matching_cases (version_is v) (tabs w)))), w)"
  unfolding UtCaseRepository_ScanByVersion_def by (rule scan_chunks [OF assms])

text \<open>For the cases of a channel and version, the pages a scan delivers are non-empty, no longer than
  the page size, together exactly the matching cases in key order, and their lengths add up to what
  the count operation reports, which is the total announced to the client.\<close>

theorem scan_agrees_with_count:
  assumes "calm w"
  shows "\<exists>pages. UtCaseRepository_ScanByChannelVersion ch v psize (\<lambda>_. None) (\<lambda>acc b. (None, acc @ [b])) [] w
      = ((None, pages), w) \<and>
    concat pages = matching_cases (channel_version_is ch v) (tabs w) \<and>
    (\<forall>b \<in> set pages. 0 < length b \<and> length b \<le> page_size psize) \<and>
    UtCaseRepository_CountByChannelVersion ch v w = (Inr (int (sum_list (map length pages))), w)"
proof (intro exI conjI)
  let ?pages = "chunks (page_size psize) (matching_cases (channel_version_is ch v) (tabs w))"
  show "UtCaseRepository_ScanByChannelVersion ch v psize (\<lambda>_. None) (\<lambda>acc b. (None, acc @ [b])) [] w
      = ((None, ?pages), w)"
    unfolding UtCaseRepository_ScanByChannelVersion_def
    by (simp add: scan_chunks [OF assms] run_batches_collect)
  show "concat ?pages = matching_cases (channel_version_is ch v) (tabs w)" by simp
  show "\<forall>b \<in> set ?pages. 0 < length b \<and> length b \<le> page_size psize"
    by (auto dest: length_chunk)
  show "UtCaseRepository_CountByChannelVersion ch v w = (Inr (int (sum_list (map length ?pages))), w)"
    unfolding UtCaseRepository_CountByChannelVersion_def io_wrap_def
    by (simp add: count_calm [OF assms] length_concat [symmetric])
qed

text \<open>A catalogue of three cases for the witnesses, two of them of version v1 on channel ios.\<close>

definition demo_catalogue :: world where
  "demo_catalogue =
     \<lparr>tabs = \<lparr>t_cases = [\<lparr>pu_CaseID = 3, pu_CaseName = ''c'', pu_Version = ''v1'', pu_Channel = ''ios''\<rparr>,
                        \<lparr>pu_CaseID = 1, pu_CaseName = ''a'', pu_Version = ''v1'', pu_Channel = ''ios''\<rparr>,
                        \<lparr>pu_CaseID = 2, pu_CaseName = ''b'', pu_Version = ''v2'', pu_Channel = ''ios''\<rparr>],
             t_execs = [], t_exec_next = 1, t_outbox = [], t_outbox_next = 1, t_coll = (\<lambda>s. s)\<rparr>,
      outcomes = [], foreign = [], clock = 0, mord = (\<lambda>xs. xs)\<rparr>"

lemma calm_demo: "calm demo_catalogue"
  by (simp add: calm_def demo_catalogue_def)

theorem scan_is_chunking_witness:
  "UtCaseRepository_ScanByVersion ''v1'' 1 (\<lambda>_. None) (\<lambda>acc b. (None, acc @ [map uc_CaseID b])) [] demo_catalogue
     = ((None, [[1], [3]]), demo_catalogue)"
  unfolding scan_is_chunking [OF calm_demo]
  by (simp add: matching_cases_def demo_catalogue_def version_is_def UtCase_ToEntity_def page_size_def
      insort_key_def)

theorem scan_agrees_with_count_witness:
  "\<exists>pages. concat pages = matching_cases (channel_version_is ''ios'' ''v1'') (tabs demo_catalogue) \<and>
     UtCaseRepository_CountByChannelVersion ''ios'' ''v1'' demo_catalogue
       = (Inr (int (sum_list (map length pages))), demo_catalogue)"
  using scan_agrees_with_count [OF calm_demo, of "''ios''" "''v1''" 1] by blast

end
