(* ===== verification/Rabbit_Client.thy ===== *)
theory Rabbit_Client
  imports Values Entities "HOL-Library.AList"
begin

text \<open>
  Publishing with confirms (\<open>mq/rabbitmq/executor_client.go\<close>, port in
  \<open>domain/port/executor_client.go\<close>): configuration, the payload, \<open>BatchRun\<close>,
  \<open>waitConfirms\<close>, \<open>Execute\<close>. The AMQP library and the broker are the environment: what happens at
  each task of the publishing loop, the tag the channel will give to its next message (tags
  of one channel count up by one with every message, as AMQP prescribes), the events the
  \<open>select\<close> of \<open>waitConfirms\<close> takes one after the other, and the returns that are buffered when it
  is through. Every order of events is an environment. The confirm timer fires if nothing else
  happens, so a list of events that ends stands for one followed by the deadline.
  Log lines are left out.
\<close>

subsection \<open>Configuration\<close>

record MqConfig =
  mc_URL :: string
  mc_Exchange :: string
  mc_ChannelPool :: int
  mc_PublisherBuffer :: int
  mc_ConfirmTimeoutMs :: int
  mc_ReconnectInitialBackoffMs :: int
  mc_ReconnectMaxBackoffMs :: int

definition MqConfig_applyDefaults :: "MqConfig \<Rightarrow> MqConfig" where
  "MqConfig_applyDefaults c =
     c\<lparr>mc_ChannelPool := (if mc_ChannelPool c \<le> 0 then 8 else mc_ChannelPool c),
       mc_ConfirmTimeoutMs := (if mc_ConfirmTimeoutMs c \<le> 0 then 5000 else mc_ConfirmTimeoutMs c),
       mc_PublisherBuffer := (if mc_PublisherBuffer c \<le> 0 then 4096 else mc_PublisherBuffer c),
       mc_ReconnectInitialBackoffMs :=
         (if mc_ReconnectInitialBackoffMs c \<le> 0 then 1000 else mc_ReconnectInitialBackoffMs c),
       mc_ReconnectMaxBackoffMs :=
         (if mc_ReconnectMaxBackoffMs c \<le> 0 then 30000 else mc_ReconnectMaxBackoffMs c)\<rparr>"

subsection \<open>Publishing\<close>

record publishPayload =
  pl_ExecutionID :: int64
  pl_CaseName :: string
  pl_Version :: string

datatype delivery_mode = Transient | Persistent

text \<open>The exchange is that of the configuration for all messages, the time stamp the clock's; neither tells a
  message from another. The body is the JSON text of the payload.\<close>

record Publishing =
  pb_RoutingKey :: string
  pb_Mandatory :: bool
  pb_ContentType :: string
  pb_DeliveryMode :: delivery_mode
  pb_MessageId :: string
  pb_Type :: string
  pb_Body :: publishPayload

type_synonym tag = "64 word"
type_synonym seq_map = "(tag \<times> int64) list"

text \<open>What happens at one task: the context has ended, the payload does not marshal, the library
  refuses the message, or takes it.\<close>

datatype publish_event = CtxErr goerr | MarshalErr goerr | PublishErr goerr | Sent

definition publishing :: "ExecutionTask \<Rightarrow> Publishing" where
  "publishing t =
     \<lparr>pb_RoutingKey = tk_Version t, pb_Mandatory = True, pb_ContentType = ''application/json'',
      pb_DeliveryMode = Persistent, pb_MessageId = FormatInt (tk_ExecutionID t),
      pb_Type = ''ut_case.execute'',
      pb_Body = \<lparr>pl_ExecutionID = tk_ExecutionID t, pl_CaseName = tk_CaseName t, pl_Version = tk_Version t\<rparr>\<rparr>"

text \<open>The map from tags to executions, the error that ended the loop, whether the channel is broken,
  and the messages handed to the library.\<close>

fun publish_loop ::
  "(nat \<Rightarrow> publish_event) \<Rightarrow> tag \<Rightarrow> seq_map \<Rightarrow> ExecutionTask list
     \<Rightarrow> seq_map \<times> goerr option \<times> bool \<times> Publishing list" where
  "publish_loop env seq seq2id [] = (seq2id, None, False, [])"
| "publish_loop env seq seq2id (t # ts) =
     (case env 0 of
        CtxErr e \<Rightarrow> (seq2id, Some e, False, [])
      | MarshalErr e \<Rightarrow> publish_loop (\<lambda>i. env (Suc i)) seq seq2id ts
      | PublishErr e \<Rightarrow> (seq2id, Some e, True, [])
      | Sent \<Rightarrow>
          (let (m, err, broken, ps) =
             publish_loop (\<lambda>i. env (Suc i)) (seq + 1) (AList.update seq (tk_ExecutionID t) seq2id) ts
           in (m, err, broken, publishing t # ps)))"

subsection \<open>Waiting for confirms\<close>

definition executionIDFromReturn :: "string \<Rightarrow> int64 option" where
  "executionIDFromReturn messageId = ParseInt messageId"

datatype mq_event =
    CtxDone
  | Deadline
  | ChannelClosed
  | Returned string         \<comment> \<open>message id of a basic.return\<close>
  | ReturnsClosed
  | Confirm tag bool        \<comment> \<open>delivery tag, ack\<close>
  | ConfirmsClosed

record wait_state =
  ws_pending :: seq_map
  ws_returned :: "int64 list"
  ws_returnsOpen :: bool
  ws_success :: "int64 list"
  ws_failed :: "int64 list"
  ws_broken :: bool

definition note_return :: "string \<Rightarrow> int64 list \<Rightarrow> int64 list" where
  "note_return messageId returned =
     (case executionIDFromReturn messageId of None \<Rightarrow> returned | Some i \<Rightarrow> i # returned)"

definition give_up :: "(int64 list \<Rightarrow> int64 list) \<Rightarrow> wait_state \<Rightarrow> wait_state" where
  "give_up ord s =
     s\<lparr>ws_failed := ws_failed s @ map_order ord (map snd (ws_pending s)), ws_broken := True\<rparr>"

definition confirm :: "tag \<Rightarrow> bool \<Rightarrow> wait_state \<Rightarrow> wait_state" where
  "confirm t ack s =
     (case map_of (ws_pending s) t of
        None \<Rightarrow> s
      | Some i \<Rightarrow>
          (let s' = s\<lparr>ws_pending := AList.delete t (ws_pending s)\<rparr> in
           if i \<in> set (ws_returned s) then s'\<lparr>ws_failed := ws_failed s @ [i]\<rparr>
           else if ack then s'\<lparr>ws_success := ws_success s @ [i]\<rparr>
           else s'\<lparr>ws_failed := ws_failed s @ [i]\<rparr>))"

text \<open>The loop; the flag says whether it ran to its end, so that the last part still follows.\<close>

fun wait_loop :: "(int64 list \<Rightarrow> int64 list) \<Rightarrow> mq_event list \<Rightarrow> wait_state \<Rightarrow> wait_state \<times> bool" where
  "wait_loop ord [] s = (if ws_pending s = [] then (s, True) else (give_up ord s, False))"
| "wait_loop ord (e # es) s =
     (if ws_pending s = [] then (s, True)
      else case e of
        CtxDone \<Rightarrow> (give_up ord s, False)
      | Deadline \<Rightarrow> (give_up ord s, False)
      | ChannelClosed \<Rightarrow> (give_up ord s, False)
      | ConfirmsClosed \<Rightarrow> (give_up ord s, False)
      | Returned messageId \<Rightarrow>
          wait_loop ord es
            (if ws_returnsOpen s then s\<lparr>ws_returned := note_return messageId (ws_returned s)\<rparr> else s)
      | ReturnsClosed \<Rightarrow> wait_loop ord es (s\<lparr>ws_returnsOpen := False\<rparr>)
      | Confirm t ack \<Rightarrow> wait_loop ord es (confirm t ack s))"

text \<open>Moving what was returned from the successes to the failures.\<close>

fun reclassify :: "int64 list \<Rightarrow> int64 list \<Rightarrow> int64 list \<Rightarrow> int64 list \<times> int64 list" where
  "reclassify returned failed [] = ([], failed)"
| "reclassify returned failed (i # success) =
     (if i \<in> set returned
      then reclassify returned (if i \<in> set failed then failed else failed @ [i]) success
      else (let (ok, bad) = reclassify returned failed success in (i # ok, bad)))"

definition waitConfirms ::
  "(int64 list \<Rightarrow> int64 list) \<Rightarrow> mq_event list \<Rightarrow> string list \<Rightarrow> seq_map
     \<Rightarrow> int64 list \<times> int64 list \<times> bool" where
  "waitConfirms ord events buffered seq2id =
     (if seq2id = [] then ([], [], False)
      else
        (let (s, through) = wait_loop ord events
               \<lparr>ws_pending = seq2id, ws_returned = [], ws_returnsOpen = True, ws_success = [],
                ws_failed = [], ws_broken = False\<rparr> in
         if \<not> through then (ws_success s, ws_failed s, ws_broken s)
         else
           (let returned = (if ws_returnsOpen s then fold note_return buffered (ws_returned s)
                            else ws_returned s) in
            if returned = [] then (ws_success s, ws_failed s, ws_broken s)
            else (let (ok, bad) = reclassify returned (ws_failed s) (ws_success s)
                  in (ok, bad, ws_broken s)))))"

subsection \<open>BatchRun and Execute\<close>

record mq_env =
  mq_borrow :: "goerr option"              \<comment> \<open>error of borrowing a channel\<close>
  mq_seq :: tag
  mq_publish :: "nat \<Rightarrow> publish_event"
  mq_events :: "mq_event list"
  mq_buffered :: "string list"
  mq_ord :: "int64 list \<Rightarrow> int64 list"

definition failedAll :: "ExecutionTask list \<Rightarrow> string \<Rightarrow> BatchResult" where
  "failedAll tasks msg =
     \<lparr>SuccessIDs = [], FailedIDs = map tk_ExecutionID tasks, ErrorMessage = msg\<rparr>"

text \<open>The channel it used, as far as \<open>release\<close> looks at it, and the messages that went out.\<close>

record mq_trace =
  tr_borrowed :: bool
  tr_broken :: bool
  tr_sent :: "Publishing list"

definition BatchRun_full ::
  "mq_env \<Rightarrow> ExecutionTask list \<Rightarrow> (BatchResult \<times> goerr option) \<times> mq_trace" where
  "BatchRun_full env tasks =
     (if tasks = []
      then ((empty_result, None), \<lparr>tr_borrowed = False, tr_broken = False, tr_sent = []\<rparr>)
      else case mq_borrow env of
        Some e \<Rightarrow> ((failedAll tasks (Error e), Some e),
                   \<lparr>tr_borrowed = False, tr_broken = False, tr_sent = []\<rparr>)
      | None \<Rightarrow>
          (let (seq2id, publishErr, broken, sent) = publish_loop (mq_publish env) (mq_seq env) [] tasks;
               publishedIDs = map snd seq2id;
               (success, failed0, broken') = waitConfirms (mq_ord env) (mq_events env) (mq_buffered env) seq2id;
               failed = failed0 @ filter (\<lambda>i. i \<notin> set publishedIDs) (map tk_ExecutionID tasks);
               trace = \<lparr>tr_borrowed = True, tr_broken = broken \<or> broken', tr_sent = sent\<rparr>;
               result = \<lparr>SuccessIDs = success, FailedIDs = failed, ErrorMessage = ''''\<rparr>
           in case publishErr of
                Some e \<Rightarrow> ((result\<lparr>ErrorMessage := Error e\<rparr>, Some e), trace)
              | None \<Rightarrow>
                  ((if failed \<noteq> []
                    then result\<lparr>ErrorMessage := ''one or more messages were nack'' @ [CHR 0x27]
                                                 @ ''d, returned, or unconfirmed''\<rparr>
                    else result, None), trace)))"

definition BatchRun :: "mq_env \<Rightarrow> ExecutionTask list \<Rightarrow> BatchResult \<times> goerr option" where
  "BatchRun env tasks = fst (BatchRun_full env tasks)"

text \<open>\<open>None\<close> is Go's \<open>nil\<close>: the message was confirmed. \<open>BatchRun\<close> stands for the call the method
  makes.\<close>

definition Execute_with ::
  "(ExecutionTask list \<Rightarrow> BatchResult \<times> goerr option) \<Rightarrow> ExecutionRecord \<Rightarrow> string \<Rightarrow> goerr option" where
  "Execute_with batchRun record' caseName =
     (let task = \<lparr>tk_ExecutionID = er_ExecutionID record', tk_CaseID = er_CaseID record',
                  tk_CaseName = caseName, tk_Version = er_Version record'\<rparr>;
          (result, err) = batchRun [task]
      in case err of
           Some e \<Rightarrow> Some e
         | None \<Rightarrow>
             (case FailedIDs result of
                [] \<Rightarrow> None
              | i # _ \<Rightarrow>
                  Some (if ErrorMessage result \<noteq> '''' then ErrorsNew (ErrorMessage result)
                        else ErrorsNew (''execution_id='' @ FormatInt i @ '': publish nack'' @ [CHR 0x27] @ ''d''))))"

definition Execute :: "mq_env \<Rightarrow> ExecutionRecord \<Rightarrow> string \<Rightarrow> goerr option" where
  "Execute env = Execute_with (BatchRun env)"

subsection \<open>What the publishing loop leaves\<close>

definition pb_id :: "Publishing \<Rightarrow> int64" where
  "pb_id p = pl_ExecutionID (pb_Body p)"

lemma pb_id_publishing [simp]: "pb_id (publishing t) = tk_ExecutionID t"
  by (simp add: pb_id_def publishing_def)

lemma update_fresh: "k \<notin> fst ` set al \<Longrightarrow> AList.update k v al = al @ [(k, v)]"
  by (induction al) (auto split: prod.splits)

lemma tag_distinct: "Suc k < 2 ^ 64 \<Longrightarrow> seq + 1 + of_nat k \<noteq> (seq :: tag)"
proof
  assume k: "Suc k < 2 ^ 64" and "seq + 1 + of_nat k = seq"
  then have "of_nat (Suc k) = (0 :: tag)" by (simp add: algebra_simps)
  then have "2 ^ LENGTH(64) dvd Suc k" by (simp only: word_of_nat_eq_0_iff)
  with k show False by (auto dest: dvd_imp_le)
qed

lemma publish_loop_ids:
  assumes "publish_loop env seq m0 ts = (m, err, broken, ps)"
    and "\<forall>k < length ts. seq + of_nat k \<notin> fst ` set m0" and "length ts < 2 ^ 64"
  shows "map snd m = map snd m0 @ map pb_id ps \<and> (distinct (map fst m0) \<longrightarrow> distinct (map fst m)) \<and>
    set ps \<subseteq> publishing ` set ts \<and>
    (distinct (map tk_ExecutionID ts) \<longrightarrow> distinct (map pb_id ps))"
  using assms
proof (induction env seq m0 ts arbitrary: m err broken ps rule: publish_loop.induct)
  case (1 env seq m0)
  then show ?case by simp
next
  case (2 env seq m0 t ts)
  show ?case
  proof (cases "env 0")
    case (MarshalErr e)
    with 2 have "publish_loop (\<lambda>i. env (Suc i)) seq m0 ts = (m, err, broken, ps)" by simp
    from "2.IH"(1) [OF MarshalErr this] 2(4,5) show ?thesis by auto
  next
    case Sent
    have fresh: "seq \<notin> fst ` set m0" using 2(4) [rule_format, of 0] by simp
    let ?m1 = "m0 @ [(seq, tk_ExecutionID t)]"
    from 2(3) Sent obtain ps' where
      run: "publish_loop (\<lambda>i. env (Suc i)) (seq + 1) ?m1 ts = (m, err, broken, ps')"
      and ps: "ps = publishing t # ps'"
      by (auto simp: update_fresh [OF fresh] split: prod.splits)
    have "seq + 1 + of_nat k \<notin> fst ` set ?m1" if "k < length ts" for k
    proof -
      have "seq + of_nat (Suc k) \<notin> fst ` set m0" using 2(4) that by (auto simp del: of_nat_Suc)
      moreover have "seq + 1 + of_nat k \<noteq> seq" using that 2(5) by (intro tag_distinct) simp
      ultimately show ?thesis by (simp add: algebra_simps)
    qed
    with "2.IH"(2) [unfolded update_fresh [OF fresh], OF Sent run] 2(5)
    have ih: "map snd m = map snd ?m1 @ map pb_id ps'" "distinct (map fst ?m1) \<longrightarrow> distinct (map fst m)"
      "set ps' \<subseteq> publishing ` set ts" "distinct (map tk_ExecutionID ts) \<longrightarrow> distinct (map pb_id ps')"
      by auto
    have "pb_id ` set ps' \<subseteq> tk_ExecutionID ` set ts" using ih(3) by force
    with ih fresh ps show ?thesis by auto
  qed (use 2 in auto)
qed

text \<open>The \<open>k\<close>-th message that goes out carries the \<open>k\<close>-th tag.\<close>

lemma publish_loop_tags:
  assumes "publish_loop env seq m0 ts = (m, err, broken, ps)"
    and "\<forall>k < length ts. seq + of_nat k \<notin> fst ` set m0" and "length ts < 2 ^ 64"
  shows "m = m0 @ map (\<lambda>k. (seq + of_nat k, pb_id (ps ! k))) [0..<length ps]"
  using assms
proof (induction env seq m0 ts arbitrary: m err broken ps rule: publish_loop.induct)
  case (1 env seq m0)
  then show ?case by simp
next
  case (2 env seq m0 t ts)
  show ?case
  proof (cases "env 0")
    case (MarshalErr e)
    with 2 have "publish_loop (\<lambda>i. env (Suc i)) seq m0 ts = (m, err, broken, ps)" by simp
    from "2.IH"(1) [OF MarshalErr this] 2(4,5) show ?thesis by auto
  next
    case Sent
    have fresh: "seq \<notin> fst ` set m0" using 2(4) [rule_format, of 0] by simp
    let ?m1 = "m0 @ [(seq, tk_ExecutionID t)]"
    from 2(3) Sent obtain ps' where
      run: "publish_loop (\<lambda>i. env (Suc i)) (seq + 1) ?m1 ts = (m, err, broken, ps')"
      and ps: "ps = publishing t # ps'"
      by (auto simp: update_fresh [OF fresh] split: prod.splits)
    have "seq + 1 + of_nat k \<notin> fst ` set ?m1" if "k < length ts" for k
    proof -
      have "seq + of_nat (Suc k) \<notin> fst ` set m0" using 2(4) that by (auto simp del: of_nat_Suc)
      moreover have "seq + 1 + of_nat k \<noteq> seq" using that 2(5) by (intro tag_distinct) simp
      ultimately show ?thesis by (simp add: algebra_simps)
    qed
    with "2.IH"(2) [unfolded update_fresh [OF fresh], OF Sent run] 2(5)
    have "m = ?m1 @ map (\<lambda>k. (seq + 1 + of_nat k, pb_id (ps' ! k))) [0..<length ps']" by auto
    then show ?thesis by (simp add: ps upt_conv_Cons map_Suc_upt [symmetric] o_def algebra_simps del: upt_Suc)
  qed (use 2 in auto)
qed

subsection \<open>What waiting does\<close>

definition ws_all :: "wait_state \<Rightarrow> int64 multiset" where
  "ws_all s = mset (ws_success s) + mset (ws_failed s) + mset (map snd (ws_pending s))"

lemma delete_mset:
  "distinct (map fst al) \<Longrightarrow> (k, v) \<in> set al \<Longrightarrow>
     image_mset snd (mset al) = add_mset v (image_mset snd (mset (AList.delete k al)))"
proof (induction al)
  case Nil
  then show ?case by simp
next
  case (Cons x al)
  have "k \<notin> fst ` set al \<Longrightarrow> AList.delete k al = al" for k
    by (simp add: delete_id image_iff)
  with Cons show ?case by (cases x) (auto simp: rev_image_eqI)
qed

lemma confirm_all:
  "distinct (map fst (ws_pending s)) \<Longrightarrow>
     ws_all (confirm t ack s) = ws_all s \<and> distinct (map fst (ws_pending (confirm t ack s)))"
  by (auto simp: confirm_def ws_all_def Let_def delete_mset distinct_delete split: option.splits)

lemma wait_loop_all:
  assumes "wait_loop ord es s = (s', through)" and "distinct (map fst (ws_pending s))"
  shows "mset (ws_success s') + mset (ws_failed s') = ws_all s \<and> (through \<longrightarrow> ws_broken s' = ws_broken s)
    \<and> (\<not> through \<longrightarrow> ws_broken s')"
  using assms
proof (induction ord es s rule: wait_loop.induct)
  case (1 ord s)
  then show ?case by (auto simp: ws_all_def give_up_def split: if_splits)
next
  case (2 ord e es s)
  have conf: "ws_broken (confirm t ack s) = ws_broken s" for t ack
    by (simp add: confirm_def Let_def split: option.splits)
  show ?case
  proof (cases "ws_pending s = []")
    case True
    with 2(4) show ?thesis by (simp add: ws_all_def)
  next
    case False
    with 2 show ?thesis
      by (cases e) (auto simp: ws_all_def [of "s\<lparr>ws_returned := r\<rparr>" for r]
        ws_all_def [of "s\<lparr>ws_returnsOpen := b\<rparr>" for b] ws_all_def [of s] give_up_def confirm_all conf)
  qed
qed

lemma reclassify_mset:
  "reclassify returned failed success = (ok, bad) \<Longrightarrow> distinct (failed @ success) \<Longrightarrow>
     mset ok + mset bad = mset failed + mset success \<and> set ok = set success - set returned"
proof (induction success arbitrary: failed ok bad)
  case Nil
  then show ?case by simp
next
  case (Cons i success)
  show ?case
  proof (cases "i \<in> set returned")
    case True
    with Cons.prems have "reclassify returned (failed @ [i]) success = (ok, bad)" "distinct ((failed @ [i]) @ success)"
      by auto
    from Cons.IH [OF this] True show ?thesis by auto
  next
    case False
    with Cons.prems obtain ok' where r: "reclassify returned failed success = (ok', bad)" "ok = i # ok'"
      by (auto split: prod.splits)
    with Cons.IH [OF r(1)] Cons.prems False show ?thesis by auto
  qed
qed

lemma waitConfirms_mset:
  assumes "waitConfirms ord es buf m = (ok, bad, broken)" and "distinct (map fst m)" and "distinct (map snd m)"
  shows "mset ok + mset bad = mset (map snd m)"
proof (cases "m = []")
  case True
  with assms(1) show ?thesis by (simp add: waitConfirms_def)
next
  case False
  let ?s0 = "\<lparr>ws_pending = m, ws_returned = [], ws_returnsOpen = True, ws_success = [], ws_failed = [],
      ws_broken = False\<rparr>"
  obtain s through where w: "wait_loop ord es ?s0 = (s, through)" by (cases "wait_loop ord es ?s0")
  with wait_loop_all [OF w] assms(2) have all: "mset (ws_success s) + mset (ws_failed s) = mset (map snd m)"
    by (simp add: ws_all_def)
  then have "mset (ws_failed s @ ws_success s) = mset (map snd m)" by (simp add: add.commute)
  then have d: "distinct (ws_failed s @ ws_success s)" using assms(3) mset_eq_imp_distinct_iff by blast
  have "mset x + mset y = mset (map snd m)" if "reclassify ret (ws_failed s) (ws_success s) = (x, y)" for ret x y
    using reclassify_mset [OF that d] all by (simp add: add.commute)
  with assms(1) False w all show ?thesis
    by (auto simp: waitConfirms_def Let_def split: if_splits prod.splits)
qed

lemma BatchRun_ids:
  assumes "tasks \<noteq> []" and "mq_borrow env = None"
    and "publish_loop (mq_publish env) (mq_seq env) [] tasks = (m, err, broken, ps)"
    and "waitConfirms (mq_ord env) (mq_events env) (mq_buffered env) m = (ok, bad, broken')"
  shows "SuccessIDs (fst (BatchRun env tasks)) = ok"
    and "FailedIDs (fst (BatchRun env tasks)) =
      bad @ filter (\<lambda>i. i \<notin> set (map snd m)) (map tk_ExecutionID tasks)"
    and "snd (BatchRun env tasks) = err"
    and "snd (BatchRun_full env tasks) = \<lparr>tr_borrowed = True, tr_broken = broken \<or> broken', tr_sent = ps\<rparr>"
  using assms by (simp_all add: BatchRun_def BatchRun_full_def Let_def split: option.splits)

text \<open>Every task is in exactly one partition of the result.\<close>

lemma BatchRun_mset:
  assumes "distinct (map tk_ExecutionID tasks)" and "length tasks < 2 ^ 64"
  shows "mset (SuccessIDs (fst (BatchRun env tasks))) + mset (FailedIDs (fst (BatchRun env tasks)))
    = mset (map tk_ExecutionID tasks)"
proof (cases "tasks = [] \<or> mq_borrow env \<noteq> None")
  case True
  then show ?thesis by (auto simp: BatchRun_def BatchRun_full_def failedAll_def empty_result_def)
next
  case False
  obtain m err broken ps where p: "publish_loop (mq_publish env) (mq_seq env) [] tasks = (m, err, broken, ps)"
    by (metis surj_pair)
  obtain ok bad broken' where w: "waitConfirms (mq_ord env) (mq_events env) (mq_buffered env) m = (ok, bad, broken')"
    by (metis surj_pair)
  from publish_loop_ids [OF p] assms have ids: "map snd m = map pb_id ps" "distinct (map fst m)"
    "distinct (map pb_id ps)" "set ps \<subseteq> publishing ` set tasks" by auto
  have sub: "set (map snd m) \<subseteq> set (map tk_ExecutionID tasks)" using ids(1,4) by force
  have "mset (map snd m) = mset (filter (\<lambda>i. i \<in> set (map snd m)) (map tk_ExecutionID tasks))"
    using ids(1,3) assms(1) sub by (intro set_eq_iff_mset_eq_distinct [THEN iffD1]) auto
  then have "mset (map tk_ExecutionID tasks) =
      mset (map snd m) + mset (filter (\<lambda>i. i \<notin> set (map snd m)) (map tk_ExecutionID tasks))"
    by (metis mset_filter multiset_partition)
  moreover have "mset ok + mset bad = mset (map snd m)"
    using waitConfirms_mset [OF w ids(2)] ids(1,3) by simp
  ultimately have "mset ok + (mset bad + mset (filter (\<lambda>i. i \<notin> set (map snd m)) (map tk_ExecutionID tasks)))
      = mset (map tk_ExecutionID tasks)" by (simp add: add.assoc [symmetric])
  with False BatchRun_ids [OF _ _ p w] show ?thesis by simp
qed

subsection \<open>Only acknowledged messages succeed\<close>

lemma confirm_pending: "set (ws_pending (confirm t ack s)) \<subseteq> set (ws_pending s)"
  by (auto simp: confirm_def Let_def AList.delete_eq split: option.splits)

lemma confirm_success:
  "i \<in> set (ws_success (confirm t ack s)) \<Longrightarrow>
     i \<in> set (ws_success s) \<or> (ack \<and> (t, i) \<in> set (ws_pending s))"
  by (auto simp: confirm_def Let_def split: option.splits if_splits dest: map_of_SomeD)

lemma wait_loop_success:
  "wait_loop ord es s = (s', through) \<Longrightarrow> i \<in> set (ws_success s') \<Longrightarrow>
     i \<in> set (ws_success s) \<or> (\<exists>t. (t, i) \<in> set (ws_pending s) \<and> Confirm t True \<in> set es)"
proof (induction ord es s rule: wait_loop.induct)
  case (1 ord s)
  then show ?case by (auto simp: give_up_def split: if_splits)
next
  case (2 ord e es s)
  show ?case
  proof (cases "ws_pending s = []")
    case True
    with 2(4,5) show ?thesis by simp
  next
    case False
    show ?thesis
    proof (cases e)
      case (Confirm t ack)
      with 2(3) [OF False Confirm] 2(4,5) False
      have "i \<in> set (ws_success (confirm t ack s)) \<or>
          (\<exists>u. (u, i) \<in> set (ws_pending (confirm t ack s)) \<and> Confirm u True \<in> set es)" by simp
      with Confirm confirm_success [of i t ack s] confirm_pending [of t ack s] show ?thesis by auto
    qed (use 2 False in \<open>auto simp: give_up_def split: if_splits\<close>)
  qed
qed

lemma waitConfirms_success:
  assumes "waitConfirms ord es buf m = (ok, bad, broken)" and "distinct (map fst m)" and "distinct (map snd m)"
    and "i \<in> set ok"
  shows "\<exists>t. (t, i) \<in> set m \<and> Confirm t True \<in> set es"
proof (cases "m = []")
  case True
  with assms(1,4) show ?thesis by (simp add: waitConfirms_def)
next
  case False
  let ?s0 = "\<lparr>ws_pending = m, ws_returned = [], ws_returnsOpen = True, ws_success = [], ws_failed = [],
      ws_broken = False\<rparr>"
  obtain s through where w: "wait_loop ord es ?s0 = (s, through)" by (cases "wait_loop ord es ?s0")
  with wait_loop_all [OF w] assms(2) have "mset (ws_success s) + mset (ws_failed s) = mset (map snd m)"
    by (simp add: ws_all_def)
  then have "mset (ws_failed s @ ws_success s) = mset (map snd m)" by (simp add: add.commute)
  then have d: "distinct (ws_failed s @ ws_success s)" using assms(3) mset_eq_imp_distinct_iff by blast
  have "x \<in> set (ws_success s)" if "reclassify ret (ws_failed s) (ws_success s) = (y, z)" "x \<in> set y" for ret x y z
    using reclassify_mset [OF that(1) d] that(2) by simp
  with assms(1,4) False w have "i \<in> set (ws_success s)"
    by (auto simp: waitConfirms_def Let_def split: if_splits prod.splits)
  with wait_loop_success [OF w] show ?thesis by simp
qed

lemma BatchRun_acked:
  assumes ids: "distinct (map tk_ExecutionID tasks)" "length tasks < 2 ^ 64"
    and i: "i \<in> set (SuccessIDs (fst (BatchRun env tasks)))"
  shows "\<exists>t \<in> set tasks. \<exists>k < length (tr_sent (snd (BatchRun_full env tasks))). tk_ExecutionID t = i \<and>
    tr_sent (snd (BatchRun_full env tasks)) ! k = publishing t \<and>
    Confirm (mq_seq env + of_nat k) True \<in> set (mq_events env)"
proof -
  from i have ne: "tasks \<noteq> []" "mq_borrow env = None"
    by (auto simp: BatchRun_def BatchRun_full_def failedAll_def empty_result_def
        split: option.splits if_splits)
  obtain m err broken ps where p: "publish_loop (mq_publish env) (mq_seq env) [] tasks = (m, err, broken, ps)"
    by (metis surj_pair)
  obtain ok bad broken' where w: "waitConfirms (mq_ord env) (mq_events env) (mq_buffered env) m = (ok, bad, broken')"
    by (metis surj_pair)
  from publish_loop_ids [OF p] ids have m: "map snd m = map pb_id ps" "distinct (map fst m)"
    "distinct (map snd m)" "set ps \<subseteq> publishing ` set tasks" by auto
  from i BatchRun_ids(1) [OF ne p w] have "i \<in> set ok" by simp
  from waitConfirms_success [OF w m(2,3) this] obtain tag where tag: "(tag, i) \<in> set m"
    "Confirm tag True \<in> set (mq_events env)" by blast
  from tag(1) publish_loop_tags [OF p] ids(2) obtain k where
    k: "k < length ps" "tag = mq_seq env + of_nat k" "i = pb_id (ps ! k)" by auto
  from k(1) m(4) obtain t where "t \<in> set tasks" "ps ! k = publishing t" by (meson imageE nth_mem subsetD)
  with k tag(2) BatchRun_ids(4) [OF ne p w] show ?thesis by (intro bexI [of _ t] exI [of _ k]) auto
qed

subsection \<open>Returned messages fail\<close>

text \<open>Whether the loop still waits after the events \<open>es\<close>.\<close>

definition wait_start :: "seq_map \<Rightarrow> wait_state" where
  "wait_start m = \<lparr>ws_pending = m, ws_returned = [], ws_returnsOpen = True, ws_success = [],
     ws_failed = [], ws_broken = False\<rparr>"

definition seen_return :: "mq_env \<Rightarrow> ExecutionTask list \<Rightarrow> string \<Rightarrow> bool" where
  "seen_return env tasks messageId \<longleftrightarrow>
     messageId \<in> set (mq_buffered env) \<or>
     (\<exists>es1 es2. mq_events env = es1 @ Returned messageId # es2 \<and>
        \<not> snd (wait_loop (mq_ord env) es1
                 (wait_start (fst (publish_loop (mq_publish env) (mq_seq env) [] tasks)))))"

lemma confirm_returns: "ws_returned (confirm t ack s) = ws_returned s"
  "ws_returnsOpen (confirm t ack s) = ws_returnsOpen s"
  by (simp_all add: confirm_def Let_def split: option.splits)

lemma set_note_return: "set r \<subseteq> set (note_return m r)"
  by (auto simp: note_return_def split: option.splits)

lemma wait_loop_returned_mono:
  "wait_loop ord es s = (s', through) \<Longrightarrow> set (ws_returned s) \<subseteq> set (ws_returned s')"
proof (induction ord es s rule: wait_loop.induct)
  case (1 ord s)
  then show ?case by (auto simp: give_up_def split: if_splits)
next
  case (2 ord e es s)
  then show ?case
    by (cases "ws_pending s = []"; cases e)
      (use set_note_return in \<open>fastforce simp: give_up_def confirm_returns split: if_splits\<close>)+
qed

lemma wait_loop_open:
  "wait_loop ord es s = (s', through) \<Longrightarrow> ws_returnsOpen s \<Longrightarrow> ReturnsClosed \<notin> set es \<Longrightarrow> ws_returnsOpen s'"
proof (induction ord es s rule: wait_loop.induct)
  case (1 ord s)
  then show ?case by (auto simp: give_up_def split: if_splits)
next
  case (2 ord e es s)
  then show ?case
    by (cases "ws_pending s = []"; cases e) (auto simp: give_up_def confirm_returns)
qed

lemma wait_loop_sees:
  assumes "wait_loop ord (es1 @ Returned messageId # es2) s = (s', True)"
    and "\<not> snd (wait_loop ord es1 s)" and "ws_returnsOpen s" and "ReturnsClosed \<notin> set es1"
    and "ParseInt messageId = Some i"
  shows "i \<in> set (ws_returned s')"
  using assms
proof (induction es1 arbitrary: s)
  case Nil
  then have "wait_loop ord es2 (s\<lparr>ws_returned := i # ws_returned s\<rparr>) = (s', True)"
    by (auto simp: note_return_def executionIDFromReturn_def split: if_splits)
  from wait_loop_returned_mono [OF this] show ?case by simp
next
  case (Cons e es1)
  from Cons.prems(2) have ne: "ws_pending s \<noteq> []" by auto
  show ?case
  proof (cases e)
    case (Returned x)
    let ?s = "s\<lparr>ws_returned := note_return x (ws_returned s)\<rparr>"
    show ?thesis by (rule Cons.IH [of ?s]) (use Cons.prems ne Returned in auto)
  next
    case ReturnsClosed
    with Cons.prems(4) show ?thesis by simp
  next
    case (Confirm t ack)
    show ?thesis by (rule Cons.IH [of "confirm t ack s"]) (use Cons.prems ne Confirm in \<open>auto simp: confirm_returns\<close>)
  qed (use Cons.prems ne in auto)
qed

lemma fold_note_return_mono: "set r \<subseteq> set (fold note_return ms r)"
proof (induction ms arbitrary: r)
  case (Cons m ms)
  from set_note_return [of r m] Cons [of "note_return m r"] show ?case by auto
qed simp

lemma fold_note_return:
  "ParseInt m = Some i \<Longrightarrow> m \<in> set ms \<Longrightarrow> i \<in> set (fold note_return ms r)"
proof (induction ms arbitrary: r)
  case (Cons x ms)
  have "ParseInt x = Some i \<Longrightarrow> i \<in> set (note_return x r)"
    by (simp add: note_return_def executionIDFromReturn_def)
  with Cons fold_note_return_mono [of "note_return x r" ms] show ?case by auto
qed simp

lemma BatchRun_returned:
  assumes ids: "distinct (map tk_ExecutionID tasks)" "length tasks < 2 ^ 64"
    and healthy: "\<not> tr_broken (snd (BatchRun_full env tasks))" and opened: "ReturnsClosed \<notin> set (mq_events env)"
    and seen: "seen_return env tasks messageId" and parses: "ParseInt messageId = Some i"
  shows "i \<notin> set (SuccessIDs (fst (BatchRun env tasks)))"
proof
  assume i: "i \<in> set (SuccessIDs (fst (BatchRun env tasks)))"
  then have ne: "tasks \<noteq> []" "mq_borrow env = None"
    by (auto simp: BatchRun_def BatchRun_full_def failedAll_def empty_result_def
        split: option.splits if_splits)
  obtain m err broken ps where p: "publish_loop (mq_publish env) (mq_seq env) [] tasks = (m, err, broken, ps)"
    by (metis surj_pair)
  obtain ok bad broken' where w: "waitConfirms (mq_ord env) (mq_events env) (mq_buffered env) m = (ok, bad, broken')"
    by (metis surj_pair)
  from publish_loop_ids [OF p] ids have m: "map snd m = map pb_id ps" "distinct (map fst m)"
    "distinct (map snd m)" by auto
  from i BatchRun_ids(1) [OF ne p w] have ok: "i \<in> set ok" by simp
  with w have m0: "m \<noteq> []" by (auto simp: waitConfirms_def)
  obtain s through where l: "wait_loop (mq_ord env) (mq_events env) (wait_start m) = (s, through)"
    by (metis surj_pair)
  note all = wait_loop_all [OF l]
  have "mset (ws_failed s @ ws_success s) = mset (map snd m)"
    using all m(2) by (simp add: ws_all_def wait_start_def add.commute)
  then have d: "distinct (ws_failed s @ ws_success s)" using m(3) mset_eq_imp_distinct_iff by blast
  have "broken' = ws_broken s"
    using w m0 l by (auto simp: waitConfirms_def wait_start_def Let_def split: if_splits prod.splits)
  with healthy BatchRun_ids(4) [OF ne p w] all m(2) have through: through by (auto simp: wait_start_def)
  have o: "ws_returnsOpen s" using wait_loop_open [OF l] opened by (simp add: wait_start_def)
  let ?ret = "fold note_return (mq_buffered env) (ws_returned s)"
  have "i \<in> set ?ret"
  proof (cases "messageId \<in> set (mq_buffered env)")
    case True
    with fold_note_return [OF parses] show ?thesis by blast
  next
    case False
    with seen p obtain es1 es2 where es: "mq_events env = es1 @ Returned messageId # es2"
      "\<not> snd (wait_loop (mq_ord env) es1 (wait_start m))" by (auto simp: seen_return_def)
    have "i \<in> set (ws_returned s)"
      by (rule wait_loop_sees [OF _ es(2)]) (use l es opened parses through in \<open>auto simp: wait_start_def\<close>)
    with fold_note_return_mono show ?thesis by blast
  qed
  then have "?ret \<noteq> []" by auto
  moreover obtain x y where r: "reclassify ?ret (ws_failed s) (ws_success s) = (x, y)" by (metis surj_pair)
  ultimately have "ok = x"
    using w m0 l through o by (simp add: waitConfirms_def wait_start_def split: if_splits)
  with reclassify_mset [OF r d] ok \<open>i \<in> set ?ret\<close> show False by simp
qed

subsection \<open>Single messages\<close>

definition execute_task :: "ExecutionRecord \<Rightarrow> string \<Rightarrow> ExecutionTask" where
  "execute_task r caseName =
     \<lparr>tk_ExecutionID = er_ExecutionID r, tk_CaseID = er_CaseID r, tk_CaseName = caseName,
      tk_Version = er_Version r\<rparr>"

lemma BatchRun_single_error:
  assumes "snd (BatchRun env [t]) \<noteq> None"
  shows "SuccessIDs (fst (BatchRun env [t])) = []"
proof (cases "mq_borrow env")
  case (Some e)
  then show ?thesis by (simp add: BatchRun_def BatchRun_full_def failedAll_def)
next
  case None
  obtain m err broken ps where p: "publish_loop (mq_publish env) (mq_seq env) [] [t] = (m, err, broken, ps)"
    by (metis surj_pair)
  obtain ok bad broken' where w: "waitConfirms (mq_ord env) (mq_events env) (mq_buffered env) m = (ok, bad, broken')"
    by (metis surj_pair)
  note b = BatchRun_ids [OF _ None p w]
  from assms b(3) have "err \<noteq> None" by simp
  with p have "m = []" by (auto split: publish_event.splits prod.splits)
  with w b(1) show ?thesis by (simp add: waitConfirms_def)
qed

lemma Execute_iff:
  "Execute env r caseName = None \<longleftrightarrow>
     er_ExecutionID r \<in> set (SuccessIDs (fst (BatchRun env [execute_task r caseName])))"
proof -
  let ?t = "execute_task r caseName"
  obtain res err where b: "BatchRun env [?t] = (res, err)" by (metis surj_pair)
  have parts: "mset (SuccessIDs res) + mset (FailedIDs res) = {#er_ExecutionID r#}"
    using BatchRun_mset [of "[?t]" env] b by (simp add: execute_task_def)
  have "Execute env r caseName = None \<longleftrightarrow> err = None \<and> FailedIDs res = []"
    using b by (auto simp: Execute_def Execute_with_def execute_task_def split: option.splits list.splits)
  moreover have "FailedIDs res = [] \<longleftrightarrow> er_ExecutionID r \<in> set (SuccessIDs res)"
  proof
    assume "FailedIDs res = []"
    with parts have "mset (SuccessIDs res) = {#er_ExecutionID r#}" by simp
    then show "er_ExecutionID r \<in> set (SuccessIDs res)" by (metis set_mset_mset set_mset_single singletonI set_mset_add_mset_insert insertI1)
  next
    assume "er_ExecutionID r \<in> set (SuccessIDs res)"
    then have "er_ExecutionID r \<in># mset (SuccessIDs res)" by simp
    then obtain M where "mset (SuccessIDs res) = add_mset (er_ExecutionID r) M" by (metis mset_add)
    with parts show "FailedIDs res = []" by simp
  qed
  moreover have "er_ExecutionID r \<in> set (SuccessIDs res) \<Longrightarrow> err = None"
    using BatchRun_single_error [of env ?t] b by (cases err) auto
  ultimately show ?thesis using b by auto
qed

subsection \<open>The contract of the port\<close>

text \<open>
  What \<open>port.UtCaseExecutorClient\<close> promises the use cases: the result splits the tasks, and a
  success was sent and acknowledged. The use cases may count on it for whatever publisher is
  plugged in; the RabbitMQ client is one.
\<close>

locale executor_port =
  fixes batch_run :: "'e \<Rightarrow> ExecutionTask list \<Rightarrow> BatchResult \<times> goerr option"
    and accepted :: "'e \<Rightarrow> ExecutionTask list \<Rightarrow> int64 \<Rightarrow> bool"
  assumes splits: "distinct (map tk_ExecutionID ts) \<Longrightarrow> length ts < 2 ^ 64 \<Longrightarrow>
      mset (SuccessIDs (fst (batch_run e ts))) + mset (FailedIDs (fst (batch_run e ts)))
        = mset (map tk_ExecutionID ts)"
    and confirmed: "distinct (map tk_ExecutionID ts) \<Longrightarrow> length ts < 2 ^ 64 \<Longrightarrow>
      i \<in> set (SuccessIDs (fst (batch_run e ts))) \<Longrightarrow> accepted e ts i"
begin

lemma success_or_failed:
  assumes "distinct (map tk_ExecutionID ts)" and "length ts < 2 ^ 64"
  shows "set (SuccessIDs (fst (batch_run e ts))) \<union> set (FailedIDs (fst (batch_run e ts))) = set (map tk_ExecutionID ts)"
    and "set (SuccessIDs (fst (batch_run e ts))) \<inter> set (FailedIDs (fst (batch_run e ts))) = {}"
    and "distinct (SuccessIDs (fst (batch_run e ts)))" and "distinct (FailedIDs (fst (batch_run e ts)))"
proof -
  let ?s = "SuccessIDs (fst (batch_run e ts))" and ?f = "FailedIDs (fst (batch_run e ts))"
  have m: "mset (?s @ ?f) = mset (map tk_ExecutionID ts)" using splits [OF assms] by simp
  then show "set ?s \<union> set ?f = set (map tk_ExecutionID ts)" by (metis set_append set_mset_mset)
  from m assms(1) have "distinct (?s @ ?f)" using mset_eq_imp_distinct_iff by blast
  then show "set ?s \<inter> set ?f = {}" "distinct ?s" "distinct ?f" by auto
qed

lemma silent_is_failed:
  assumes "distinct (map tk_ExecutionID ts)" and "length ts < 2 ^ 64" and "t \<in> set ts"
    and "\<not> accepted e ts (tk_ExecutionID t)"
  shows "tk_ExecutionID t \<in> set (FailedIDs (fst (batch_run e ts)))"
  using success_or_failed(1) [OF assms(1,2)] confirmed [OF assms(1,2)] assms(3,4) by fastforce

end

definition broker_accepted :: "mq_env \<Rightarrow> ExecutionTask list \<Rightarrow> int64 \<Rightarrow> bool" where
  "broker_accepted env tasks i \<longleftrightarrow>
     (\<exists>t \<in> set tasks. \<exists>k < length (tr_sent (snd (BatchRun_full env tasks))). tk_ExecutionID t = i \<and>
        tr_sent (snd (BatchRun_full env tasks)) ! k = publishing t \<and>
        Confirm (mq_seq env + of_nat k) True \<in> set (mq_events env))"

interpretation rabbit: executor_port BatchRun broker_accepted
  by unfold_locales (rule BatchRun_mset BatchRun_acked [folded broker_accepted_def]; assumption)+

subsection \<open>Properties\<close>

definition demo_tasks :: "ExecutionTask list" where
  "demo_tasks = [\<lparr>tk_ExecutionID = 1, tk_CaseID = 10, tk_CaseName = ''a'', tk_Version = ''v1''\<rparr>,
     \<lparr>tk_ExecutionID = 2, tk_CaseID = 11, tk_CaseName = ''b'', tk_Version = ''v1''\<rparr>]"

definition demo_env :: "mq_event list \<Rightarrow> string list \<Rightarrow> mq_env" where
  "demo_env es buf = \<lparr>mq_borrow = None, mq_seq = 1, mq_publish = (\<lambda>_. Sent), mq_events = es,
     mq_buffered = buf, mq_ord = (\<lambda>xs. xs)\<rparr>"

lemma FormatInt_one: "FormatInt 1 = ''1''"
  by code_simp

lemma demo_tasks_ok: "distinct (map tk_ExecutionID demo_tasks)" "length demo_tasks < 2 ^ 64"
  by (simp_all add: demo_tasks_def)

text \<open>C16: Whatever the broker, the network and the context do (borrowing fails, a payload does not
  marshal, publishing breaks off, confirms are missing, negative, late or out of order, messages
  are returned, the channel closes), \<open>BatchRun\<close> puts every task of the batch into exactly one of its
  two result lists, once.\<close>

theorem BatchRun_partition:
  assumes "distinct (map tk_ExecutionID tasks)" and "length tasks < 2 ^ 64"
  shows "mset (SuccessIDs (fst (BatchRun env tasks))) + mset (FailedIDs (fst (BatchRun env tasks)))
    = mset (map tk_ExecutionID tasks)"
  by (rule BatchRun_mset [OF assms])

theorem BatchRun_partition_witness:
  "mset (SuccessIDs (fst (BatchRun (demo_env [Confirm 2 True, CtxDone] []) demo_tasks))) +
   mset (FailedIDs (fst (BatchRun (demo_env [Confirm 2 True, CtxDone] []) demo_tasks))) = {#1, 2#}"
  using BatchRun_partition [OF demo_tasks_ok] by (simp add: demo_tasks_def)

text \<open>C17: A task that \<open>BatchRun\<close> reports as a success was handed to the channel, as the \<open>k\<close>-th message
  for some \<open>k\<close>, and the broker confirmed positively the tag of that very message.\<close>

theorem BatchRun_success_confirmed:
  assumes "distinct (map tk_ExecutionID tasks)" and "length tasks < 2 ^ 64"
    and "i \<in> set (SuccessIDs (fst (BatchRun env tasks)))"
  shows "\<exists>t \<in> set tasks. \<exists>k < length (tr_sent (snd (BatchRun_full env tasks))). tk_ExecutionID t = i \<and>
    tr_sent (snd (BatchRun_full env tasks)) ! k = publishing t \<and>
    Confirm (mq_seq env + of_nat k) True \<in> set (mq_events env)"
  by (rule BatchRun_acked [OF assms])

theorem BatchRun_success_confirmed_witness:
  "\<exists>k. tr_sent (snd (BatchRun_full (demo_env [Confirm 2 True, CtxDone] []) demo_tasks)) ! k
      = publishing (demo_tasks ! 1) \<and> Confirm (1 + of_nat k) True \<in> {Confirm 2 True, CtxDone}"
proof -
  let ?env = "demo_env [Confirm 2 True, CtxDone] []"
  have "2 \<in> set (SuccessIDs (fst (BatchRun ?env demo_tasks)))" by code_simp
  from BatchRun_success_confirmed [OF demo_tasks_ok this] show ?thesis
    by (auto simp: demo_tasks_def demo_env_def)
qed

text \<open>C18: While the channel stays healthy, a message that the broker returned as unroutable is never
  reported as a success, whether the return is taken before or after the confirm of its message or
  only when the last confirm is in.\<close>

theorem BatchRun_returned_fails:
  assumes "distinct (map tk_ExecutionID tasks)" and "length tasks < 2 ^ 64"
    and "t \<in> set tasks" and "- (2 ^ 63) \<le> tk_ExecutionID t" and "tk_ExecutionID t < 2 ^ 63"
    and "seen_return env tasks (pb_MessageId (publishing t))" and "ReturnsClosed \<notin> set (mq_events env)"
    and "\<not> tr_broken (snd (BatchRun_full env tasks))"
  shows "tk_ExecutionID t \<in> set (FailedIDs (fst (BatchRun env tasks))) \<and>
    tk_ExecutionID t \<notin> set (SuccessIDs (fst (BatchRun env tasks)))"
proof -
  have "ParseInt (pb_MessageId (publishing t)) = Some (tk_ExecutionID t)"
    using ParseInt_FormatInt [OF assms(4,5)] by (simp add: publishing_def)
  from BatchRun_returned [OF assms(1,2,8,7,6) this] rabbit.success_or_failed(1) [OF assms(1,2)] assms(3)
  show ?thesis by fastforce
qed

theorem BatchRun_returned_fails_witness:
  "1 \<in> set (FailedIDs (fst (BatchRun (demo_env [Confirm 1 True, Confirm 2 True] [''1'']) demo_tasks)))"
proof -
  let ?env = "demo_env [Confirm 1 True, Confirm 2 True] [''1'']"
  have "pb_MessageId (publishing (hd demo_tasks)) = ''1''"
    by (simp add: publishing_def demo_tasks_def FormatInt_one)
  moreover have "\<not> tr_broken (snd (BatchRun_full ?env demo_tasks))" by code_simp
  ultimately show ?thesis
    using BatchRun_returned_fails [OF demo_tasks_ok, of "hd demo_tasks" ?env]
    by (simp add: demo_tasks_def seen_return_def demo_env_def)
qed

text \<open>C19: The guarantee ends where the loop is left early: there is a run in which the broker acknowledges
  the first of two messages and returns it as unroutable, the acknowledgement is taken first, and the
  context ends before the second confirm. The buffered return is not read any more, and the
  message that reached no queue is reported as a success.\<close>

theorem unroutable_reported_as_success:
  "\<exists>env tasks t. t \<in> set tasks \<and> distinct (map tk_ExecutionID tasks) \<and>
     pb_MessageId (publishing t) \<in> set (mq_buffered env) \<and>
     tk_ExecutionID t \<in> set (SuccessIDs (fst (BatchRun env tasks))) \<and> snd (BatchRun env tasks) = None"
proof (intro exI conjI)
  let ?env = "demo_env [Confirm 1 True, CtxDone] [''1'']"
  show "hd demo_tasks \<in> set demo_tasks" by (simp add: demo_tasks_def)
  show "distinct (map tk_ExecutionID demo_tasks)" by (rule demo_tasks_ok)
  show "pb_MessageId (publishing (hd demo_tasks)) \<in> set (mq_buffered ?env)"
    by (simp add: publishing_def demo_tasks_def FormatInt_one demo_env_def)
  show "tk_ExecutionID (hd demo_tasks) \<in> set (SuccessIDs (fst (BatchRun ?env demo_tasks)))" by code_simp
  show "snd (BatchRun ?env demo_tasks) = None" by code_simp
qed

text \<open>\<open>Execute\<close> reports no error exactly when \<open>BatchRun\<close> puts the one task into the success list.\<close>

theorem Execute_agrees_with_BatchRun:
  "Execute env r caseName = None \<longleftrightarrow>
     er_ExecutionID r \<in> set (SuccessIDs (fst (BatchRun env [execute_task r caseName])))"
  by (rule Execute_iff)

end
