(* ===== verification/Dispatch_Service.thy ===== *)
theory Dispatch_Service
  imports Leases Ut_Case_Repository Rabbit_Client
begin

text \<open>
  The dispatch use cases (\<open>usecase/dispatch_app_service.go\<close>): defaults, request ids, the
  single-case dispatch in three phases, and the three phases of one chunk of a batch. The
  publisher is an argument (the port's \<open>Execute\<close> or \<open>BatchRun\<close>); the clock is read through
  arguments; what a cancelled context does to a statement is one of the outcomes of the world.
  The pipeline around the chunks is in \<open>Dispatch_Stream\<close>.
\<close>

subsection \<open>Configuration and helpers\<close>

record DispatchConfig =
  dc_BatchSize :: int
  dc_WorkerCount :: int
  dc_MaxConcurrentBatches :: int
  dc_OutboxFastPathGrace :: duration

definition DispatchConfig_withDefaults :: "DispatchConfig \<Rightarrow> DispatchConfig" where
  "DispatchConfig_withDefaults c =
     c\<lparr>dc_BatchSize := (if dc_BatchSize c \<le> 0 then 1000 else dc_BatchSize c),
       dc_WorkerCount := (if dc_WorkerCount c \<le> 0 then 4 else dc_WorkerCount c),
       dc_MaxConcurrentBatches := (if dc_MaxConcurrentBatches c \<le> 0 then 8 else dc_MaxConcurrentBatches c),
       dc_OutboxFastPathGrace :=
         (if dc_OutboxFastPathGrace c \<le>s 0 then 10 * Second else dc_OutboxFastPathGrace c)\<rparr>"

text \<open>\<open>rand\<close> is what \<open>rand.Read\<close> of 16 bytes yields.\<close>

definition NormalizeRequestID :: "goerr + byte list \<Rightarrow> string \<Rightarrow> goerr + string" where
  "NormalizeRequestID rand requestID =
     (let requestID = TrimSpace requestID in
      if 64 < length requestID then Inl (NewInvalidArgument ''request_id must not exceed 64 bytes'')
      else if requestID \<noteq> '''' then Inr requestID
      else case rand of
             Inl e \<Rightarrow> Inl (wrap_prefix ''generate request_id: '' e)
           | Inr random \<Rightarrow> Inr (hex_encode random))"

definition replayDispatchedStatus ::
  "OutboxMessage option \<Rightarrow> ExecutionRecord \<Rightarrow> ExecutionStatus \<times> bool" where
  "replayDispatchedStatus message record' =
     (case message of
        Some m \<Rightarrow> ReplayStatus m
      | None \<Rightarrow>
          (if er_ExecutionStatus record' = StatusDispatchFailed then (StatusDispatchFailed, True)
           else if er_ExecutionStatus record' = StatusFailed \<or> er_ExecutionStatus record' = StatusRunning
                   \<or> er_ExecutionStatus record' = StatusSuccess then (StatusWait, True)
           else ('''', False)))"

definition extractExecutionIDs :: "ExecutionRecord list \<Rightarrow> int64 list" where
  "extractExecutionIDs records = map er_ExecutionID records"

text \<open>The two maps of the code are the sets \<open>failed\<close> and \<open>success\<close>.\<close>

fun complete_loop ::
  "int64 list \<Rightarrow> int64 list \<Rightarrow> ExecutionRecord list \<Rightarrow> int64 list \<times> int64 list \<Rightarrow> int64 list \<times> int64 list" where
  "complete_loop failed success [] (ok, bad) = (ok, bad)"
| "complete_loop failed success (r # rs) (ok, bad) =
     (let i = er_ExecutionID r in
      if i \<in> set failed then complete_loop failed success rs (ok, bad @ [i])
      else if i \<in> set success then complete_loop failed success rs (ok @ [i], bad)
      else complete_loop failed success rs (ok, bad @ [i]))"

definition completeBatchResult :: "ExecutionRecord list \<Rightarrow> BatchResult \<Rightarrow> BatchResult" where
  "completeBatchResult records result =
     (let failed = FailedIDs result;
          success = filter (\<lambda>i. i \<notin> set failed) (SuccessIDs result);
          (ok, bad) = complete_loop failed success records ([], [])
      in result\<lparr>SuccessIDs := ok, FailedIDs := bad\<rparr>)"

definition appendErrorMessage :: "string \<Rightarrow> string \<Rightarrow> string" where
  "appendErrorMessage current nxt = (if current = '''' then nxt else current @ ''; '' @ nxt)"

subsection \<open>The single-case dispatch\<close>

text \<open>The readings of the clock, in the order the code takes them.\<close>

record case_times =
  ct_create :: gotime
  ct_outbox :: gotime
  ct_fail :: gotime
  ct_published :: gotime

definition execute_case_create ::
  "DispatchConfig \<Rightarrow> bool \<Rightarrow> case_times \<Rightarrow> string \<Rightarrow> int64 \<Rightarrow> Version \<Rightarrow> string
     \<Rightarrow> (ExecutionRecord \<times> string \<times> OutboxMessage option) io" where
  "execute_case_create cfg outbox ct requestID caseID v user =
     io_bind (UtCaseRepository_FindByID caseID)
       (\<lambda>ut. case ut of
          None \<Rightarrow> io_fail (NewCaseNotExist caseID)
        | Some u \<Rightarrow>
            io_bind (ExecutionRepository_Add
                       (CreateExecutionRecordForRequest (ct_create ct) requestID caseID v user))
              (\<lambda>rec. if outbox
                 then io_bind (OutboxRepository_Add
                        (NewOutboxMessage rec (uc_CaseName u)
                           (add_time (ct_outbox ct) (dc_OutboxFastPathGrace cfg))))
                        (\<lambda>m. io_return (rec, uc_CaseName u, Some m))
                 else io_return (rec, uc_CaseName u, None)))"

definition execute_case_finish ::
  "bool \<Rightarrow> case_times \<Rightarrow> ExecutionRecord \<Rightarrow> goerr option \<Rightarrow> unit io" where
  "execute_case_finish outbox ct rec mqErr =
     (case mqErr of
        Some e \<Rightarrow>
          io_bind (ExecutionRepository_FindByID (er_ExecutionID rec))
            (\<lambda>cur. case cur of
               None \<Rightarrow> io_fail (NewExecutionNotFound (er_ExecutionID rec))
             | Some c \<Rightarrow>
                 (case MarkAsDispatchFailed (ct_fail ct) c of
                    Inl err \<Rightarrow> io_fail err
                  | Inr c' \<Rightarrow>
                      io_then (ExecutionRepository_Save c')
                        (if outbox then OutboxRepository_MarkDead [er_ExecutionID rec] '''' (Error e)
                         else io_return ())))
      | None \<Rightarrow>
          (if outbox then OutboxRepository_MarkPublished [er_ExecutionID rec] '''' (ct_published ct)
           else io_return ()))"

text \<open>
  Go returns the id and the status beside the error, so the result is the triple. \<open>execute\<close> is the
  port's \<open>Execute\<close>.
\<close>

definition ExecuteCaseWithRequest ::
  "DispatchConfig \<Rightarrow> bool \<Rightarrow> goerr + byte list \<Rightarrow> case_times \<Rightarrow> (ExecutionRecord \<Rightarrow> string \<Rightarrow> goerr option)
     \<Rightarrow> string \<Rightarrow> int64 \<Rightarrow> Version \<Rightarrow> string \<Rightarrow> (int64 \<times> ExecutionStatus \<times> goerr option) io" where
  "ExecuteCaseWithRequest cfg outbox rand ct execute requestID caseID v user =
     (if Version_IsEmpty v then io_return (0, '''', Some (NewInvalidArgument ''version is required''))
      else case NormalizeRequestID rand requestID of
        Inl err \<Rightarrow> io_return (0, '''', Some err)
      | Inr requestID \<Rightarrow>
          io_bind (io_try (tx_Do (execute_case_create cfg outbox ct requestID caseID v user)))
            (\<lambda>r. case r of
               Inl err \<Rightarrow> io_return (0, '''', Some err)
             | Inr (rec, caseName, outboxMsg) \<Rightarrow>
                 (if er_Version rec \<noteq> v
                  then io_return (er_ExecutionID rec, '''',
                         Some (NewInvalidArgument ''request_id was already used with a different version''))
                  else case replayDispatchedStatus outboxMsg rec of
                    (status, True) \<Rightarrow> io_return (er_ExecutionID rec, status, None)
                  | (_, False) \<Rightarrow>
                      (let mqErr = execute rec caseName;
                           finalStatus = (if mqErr \<noteq> None then StatusDispatchFailed else StatusWait)
                       in io_bind (io_try (tx_Do (execute_case_finish outbox ct rec mqErr)))
                            (\<lambda>r. io_return (er_ExecutionID rec, finalStatus,
                                   case r of Inl err \<Rightarrow> Some err | Inr _ \<Rightarrow> None))))))"

definition ExecuteCase where
  "ExecuteCase cfg outbox rand ct execute caseID v user =
     ExecuteCaseWithRequest cfg outbox rand ct execute '''' caseID v user"

subsection \<open>One chunk of a batch\<close>

record Progress =
  pg_ChunkIndex :: int32
  pg_ChunkSize :: int32
  pg_SuccessIDs :: "int64 list"
  pg_FailedIDs :: "int64 list"
  pg_TotalDispatched :: int32
  pg_TotalPlanned :: int32
  pg_ChunkError :: string

record indexedBatch =
  ib_Index :: int32
  ib_Cases :: "UtCase list"

definition chunk_error :: "indexedBatch \<Rightarrow> string \<Rightarrow> Progress" where
  "chunk_error batch msg =
     \<lparr>pg_ChunkIndex = ib_Index batch, pg_ChunkSize = word_of_nat (length (ib_Cases batch)),
      pg_SuccessIDs = [], pg_FailedIDs = [], pg_TotalDispatched = 0, pg_TotalPlanned = 0,
      pg_ChunkError = msg\<rparr>"

text \<open>The readings of the clock: one per record when the records are made and when they fail.\<close>

record chunk_times =
  kt_create :: "nat \<Rightarrow> gotime"
  kt_outbox :: gotime
  kt_fail :: "nat \<Rightarrow> gotime"
  kt_published :: gotime

definition name_of :: "(int64 \<rightharpoonup> string) \<Rightarrow> int64 \<Rightarrow> string" where
  "name_of nameMap i = (case nameMap i of None \<Rightarrow> '''' | Some n \<Rightarrow> n)"

definition chunk_insert ::
  "DispatchConfig \<Rightarrow> bool \<Rightarrow> chunk_times \<Rightarrow> ExecutionRecord list \<Rightarrow> (int64 \<rightharpoonup> string)
     \<Rightarrow> (ExecutionRecord list \<times> OutboxMessage list) io" where
  "chunk_insert cfg outbox kt records nameMap =
     io_bind (ExecutionRepository_BatchAdd records)
       (\<lambda>records. if \<not> outbox then io_return (records, [])
          else io_bind (OutboxRepository_BatchAdd
                 (map (\<lambda>r. NewOutboxMessage r (name_of nameMap (er_CaseID r))
                        (add_time (kt_outbox kt) (dc_OutboxFastPathGrace cfg))) records))
                 (\<lambda>messages. io_return (records, messages)))"

text \<open>
  What the loop over the stored records sorts out: ids whose delivery is only replayed, and the
  records to publish; or that a record has another version.
\<close>

fun classify ::
  "Version \<Rightarrow> ExecutionRecord list \<Rightarrow> OutboxMessage list
     \<Rightarrow> (int64 list \<times> int64 list \<times> ExecutionRecord list) option" where
  "classify v [] messages = Some ([], [], [])"
| "classify v (r # rs) messages =
     (if er_Version r \<noteq> v then None
      else (let message = (case messages of [] \<Rightarrow> None | m # _ \<Rightarrow> Some m) in
            case classify v rs (tl messages) of
              None \<Rightarrow> None
            | Some (success, failed, pending) \<Rightarrow>
                (case replayDispatchedStatus message r of
                   (status, True) \<Rightarrow>
                     (if status = StatusDispatchFailed
                      then Some (success, er_ExecutionID r # failed, pending)
                      else Some (er_ExecutionID r # success, failed, pending))
                 | (_, False) \<Rightarrow> Some (success, failed, r # pending))))"

definition chunk_publish ::
  "(ExecutionTask list \<Rightarrow> BatchResult \<times> goerr option) \<Rightarrow> ExecutionRecord list \<Rightarrow> (int64 \<rightharpoonup> string)
     \<Rightarrow> BatchResult" where
  "chunk_publish batchRun pending nameMap =
     (let (newResult, publishErr) =
        (if pending \<noteq> []
         then (let (res, err) = batchRun (BatchAssemble pending nameMap)
               in (completeBatchResult pending res, err))
         else (empty_result, None))
      in case publishErr of
           None \<Rightarrow> newResult
         | Some e \<Rightarrow> (if ErrorMessage newResult = '''' then newResult\<lparr>ErrorMessage := Error e\<rparr> else newResult))"

definition chunk_finish ::
  "bool \<Rightarrow> chunk_times \<Rightarrow> ExecutionRecord list \<Rightarrow> BatchResult \<Rightarrow> unit io" where
  "chunk_finish outbox kt pending newResult =
     io_then (ExecutionRepository_BatchUpdateStatus pending)
       (if \<not> outbox then io_return ()
        else io_then (OutboxRepository_MarkPublished (SuccessIDs newResult) '''' (kt_published kt))
               (OutboxRepository_MarkDead (FailedIDs newResult) '''' (ErrorMessage newResult)))"

text \<open>
  The progress the chunk emits; sending it is a step of the pipeline.
\<close>

definition dispatchOneBatch ::
  "DispatchConfig \<Rightarrow> bool \<Rightarrow> chunk_times \<Rightarrow> (ExecutionTask list \<Rightarrow> BatchResult \<times> goerr option)
     \<Rightarrow> indexedBatch \<Rightarrow> string \<Rightarrow> Version \<Rightarrow> string \<Rightarrow> Progress io" where
  "dispatchOneBatch cfg outbox kt batchRun batch requestID v user =
     (let (records, nameMap) = CreateBatchRecordsForRequest (kt_create kt) requestID (ib_Cases batch) v user in
      io_bind (io_try (tx_Do (chunk_insert cfg outbox kt records nameMap)))
        (\<lambda>r. case r of
           Inl err \<Rightarrow> io_return (chunk_error batch (''batch insert failed: '' @ Error err))
         | Inr (records, messages) \<Rightarrow>
             (case classify v records messages of
                None \<Rightarrow> io_return (chunk_error batch ''request_id was already used with a different version'')
              | Some (success, failed, pending) \<Rightarrow>
                  (let newResult = chunk_publish batchRun pending nameMap;
                       pending' = DispatchBatch (kt_fail kt) pending newResult
                   in io_bind (io_try (tx_Do (chunk_finish outbox kt pending' newResult)))
                        (\<lambda>r. io_return ((chunk_error batch
                              (case r of
                                 Inl err \<Rightarrow> appendErrorMessage (ErrorMessage newResult)
                                              (''status write-back failed: '' @ Error err)
                               | Inr _ \<Rightarrow> ErrorMessage newResult))
                           \<lparr>pg_SuccessIDs := success @ SuccessIDs newResult,
                            pg_FailedIDs := failed @ FailedIDs newResult\<rparr>))))))"

subsection \<open>The result of a batch is split like a reference\<close>

text \<open>
  The reference: a record's id fails if the publisher named it as failed or did not name it at
  all, and succeeds otherwise; order and multiplicity are those of the records.
\<close>

definition delivered :: "BatchResult \<Rightarrow> int64 \<Rightarrow> bool" where
  "delivered result i \<longleftrightarrow> i \<in> set (SuccessIDs result) \<and> i \<notin> set (FailedIDs result)"

lemma complete_loop_filter:
  "complete_loop failed success rs (ok, bad) =
     (ok @ filter (\<lambda>i. i \<in> set success \<and> i \<notin> set failed) (map er_ExecutionID rs),
      bad @ filter (\<lambda>i. \<not> (i \<in> set success \<and> i \<notin> set failed)) (map er_ExecutionID rs))"
  by (induction failed success rs "(ok, bad)" arbitrary: ok bad rule: complete_loop.induct)
    (auto simp: Let_def)

lemma completeBatchResult_filter:
  "completeBatchResult records result =
     result\<lparr>SuccessIDs := filter (delivered result) (map er_ExecutionID records),
            FailedIDs := filter (\<lambda>i. \<not> delivered result i) (map er_ExecutionID records)\<rparr>"
proof -
  have "i \<in> set (filter (\<lambda>i. i \<notin> set (FailedIDs result)) (SuccessIDs result)) \<and> i \<notin> set (FailedIDs result)
      \<longleftrightarrow> delivered result i" for i by (auto simp: delivered_def)
  then show ?thesis
    unfolding completeBatchResult_def complete_loop_filter Let_def by (simp only: prod.case append_Nil)
qed

text \<open>After a publisher that keeps its contract, completing changes no verdict.\<close>

lemma completeBatchResult_sets:
  "set (SuccessIDs (completeBatchResult rs res)) = {i \<in> er_ExecutionID ` set rs. delivered res i}"
  "set (FailedIDs (completeBatchResult rs res)) = {i \<in> er_ExecutionID ` set rs. \<not> delivered res i}"
  "ErrorMessage (completeBatchResult rs res) = ErrorMessage res"
  by (auto simp: completeBatchResult_filter)

subsection \<open>Request ids\<close>

lemma NormalizeRequestID_Inr:
  assumes "NormalizeRequestID rand s = Inr r" and "\<And>bs. rand = Inr bs \<Longrightarrow> length bs = 16"
  shows "r \<noteq> '''' \<and> length r \<le> 64 \<and> TrimSpace r = r"
proof (cases "TrimSpace s = ''''")
  case False
  with assms(1) have "r = TrimSpace s" "length (TrimSpace s) \<le> 64"
    by (simp_all add: NormalizeRequestID_def Let_def split: if_splits)
  with False show ?thesis by simp
next
  case True
  with assms(1) obtain bs where "rand = Inr bs" "r = hex_encode bs"
    by (auto simp: NormalizeRequestID_def split: sum.splits)
  moreover from this(1) have "length bs = 16" by (rule assms(2))
  ultimately show ?thesis by (simp flip: length_greater_0_conv)
qed

lemma NormalizeRequestID_id:
  "r \<noteq> '''' \<Longrightarrow> length r \<le> 64 \<Longrightarrow> TrimSpace r = r \<Longrightarrow> NormalizeRequestID rand r = Inr r"
  by (simp add: NormalizeRequestID_def)

subsection \<open>What all use cases keep\<close>

text \<open>Messages the use cases insert are new ones.\<close>

definition fresh_message :: "OutboxMessage \<Rightarrow> bool" where
  "fresh_message m \<longleftrightarrow>
     om_State m = OutboxPending \<and> om_LeaseUntil m = None \<and> om_LeaseToken m = ''''"

lemma fresh_new: "fresh_message (NewOutboxMessage rec name at)"
  by (simp add: fresh_message_def NewOutboxMessage_def)

text \<open>
  A two-state relation that every repository operation stays within. The use cases stay within it
  then, whatever they are composed of; the instances are: no record is lost or goes back, no
  message is lost or changes once it is settled, no message gets stuck, and none but the messages
  in \<open>confirmed\<close> become PUBLISHED.
\<close>

locale store_relation = table_relation R for R :: "tables \<Rightarrow> tables \<Rightarrow> bool" +
  fixes confirmed :: "int64 set"
  assumes exec_add: "guarantees R (ExecutionRepository_Add r)"
    and exec_batch_add: "guarantees R (ExecutionRepository_BatchAdd rs)"
    and exec_find: "guarantees R (ExecutionRepository_FindByID i)"
    and exec_save: "guarantees R (ExecutionRepository_Save r)"
    and exec_batch_update: "guarantees R (ExecutionRepository_BatchUpdateStatus rs)"
    and outbox_add: "fresh_message m \<Longrightarrow> guarantees R (OutboxRepository_Add m)"
    and outbox_batch_add: "(\<And>m. m \<in> set ms \<Longrightarrow> fresh_message m) \<Longrightarrow>
      guarantees R (OutboxRepository_BatchAdd ms)"
    and mark_published: "set ids \<subseteq> confirmed \<Longrightarrow> guarantees R (OutboxRepository_MarkPublished ids tok at)"
    and mark_retry: "guarantees R (OutboxRepository_MarkRetry ids tok av msg)"
    and mark_dead: "guarantees R (OutboxRepository_MarkDead ids tok msg)"
    and claim: "(\<And>bs. rand = Inr bs \<Longrightarrow> bs \<noteq> []) \<Longrightarrow>
      guarantees R (OutboxRepository_ClaimPending locked rand limit now leaseUntil)"
begin

lemmas operations = exec_add exec_batch_add exec_find exec_save exec_batch_update
  mark_retry mark_dead

lemma case_find: "guarantees R (UtCaseRepository_FindByID i)"
  unfolding UtCaseRepository_FindByID_def by (intro pieces)

lemma case_prod_: "(\<And>x y. guarantees R (f x y)) \<Longrightarrow> guarantees R (case p of (x, y) \<Rightarrow> f x y)"
  by (cases p) simp

lemma create_guarantees: "guarantees R (execute_case_create cfg outbox ct rid i v u)"
  unfolding execute_case_create_def
  by (intro pieces case_find operations outbox_add fresh_new)

lemma finish_guarantees:
  "(err = None \<Longrightarrow> er_ExecutionID rec \<in> confirmed) \<Longrightarrow> guarantees R (execute_case_finish outbox ct rec err)"
  unfolding execute_case_finish_def
  by (cases err) (auto intro!: pieces operations mark_published)

lemma execute_case_guarantees:
  assumes "\<And>rec name. ex rec name = None \<Longrightarrow> er_ExecutionID rec \<in> confirmed"
  shows "guarantees R (ExecuteCaseWithRequest cfg outbox rand ct ex rid i v u)"
proof -
  have replay: "guarantees R (case p of (status, True) \<Rightarrow> io_return (f status) | (_, False) \<Rightarrow> m)"
    if "guarantees R m" for p :: "ExecutionStatus \<times> bool" and m
      and f :: "ExecutionStatus \<Rightarrow> int64 \<times> ExecutionStatus \<times> goerr option"
    using that by (auto simp: return split: prod.splits bool.splits)
  show ?thesis
    unfolding ExecuteCaseWithRequest_def Let_def
    by (intro pieces case_prod_ replay create_guarantees finish_guarantees assms)
qed

lemma insert_guarantees: "guarantees R (chunk_insert cfg outbox kt rs nm)"
  unfolding chunk_insert_def
  by (intro pieces operations outbox_batch_add) (auto simp: fresh_new)

lemma chunk_finish_guarantees:
  "set (SuccessIDs res) \<subseteq> confirmed \<Longrightarrow> guarantees R (chunk_finish outbox kt rs res)"
  unfolding chunk_finish_def by (intro pieces operations mark_published)

lemma chunk_publish_confirmed:
  assumes "\<And>ts. set (SuccessIDs (fst (br ts))) \<subseteq> confirmed"
  shows "set (SuccessIDs (chunk_publish br pending nm)) \<subseteq> confirmed"
  using assms [of "BatchAssemble pending nm"]
  by (auto simp: chunk_publish_def completeBatchResult_filter delivered_def empty_result_def
      split: prod.splits option.splits if_splits)

lemma chunk_guarantees:
  assumes "\<And>ts. set (SuccessIDs (fst (br ts))) \<subseteq> confirmed"
  shows "guarantees R (dispatchOneBatch cfg outbox kt br batch rid v u)"
  unfolding dispatchOneBatch_def Let_def
  by (intro pieces case_prod_ insert_guarantees chunk_finish_guarantees chunk_publish_confirmed assms)

end

interpretation exec_store: store_relation exec_advance UNIV
  by unfold_locales (rule adv_operations)+

interpretation outbox_store: store_relation outbox_advance UNIV
  by unfold_locales (rule oadv_operations)+

interpretation rows_store: store_relation rows_ok UNIV
  by unfold_locales
    (auto intro!: rows_execution_repository rows_outbox_repository rows_ClaimPending
      simp: fresh_message_def row_ok_def FromOutboxMessage_def)

text \<open>Which messages become PUBLISHED.\<close>

definition published_only :: "int64 set \<Rightarrow> tables \<Rightarrow> tables \<Rightarrow> bool" where
  "published_only S t t' \<longleftrightarrow>
     (\<forall>q \<in> set (t_outbox t'). po_State q = OutboxPublished \<longrightarrow> q \<in> set (t_outbox t) \<or> po_ExecutionID q \<in> S)"

lemma published_only_same: "t_outbox t' = t_outbox t \<Longrightarrow> published_only S t t'"
  by (simp add: published_only_def)

interpretation pub: table_relation "published_only S" for S
  by unfold_locales (auto simp: published_only_def)

lemma pub_insert_execs: "guarantees (published_only S) (sql_insert_execs dn rs)"
  unfolding sql_insert_execs_def
  by (rule pub.statement) (auto split: sum.splits prod.splits intro!: published_only_same)

lemma pub_update_execs: "guarantees (published_only S) (sql_update_execs p f)"
  unfolding sql_update_execs_def by (rule pub.statement) (auto intro!: published_only_same)

lemma pub_insert_outbox:
  assumes "\<forall>r \<in> set rs. po_State r \<noteq> OutboxPublished"
  shows "guarantees (published_only S) (sql_insert_outbox dn rs)"
  unfolding sql_insert_outbox_def
proof (rule pub.statement)
  fix w :: world and x t
  let ?ins = "insert_rows outbox_clash po_OutboxID (\<lambda>i r. r\<lparr>po_OutboxID := i\<rparr>) dn
      (map (stamp_outbox (clock w)) rs) (t_outbox (tabs w), t_outbox_next (tabs w))"
  assume "(case ?ins of Inl e \<Rightarrow> Inl e
      | Inr (rows', ts, n) \<Rightarrow> Inr (rows', (tabs w)\<lparr>t_outbox := ts, t_outbox_next := n\<rparr>)) = Inr (x, t)"
  then obtain ts n where ins: "?ins = Inr (x, ts, n)" and t: "t_outbox t = ts"
    by (cases ?ins) auto
  obtain new where new: "ts = t_outbox (tabs w) @ new" "set new \<subseteq> set x"
    using okt.insert_rows_rows [OF ins] by blast
  have "po_State r \<noteq> OutboxPublished" if "r \<in> set x" for r
    using okt.insert_rows_origin [OF ins] that assms by (auto simp: stamp_outbox_def)
  with new t show "published_only S (tabs w) t" by (auto simp: published_only_def)
qed

lemma pub_update_outbox:
  assumes "\<And>t r. p t r \<Longrightarrow> po_State (f r) = OutboxPublished \<Longrightarrow> po_ExecutionID (f r) \<in> S"
  shows "guarantees (published_only S) (sql_update_outbox p f)"
  unfolding sql_update_outbox_def
  by (rule pub.statement) (use assms in \<open>auto simp: published_only_def apply_where_def Let_def\<close>)

lemmas pub_pieces = pub.pieces pub_insert_execs pub_update_execs

lemma pub_execution_repository:
  "guarantees (published_only S) (ExecutionRepository_Add r)"
  "guarantees (published_only S) (ExecutionRepository_BatchAdd rs)"
  "guarantees (published_only S) (ExecutionRepository_FindByID i)"
  "guarantees (published_only S) (ExecutionRepository_Save r)"
  "guarantees (published_only S) (ExecutionRepository_BatchUpdateStatus rs)"
proof -
  show "guarantees (published_only S) (ExecutionRepository_Add r)"
    unfolding ExecutionRepository_Add_def sql_insert_exec_def by (intro pub_pieces)
  show "guarantees (published_only S) (ExecutionRepository_BatchAdd rs)"
    unfolding ExecutionRepository_BatchAdd_def Let_def by (intro pub_pieces)
  show "guarantees (published_only S) (ExecutionRepository_FindByID i)"
    unfolding ExecutionRepository_FindByID_def by (intro pub_pieces)
  show "guarantees (published_only S) (ExecutionRepository_Save r)"
    unfolding ExecutionRepository_Save_def by (intro pub_pieces)
  have "guarantees (published_only S) (update_group rs s)" for s
    unfolding update_group_def Let_def by (intro pub_pieces)
  then have "guarantees (published_only S) (update_groups rs ss)" for ss
    by (induction ss) (auto intro!: pub_pieces)
  then show "guarantees (published_only S) (ExecutionRepository_BatchUpdateStatus rs)"
    unfolding ExecutionRepository_BatchUpdateStatus_def by (intro pub_pieces)
qed

lemma pub_updateByExecutionIDs:
  assumes "\<And>r. po_ExecutionID r \<in> set ids \<Longrightarrow> po_State (f r) = OutboxPublished \<Longrightarrow> po_ExecutionID (f r) \<in> S"
  shows "guarantees (published_only S) (updateByExecutionIDs ids tok f)"
  unfolding updateByExecutionIDs_def by (intro pub_pieces pub_update_outbox) (use assms in auto)

lemma pub_Outbox_BatchAdd:
  assumes "\<And>m. m \<in> set ms \<Longrightarrow> fresh_message m"
  shows "guarantees (published_only S) (OutboxRepository_BatchAdd ms)"
proof -
  have "guarantees (published_only S) (in_batches (sql_insert_outbox True) cs)"
    if "\<forall>c \<in> set cs. \<forall>r \<in> set c. po_State r \<noteq> OutboxPublished" for cs
    using that by (induction cs) (auto intro!: pub_pieces pub_insert_outbox)
  moreover have "\<forall>c \<in> set (chunks 200 (map FromOutboxMessage ms)). \<forall>r \<in> set c. po_State r \<noteq> OutboxPublished"
  proof (intro ballI)
    fix c r assume "c \<in> set (chunks 200 (map FromOutboxMessage ms))" "r \<in> set c"
    then have "r \<in> set (map FromOutboxMessage ms)" using set_chunk by blast
    then show "po_State r \<noteq> OutboxPublished" using assms by (auto simp: fresh_message_def)
  qed
  ultimately show ?thesis
    unfolding OutboxRepository_BatchAdd_def
    by (intro pub.if_ pub.return pub.bind pub.wrap pub.find pub.of_) blast
qed

lemma pub_ClaimPending:
  "guarantees (published_only S) (OutboxRepository_ClaimPending locked rand limit now leaseUntil)"
proof -
  have sel: "guarantees (published_only S) (sql_select_claimable locked l now)" for l
    unfolding sql_select_claimable_def by (rule pub.statement) (auto intro: published_only_same)
  have "guarantees (published_only S) (claim_tx locked tok l now leaseUntil)" for tok l
    unfolding claim_tx_def
    by (intro pub_pieces pub_update_outbox sel) (simp add: lease_row_def)
  then show ?thesis
    unfolding OutboxRepository_ClaimPending_def newLeaseToken_def Let_def
    by (cases rand) (auto intro!: pub_pieces)
qed

interpretation pub_store: store_relation "published_only S" S for S
proof unfold_locales
  show "fresh_message m \<Longrightarrow> guarantees (published_only S) (OutboxRepository_Add m)" for m
    unfolding OutboxRepository_Add_def sql_insert_outbox_one_def
    by (intro pub_pieces pub_insert_outbox) (simp add: fresh_message_def)
qed (auto intro!: pub_execution_repository pub_ClaimPending pub_Outbox_BatchAdd pub_updateByExecutionIDs
      simp: mark_defs row_defs)

end
