(* ===== verification/Case_Dispatch.thy ===== *)
theory Case_Dispatch
  imports Dispatch_Service
begin

text \<open>
  What the single-case dispatch tells its caller, and what it leaves in the tables: the answer
  agrees with the outbox, a failure is recorded, an unfinished delivery stays recoverable.
\<close>

subsection \<open>Sound worlds\<close>

text \<open>The tables are in order and the other processes keep the two-state invariants.\<close>

definition sound :: "world \<Rightarrow> bool" where
  "sound w \<longleftrightarrow> rely exec_advance w \<and> rely outbox_advance w \<and> tables_ok (tabs w)"

lemma sound_step:
  assumes "sound w" and "guarantees exec_advance m" and "guarantees outbox_advance m" and "m w = (r, w')"
  shows "sound w' \<and> exec_advance (tabs w) (tabs w') \<and> outbox_advance (tabs w) (tabs w')"
proof -
  have e: "within exec_advance w w'" and o: "within outbox_advance w w'"
    using assms by (auto simp: sound_def dest: guaranteesD)
  with assms(1) show ?thesis
    using within_rely [OF e] within_rely [OF o]
    by (auto simp: sound_def within_def outbox_advance_def keeps_ok_def)
qed

lemma sound_interfere: "sound w \<Longrightarrow> sound (interfere w) \<and> exec_advance (tabs w) (tabs (interfere w))"
  using adv.interfered [of w] oadv.interfered [of w]
  by (auto simp: sound_def within_def outbox_advance_def keeps_ok_def rely_interfere)

lemma sound_cong: "sound w \<Longrightarrow> tabs w' = tabs w \<Longrightarrow> foreign w' = foreign w \<Longrightarrow> sound w'"
  by (simp add: sound_def rely_def)

text \<open>A committed transaction, seen as a run of its body on a sound world.\<close>

lemma tx_sound:
  assumes "sound w" and "tx_Do m w = (Inr x, w')"
  obtains w1 w2 where "sound w1" and "m w1 = (Inr x, w2)" and "tabs w' = tabs w2" and "foreign w' = foreign w2"
    and "exec_advance (tabs w) (tabs w1)" and "tabs w1 = tabs (interfere w)"
  using assms(2)
proof (rule tx_Do_Inr)
  fix w1 w2 assume "tabs w1 = tabs (interfere w)" "foreign w1 = foreign (interfere w)"
    "m w1 = (Inr x, w2)" "tabs w' = tabs w2" "foreign w' = foreign w2"
  with sound_interfere [OF assms(1)] that [of w1 w2] show thesis by (auto intro: sound_cong)
qed

subsection \<open>The first phase\<close>

lemma create_Inr:
  assumes run: "execute_case_create cfg outbox ct rid i v u w = (Inr (rec, name, msg), w')" and rid: "rid \<noteq> ''''"
  shows "\<exists>p \<in> set (t_execs (tabs w')). rec = ExecutionRecord_ToEntity p \<and> request_is (tabs w') rid p \<and>
    pe_CaseID p = i \<and>
    (if outbox then \<exists>q \<in> set (t_outbox (tabs w')). msg = Some (OutboxMessage_ToEntity q) \<and>
       po_ExecutionID q = er_ExecutionID rec else msg = None)"
proof -
  let ?new = "CreateExecutionRecordForRequest (ct_create ct) rid i v u"
  let ?rest = "\<lambda>(c :: UtCase) rec. if outbox then io_bind (OutboxRepository_Add (NewOutboxMessage rec (uc_CaseName c)
           (add_time (ct_outbox ct) (dc_OutboxFastPathGrace cfg)))) (\<lambda>m. io_return (rec, uc_CaseName c, Some m))
         else io_return (rec, uc_CaseName c, None)"
  from run obtain ut w0 where "(case ut of None \<Rightarrow> io_fail (NewCaseNotExist i)
      | Some c \<Rightarrow> io_bind (ExecutionRepository_Add ?new) (?rest c)) w0 = (Inr (rec, name, msg), w')"
    unfolding execute_case_create_def io_bind_Inr [of "UtCaseRepository_FindByID i"] by blast
  then obtain c where "io_bind (ExecutionRepository_Add ?new) (?rest c) w0 = (Inr (rec, name, msg), w')"
    by (cases ut) (auto simp: io_fail_Inr)
  then obtain w1 rec0 where add0: "ExecutionRepository_Add ?new w0 = (Inr rec0, w1)"
    and rest0: "?rest c rec0 w1 = (Inr (rec, name, msg), w')"
    unfolding io_bind_Inr [of "ExecutionRepository_Add ?new"] by blast
  from rest0 have "rec0 = rec" by (auto simp: io_Inr split: if_splits)
  note add = add0 [unfolded this] and rest = rest0 [unfolded this]
  have new: "er_RequestID ?new = rid" "er_CaseID ?new = i"
    by (simp_all add: CreateExecutionRecordForRequest_def NewExecutionRecordForRequest_def)
  from erepo.add_stored [OF add] new rid obtain p where p: "p \<in> set (t_execs (tabs w1))"
    "rec = ExecutionRecord_ToEntity p" "request_is (tabs w1) rid p" "pe_CaseID p = i" by auto
  show ?thesis
  proof (cases outbox)
    case False
    with rest p show ?thesis by (auto simp: io_Inr)
  next
    case True
    with rest obtain m where m: "OutboxRepository_Add (NewOutboxMessage rec (uc_CaseName c)
        (add_time (ct_outbox ct) (dc_OutboxFastPathGrace cfg))) w1 = (Inr m, w')" "msg = Some m"
      by (auto simp: io_Inr)
    from Outbox_Add_stored [OF m(1)] p m(2) True show ?thesis
      by (auto simp: NewOutboxMessage_def request_is_def intro!: bexI [of _ p] split: option.splits)
  qed
qed

lemma ReplayStatus_cases:
  "ReplayStatus m = (st, True) \<Longrightarrow>
     (om_State m = OutboxDead \<and> st = StatusDispatchFailed) \<or>
     (om_State m \<in> {OutboxPublished, OutboxProcessing} \<and> st = StatusWait)"
  by (auto simp: ReplayStatus_def split: if_splits)

subsection \<open>The third phase\<close>

lemma finish_Inr:
  assumes sound: "sound w" and run: "execute_case_finish True ct rec mqErr w = (Inr (), w')"
  shows "\<exists>q \<in> set (t_outbox (tabs w')). po_ExecutionID q = er_ExecutionID rec \<and>
    po_State q = (if mqErr = None then OutboxPublished else OutboxDead)"
proof (cases mqErr)
  case None
  with run sound MarkPublished_state [of w] show ?thesis
    by (simp add: execute_case_finish_def sound_def)
next
  case (Some e)
  with run obtain c w1 c' w2 where find: "ExecutionRepository_FindByID (er_ExecutionID rec) w = (Inr (Some c), w1)"
    and save: "ExecutionRepository_Save c' w1 = (Inr (), w2)"
    and dead: "OutboxRepository_MarkDead [er_ExecutionID rec] '''' (Error e) w2 = (Inr (), w')"
    by (auto simp: execute_case_finish_def io_Inr split: sum.splits)
  have "sound w1" using sound_step [OF sound exec_store.exec_find outbox_store.exec_find find] by simp
  then have "sound w2" using sound_step [OF _ exec_store.exec_save outbox_store.exec_save save] by simp
  with MarkDead_state [OF _ dead] Some show ?thesis by (simp add: sound_def)
qed

subsection \<open>The answer agrees with the tables\<close>

lemma exec_row_survives:
  assumes "p \<in> set (t_execs t)" and "exec_advance t t'"
  obtains p' where "p' \<in> set (t_execs t')" and "exec_same p p'"
  using assms by (auto simp: exec_advance_def)

lemma request_is_same:
  "t_coll t' = t_coll t \<Longrightarrow> request_is t rid p \<Longrightarrow> exec_same p p' \<Longrightarrow> request_is t' rid p'"
  by (simp add: request_is_def exec_same_def split: option.split_asm)

text \<open>The stored record a call is about.\<close>

definition stored_for ::
  "goerr + byte list \<Rightarrow> string \<Rightarrow> tables \<Rightarrow> int64 \<Rightarrow> int64 \<Rightarrow> Version \<Rightarrow> bool" where
  "stored_for rand rid t xid i v \<longleftrightarrow>
     (\<exists>p \<in> set (t_execs t). pe_ExecutionID p = xid \<and> pe_CaseID p = i \<and> pe_Version p = v \<and>
        (\<exists>rid'. NormalizeRequestID rand rid = Inr rid' \<and> request_is t rid' p))"

text \<open>
  How a call that reports no error went: it found the delivery already decided, or it published
  and wrote the outcome back.
\<close>

lemma ExecuteCase_ok_cases:
  assumes run: "ExecuteCaseWithRequest cfg True rand ct ex rid i v u w = (Inr (xid, st, None), w')"
    and sound: "sound w" and rand: "\<And>bs. rand = Inr bs \<Longrightarrow> length bs = 16"
  obtains (replayed) q where "q \<in> set (t_outbox (tabs w'))"
      and "po_ExecutionID q = xid" and "ReplayStatus (OutboxMessage_ToEntity q) = (st, True)"
      and "stored_for rand rid (tabs w') xid i v"
  | (published) rec name q where "xid = er_ExecutionID rec" and "q \<in> set (t_outbox (tabs w'))"
      and "po_ExecutionID q = xid" and "po_State q = (if ex rec name = None then OutboxPublished else OutboxDead)"
      and "st = (if ex rec name = None then StatusWait else StatusDispatchFailed)"
      and "stored_for rand rid (tabs w') xid i v"
proof -
  from run obtain rid' where rid': "NormalizeRequestID rand rid = Inr rid'"
    by (auto simp: ExecuteCaseWithRequest_def io_Inr split: if_splits)
  let ?create = "execute_case_create cfg True ct rid' i v u"
  from run rid' obtain r w1 where c: "tx_Do ?create w = (r, w1)"
    and rest: "(case r of Inl err \<Rightarrow> io_return (0, '''', Some err)
      | Inr (rec, caseName, outboxMsg) \<Rightarrow>
          (if er_Version rec \<noteq> v
           then io_return (er_ExecutionID rec, '''',
                  Some (NewInvalidArgument ''request_id was already used with a different version''))
           else case replayDispatchedStatus outboxMsg rec of
             (status, True) \<Rightarrow> io_return (er_ExecutionID rec, status, None)
           | (_, False) \<Rightarrow>
               (let mqErr = ex rec caseName;
                    finalStatus = (if mqErr \<noteq> None then StatusDispatchFailed else StatusWait)
                in io_bind (io_try (tx_Do (execute_case_finish True ct rec mqErr)))
                     (\<lambda>r. io_return (er_ExecutionID rec, finalStatus,
                            case r of Inl err \<Rightarrow> Some err | Inr _ \<Rightarrow> None))))) w1 = (Inr (xid, st, None), w')"
    by (auto simp: ExecuteCaseWithRequest_def io_bind_Inr io_try_Inr io_return_Inr split: if_splits)
  from rest obtain rec name msg where r: "r = Inr (rec, name, msg)"
    by (cases r) (auto simp: io_return_Inr)
  with rest have v: "er_Version rec = v" by (auto simp: io_return_Inr split: if_splits)
  have sound1: "sound w1"
    using sound_step [OF sound adv.transaction oadv.transaction c]
      exec_store.create_guarantees outbox_store.create_guarantees by blast
  from sound c [unfolded r] obtain wa wb where wa: "?create wa = (Inr (rec, name, msg), wb)"
    and wb: "tabs w1 = tabs wb" by (rule tx_sound)
  from NormalizeRequestID_Inr [OF rid' rand] have "rid' \<noteq> ''''" by simp
  from create_Inr [OF wa this] wb obtain p q where p: "p \<in> set (t_execs (tabs w1))"
    "rec = ExecutionRecord_ToEntity p" "pe_CaseID p = i" "request_is (tabs w1) rid' p"
    and q: "q \<in> set (t_outbox (tabs w1))" "msg = Some (OutboxMessage_ToEntity q)"
      "po_ExecutionID q = er_ExecutionID rec" by auto
  obtain status dn where rs: "ReplayStatus (OutboxMessage_ToEntity q) = (status, dn)" by (metis surj_pair)
  show thesis
  proof (cases dn)
    case True
    with rest r v q(2) rs have "xid = er_ExecutionID rec" "st = status" "w' = w1"
      by (auto simp: replayDispatchedStatus_def io_return_Inr)
    with True rs p q v rid' show thesis
      by (intro replayed [of q]) (auto simp: stored_for_def)
  next
    case False
    with rest r v q(2) rs obtain y where fin: "tx_Do (execute_case_finish True ct rec (ex rec name)) w1 = (Inr y, w')"
      and idst: "xid = er_ExecutionID rec" "st = (if ex rec name \<noteq> None then StatusDispatchFailed else StatusWait)"
      by (auto simp: replayDispatchedStatus_def io_Inr Let_def split: sum.splits)
        (metis old.unit.exhaust sum.exhaust)
    from sound1 fin obtain wc wd where "sound wc" "execute_case_finish True ct rec (ex rec name) wc = (Inr y, wd)"
      "tabs w' = tabs wd" by (rule tx_sound)
    with finish_Inr [of wc ct rec "ex rec name" wd] obtain q' where "q' \<in> set (t_outbox (tabs w'))"
      "po_ExecutionID q' = er_ExecutionID rec"
      "po_State q' = (if ex rec name = None then OutboxPublished else OutboxDead)" by auto
    moreover have adv: "exec_advance (tabs w1) (tabs w') \<and> outbox_advance (tabs w1) (tabs w')"
      using sound_step [OF sound1 adv.transaction oadv.transaction fin]
        exec_store.finish_guarantees outbox_store.finish_guarantees by blast
    then obtain p' where p': "p' \<in> set (t_execs (tabs w'))" "exec_same p p'"
      using exec_row_survives [OF p(1)] by blast
    have "t_coll (tabs w') = t_coll (tabs w1)" using adv by (simp add: outbox_advance_def keeps_ok_def)
    then have "request_is (tabs w') rid' p'" using p(4) p'(2) by (rule request_is_same)
    ultimately show thesis
      using idst p p' v rid' by (intro published [of rec q' name]) (auto simp: exec_same_def stored_for_def)
  qed
qed

subsection \<open>Properties\<close>

definition demo_config :: DispatchConfig where
  "demo_config = \<lparr>dc_BatchSize = 0, dc_WorkerCount = 0, dc_MaxConcurrentBatches = 0, dc_OutboxFastPathGrace = 5\<rparr>"

definition demo_times :: case_times where
  "demo_times = \<lparr>ct_create = 1, ct_outbox = 2, ct_fail = 3, ct_published = 4\<rparr>"

definition demo_call :: "(ExecutionRecord \<Rightarrow> string \<Rightarrow> goerr option) \<Rightarrow>
    (goerr + (int64 \<times> ExecutionStatus \<times> goerr option)) \<times> world" where
  "demo_call ex = ExecuteCaseWithRequest demo_config True (Inl (ErrorsNew ''no entropy'')) demo_times ex
     '' req-1 '' 3 ''v1'' ''user'' demo_catalogue"

text \<open>A publisher that confirms execution 1 and nothing else.\<close>

definition confirms_first :: "ExecutionRecord \<Rightarrow> string \<Rightarrow> goerr option" where
  "confirms_first rec name = (if er_ExecutionID rec = 1 then None else Some (ErrorsNew ''down''))"

lemma sound_demo: "sound demo_catalogue"
  by (simp add: sound_def rely_def demo_catalogue_def tables_ok_def keyed_ok_def)

lemma demo_call_ok: "fst (demo_call (\<lambda>_ _. None)) = Inr (1, StatusWait, None)"
  by code_simp

text \<open>C12: When the single-case dispatch answers without an error, the answer is what the tables say: the
  returned id is the execution of the requested case and version, its message is in the outbox, and the
  status is DISPATCH_FAILED exactly if that message is DEAD, and WAIT exactly if it is PUBLISHED or in
  the hands of a relay. This holds whatever the publisher answers, for new requests and for repeated
  ones, with other processes working on the same tables.\<close>

theorem ExecuteCase_answer:
  assumes "ExecuteCaseWithRequest cfg True rand ct ex rid i v u w = (Inr (xid, st, None), w')"
    and "sound w" and "\<And>bs. rand = Inr bs \<Longrightarrow> length bs = 16"
  shows "(\<exists>p \<in> set (t_execs (tabs w')). pe_ExecutionID p = xid \<and> pe_CaseID p = i \<and> pe_Version p = v) \<and>
    (\<exists>q \<in> set (t_outbox (tabs w')). po_ExecutionID q = xid \<and>
       (st = StatusWait \<and> po_State q \<in> {OutboxPublished, OutboxProcessing} \<or>
        st = StatusDispatchFailed \<and> po_State q = OutboxDead))"
  by (rule ExecuteCase_ok_cases [OF assms])
    (auto simp: stored_for_def dest!: ReplayStatus_cases split: if_splits)

theorem ExecuteCase_answer_witness:
  "\<exists>q \<in> set (t_outbox (tabs (snd (demo_call (\<lambda>_ _. None))))). po_ExecutionID q = 1 \<and>
     po_State q \<in> {OutboxPublished, OutboxProcessing}"
proof -
  have "demo_call (\<lambda>_ _. None) = (Inr (1, StatusWait, None), snd (demo_call (\<lambda>_ _. None)))"
    using demo_call_ok by (metis prod.collapse)
  from ExecuteCase_answer [OF this [unfolded demo_call_def] sound_demo] show ?thesis
    unfolding demo_call_def by auto
qed

text \<open>A call of the single-case dispatch marks a message PUBLISHED only if the publisher confirmed the
  execution it belongs to: with the outbox on or off, whatever fails in between and whatever the
  answer is, every message that is PUBLISHED afterwards was PUBLISHED before or is one the publisher
  accepted, if the other processes keep to that too.\<close>

theorem ExecuteCase_publishes_confirmed:
  assumes "ExecuteCaseWithRequest cfg outbox rand ct ex rid i v u w = (r, w')"
    and "rely (published_only {er_ExecutionID rec |rec name. ex rec name = None}) w"
    and "q \<in> set (t_outbox (tabs w'))" and "po_State q = OutboxPublished"
  shows "q \<in> set (t_outbox (tabs w)) \<or> (\<exists>rec name. er_ExecutionID rec = po_ExecutionID q \<and> ex rec name = None)"
proof -
  let ?S = "{er_ExecutionID rec |rec name. ex rec name = None}"
  have "guarantees (published_only ?S) (ExecuteCaseWithRequest cfg outbox rand ct ex rid i v u)"
    by (rule pub_store.execute_case_guarantees) auto
  from guaranteesD [OF this assms(2,1)] assms(3,4)
  have "q \<in> set (t_outbox (tabs w)) \<or> po_ExecutionID q \<in> ?S"
    unfolding within_def published_only_def by blast
  then show ?thesis by auto
qed

theorem ExecuteCase_publishes_confirmed_witness:
  "\<exists>q \<in> set (t_outbox (tabs (snd (demo_call confirms_first)))).
     po_State q = OutboxPublished \<and> po_ExecutionID q = 1"
proof -
  let ?c = "demo_call confirms_first"
  have "list_ex (\<lambda>q. po_State q = OutboxPublished) (t_outbox (tabs (snd ?c)))" by code_simp
  then obtain q where q: "q \<in> set (t_outbox (tabs (snd ?c)))" "po_State q = OutboxPublished"
    by (auto simp: list_ex_iff)
  have "?c = (fst ?c, snd ?c)" by simp
  from ExecuteCase_publishes_confirmed [OF this [unfolded demo_call_def] _ q(1) [unfolded demo_call_def] q(2)]
  have "po_ExecutionID q = 1" by (auto simp: rely_def demo_catalogue_def confirms_first_def split: if_splits)
  with q show ?thesis by auto
qed

subsection \<open>Repeated requests\<close>

lemma ExecuteCase_steps:
  assumes "sound w" and "ExecuteCaseWithRequest cfg outbox rand ct ex rid i v u w = (r, w')"
  shows "sound w' \<and> exec_advance (tabs w) (tabs w') \<and> outbox_advance (tabs w) (tabs w')"
  by (rule sound_step [where m = "ExecuteCaseWithRequest cfg outbox rand ct ex rid i v u", OF assms(1) _ _ assms(2)];
    rule exec_store.execute_case_guarantees outbox_store.execute_case_guarantees; simp)

text \<open>Two stored records of one request and case are one record, now or later.\<close>

lemma stored_for_unique:
  assumes "stored_for rand1 rid t xid i v" and "stored_for rand2 rid t' yid i v'"
    and "exec_advance t t'" and "t_coll t' = t_coll t" and "tables_ok t'" and "TrimSpace rid \<noteq> ''''"
  shows "yid = xid \<and> v' = v"
proof -
  have norm: "rid' = TrimSpace rid" if "NormalizeRequestID rand rid = Inr rid'" for rand rid'
    using that assms(6) by (simp add: NormalizeRequestID_def Let_def split: if_splits)
  from assms(1) obtain p where p: "p \<in> set (t_execs t)" "pe_ExecutionID p = xid" "pe_CaseID p = i"
    "pe_Version p = v" "request_is t (TrimSpace rid) p" by (auto simp: stored_for_def dest: norm)
  from assms(2) obtain q where q: "q \<in> set (t_execs t')" "pe_ExecutionID q = yid" "pe_CaseID q = i"
    "pe_Version q = v'" "request_is t' (TrimSpace rid) q" by (auto simp: stored_for_def dest: norm)
  from exec_row_survives [OF p(1) assms(3)] obtain p' where p': "p' \<in> set (t_execs t')" "exec_same p p'" .
  have "exec_clash (t_coll t') p' q"
    using request_is_same [OF assms(4) p(5) p'(2)] q(3,5) p'(2) p(3)
    by (intro request_is_clash) (auto simp: exec_same_def)
  with tables_ok_exec_unique [OF assms(5) p'(1) q(1)] p' p q show ?thesis by (auto simp: exec_same_def)
qed

text \<open>C13: Retrying is safe. When a request with a request id of its own is answered without an error, and
  the same request for the same case is made again, by whichever instance, however much later, then
  the second call, if it is answered without an error, returns the same execution. If the first
  answer was that delivery failed, so is the second: a dead message stays dead.\<close>

theorem ExecuteCase_retry:
  assumes "ExecuteCaseWithRequest cfg True rand ct ex rid i v u w = (Inr (xid, st, None), w1)"
    and "ExecuteCaseWithRequest cfg' True rand' ct' ex' rid i v' u' w2 = (Inr (yid, st', None), w3)"
    and "TrimSpace rid \<noteq> ''''" and "sound w" and "sound w2"
    and "exec_advance (tabs w1) (tabs w2)" and "outbox_advance (tabs w1) (tabs w2)"
    and "\<And>bs. rand = Inr bs \<Longrightarrow> length bs = 16" and "\<And>bs. rand' = Inr bs \<Longrightarrow> length bs = 16"
  shows "yid = xid \<and> v' = v \<and> (st = StatusDispatchFailed \<longrightarrow> st' = StatusDispatchFailed)"
proof -
  note steps = ExecuteCase_steps
  have s1: "sound w1" using steps [OF assms(4,1)] by blast
  have s3: "sound w3" "exec_advance (tabs w1) (tabs w3)" "outbox_advance (tabs w1) (tabs w3)"
    using steps [OF assms(5,2)] assms(6,7) by (auto intro: exec_advance_trans outbox_advance_trans)
  have q: "\<exists>q \<in> set (t_outbox (tabs wb)). po_ExecutionID q = x \<and> stored_for r rid (tabs wb) x i y \<and>
      (s = StatusDispatchFailed \<longleftrightarrow> po_State q = OutboxDead) \<and> (s = StatusWait \<or> s = StatusDispatchFailed)"
    if "ExecuteCaseWithRequest c True r t e rid i y z wa = (Inr (x, s, None), wb)" "sound wa"
      "\<And>bs. r = Inr bs \<Longrightarrow> length bs = 16" for c r t e y z wa x s wb
    by (rule ExecuteCase_ok_cases [OF that])
      (auto dest!: ReplayStatus_cases split: if_splits intro!: bexI)
  from q [OF assms(1,4,8)] obtain q1 where q1: "q1 \<in> set (t_outbox (tabs w1))" "po_ExecutionID q1 = xid"
    "stored_for rand rid (tabs w1) xid i v" "st = StatusDispatchFailed \<longleftrightarrow> po_State q1 = OutboxDead" by blast
  from q [OF assms(2,5,9)] obtain q2 where q2: "q2 \<in> set (t_outbox (tabs w3))" "po_ExecutionID q2 = yid"
    "stored_for rand' rid (tabs w3) yid i v'" "st' = StatusDispatchFailed \<longleftrightarrow> po_State q2 = OutboxDead" by blast
  have same: "yid = xid \<and> v' = v"
    by (rule stored_for_unique [OF q1(3) q2(3) s3(2) _ _ assms(3)])
      (use s3(1,3) in \<open>auto simp: sound_def outbox_advance_def keeps_ok_def\<close>)
  have "po_State q2 = OutboxDead" if "po_State q1 = OutboxDead"
  proof -
    from s3(3) s1 q1(1) obtain r where "r \<in> set (t_outbox (tabs w3))" "outbox_adv q1 r"
      by (auto simp: outbox_advance_def sound_def)
    with that have "q1 \<in> set (t_outbox (tabs w3))" by (auto simp: outbox_adv_def settled_def)
    with tables_ok_outbox_unique [of "tabs w3" q1 q2] s3(1) q2 q1 same that show ?thesis
      by (auto simp: sound_def)
  qed
  with same q1(4) q2(4) show ?thesis by simp
qed

definition demo_retry :: "(goerr + (int64 \<times> ExecutionStatus \<times> goerr option)) \<times> world" where
  "demo_retry = ExecuteCaseWithRequest demo_config True (Inl (ErrorsNew ''no entropy'')) demo_times (\<lambda>_ _. None)
     ''req-1 '' 3 ''v1'' ''user'' (snd (ExecuteCaseWithRequest demo_config True (Inl (ErrorsNew ''no entropy''))
       demo_times (\<lambda>_ _. Some (ErrorsNew ''down'')) ''req-1 '' 3 ''v1'' ''user'' demo_catalogue))"

theorem ExecuteCase_retry_witness:
  "fst demo_retry = Inr (1, StatusDispatchFailed, None)"
proof -
  let ?rand = "Inl (ErrorsNew ''no entropy'') :: goerr + byte list"
  let ?first = "ExecuteCaseWithRequest demo_config True ?rand demo_times (\<lambda>_ _. Some (ErrorsNew ''down''))
      ''req-1 '' 3 ''v1'' ''user'' demo_catalogue"
  have "fst ?first = Inr (1, StatusDispatchFailed, None)" by code_simp
  then have 1: "?first = (Inr (1, StatusDispatchFailed, None), snd ?first)" by (metis prod.collapse)
  have "case fst demo_retry of Inl _ \<Rightarrow> False | Inr (_, _, e) \<Rightarrow> e = None" by code_simp
  then obtain y s where "fst demo_retry = Inr (y, s, None)" by (auto split: sum.splits prod.splits)
  then have 2: "demo_retry = (Inr (y, s, None), snd demo_retry)" by (metis prod.collapse)
  have t: "TrimSpace ''req-1 '' \<noteq> ''''" by code_simp
  have "sound (snd ?first)"
    using ExecuteCase_steps [OF sound_demo 1] by blast
  from ExecuteCase_retry [OF 1 2 [unfolded demo_retry_def] t sound_demo this adv.refl oadv.refl]
  have "y = 1 \<and> s = StatusDispatchFailed" by simp
  with 2 show ?thesis by (metis fst_conv)
qed

end
