(* ===== verification/Chunk_Dispatch.thy ===== *)
theory Chunk_Dispatch
  imports Case_Dispatch
begin

text \<open>
  What one chunk of a batch reports: every stored record in exactly one of the two lists, successes
  only with a confirm or a delivery that was decided before, and rows that agree with the report.
\<close>

subsection \<open>Sorting the records\<close>

lemma classify_mset:
  "classify v rs ms = Some (success, failed, pending) \<Longrightarrow>
     mset success + mset failed + mset (map er_ExecutionID pending) = mset (map er_ExecutionID rs) \<and>
     set pending \<subseteq> set rs"
proof (induction v rs ms arbitrary: success failed pending rule: classify.induct)
  case (1 v messages)
  then show ?case by simp
next
  case (2 v r rs messages)
  then obtain s f p where c: "classify v rs (tl messages) = Some (s, f, p)"
    by (auto simp: Let_def split: if_splits option.splits)
  from 2(2) have "\<not> er_Version r \<noteq> v" by (auto split: if_splits)
  from "2.IH" [OF this refl c] 2(2) c show ?case
    by (auto simp: Let_def split: if_splits prod.splits bool.splits)
qed

text \<open>A record that is only replayed has a message whose state decides the answer.\<close>

lemma classify_replayed:
  "classify v rs ms = Some (success, failed, pending) \<Longrightarrow> length ms = length rs \<Longrightarrow>
     (\<forall>i \<in> set success. \<exists>k < length rs. er_ExecutionID (rs ! k) = i \<and> ReplayStatus (ms ! k) = (StatusWait, True)) \<and>
     (\<forall>i \<in> set failed. \<exists>k < length rs. er_ExecutionID (rs ! k) = i \<and>
        ReplayStatus (ms ! k) = (StatusDispatchFailed, True))"
proof (induction v rs ms arbitrary: success failed pending rule: classify.induct)
  case (1 v messages)
  then show ?case by simp
next
  case (2 v r rs messages)
  from 2(3) obtain m ms where ms: "messages = m # ms" "length ms = length rs" by (cases messages) auto
  from 2(2) ms obtain s f p where c: "classify v rs ms = Some (s, f, p)" and v: "\<not> er_Version r \<noteq> v"
    by (auto simp: Let_def split: if_splits option.splits)
  have ih: "(\<forall>i \<in> set s. \<exists>k < length rs. er_ExecutionID (rs ! k) = i \<and> ReplayStatus (ms ! k) = (StatusWait, True)) \<and>
     (\<forall>i \<in> set f. \<exists>k < length rs. er_ExecutionID (rs ! k) = i \<and> ReplayStatus (ms ! k) = (StatusDispatchFailed, True))"
    using "2.IH" [OF v refl, of s f p] c ms by simp
  have here: "\<exists>k < length (r # rs). er_ExecutionID ((r # rs) ! k) = i \<and> ReplayStatus ((m # ms) ! k) = a"
    if "er_ExecutionID r = i \<and> ReplayStatus m = a \<or>
        (\<exists>k < length rs. er_ExecutionID (rs ! k) = i \<and> ReplayStatus (ms ! k) = a)" for i a
    using that by (auto intro: exI [of _ 0] exI [of _ "Suc k" for k])
  obtain st dn where rm: "ReplayStatus m = (st, dn)" by (metis surj_pair)
  have "dn \<Longrightarrow> st = StatusDispatchFailed \<or> st = StatusWait"
    using rm by (cases dn) (auto dest: ReplayStatus_cases)
  with 2(2) ms c v rm have
    "(\<forall>i \<in> set success. i \<in> set s \<or> er_ExecutionID r = i \<and> ReplayStatus m = (StatusWait, True)) \<and>
     (\<forall>i \<in> set failed. i \<in> set f \<or> er_ExecutionID r = i \<and> ReplayStatus m = (StatusDispatchFailed, True))"
    by (auto simp: replayDispatchedStatus_def split: if_splits prod.splits bool.splits)
  with ih ms(1) here show ?case by blast
qed

subsection \<open>Publishing\<close>

lemma chunk_publish_split:
  "mset (SuccessIDs (chunk_publish br pending nm)) + mset (FailedIDs (chunk_publish br pending nm)) =
     mset (map er_ExecutionID pending)"
proof -
  have "mset (filter P xs) + mset (filter (\<lambda>x. \<not> P x) xs) = mset xs" for P and xs :: "int64 list"
    by (metis mset_filter multiset_partition)
  then show ?thesis
    by (auto simp: chunk_publish_def completeBatchResult_filter empty_result_def
        split: prod.splits option.splits)
qed

text \<open>
  A success of the chunk is one the publisher named, and did not name as failed too.
\<close>

lemma chunk_publish_success:
  "i \<in> set (SuccessIDs (chunk_publish br pending nm)) \<Longrightarrow> delivered (fst (br (BatchAssemble pending nm))) i"
  by (auto simp: chunk_publish_def completeBatchResult_filter empty_result_def delivered_def
      split: prod.splits option.splits if_splits)

subsection \<open>The course of a chunk\<close>

lemma chunk_cases:
  assumes "dispatchOneBatch cfg outbox kt br batch rid v u w = (r, w')"
  obtains (abandoned) msg where "r = Inr (chunk_error batch msg)" and "msg \<noteq> ''''"
  | (done_chunk) records0 nm records ms success failed pending res w1 fin where
    "CreateBatchRecordsForRequest (kt_create kt) rid (ib_Cases batch) v u = (records0, nm)"
    and "tx_Do (chunk_insert cfg outbox kt records0 nm) w = (Inr (records, ms), w1)"
    and "classify v records ms = Some (success, failed, pending)"
    and "res = chunk_publish br pending nm"
    and "tx_Do (chunk_finish outbox kt (DispatchBatch (kt_fail kt) pending res) res) w1 = (fin, w')"
    and "r = Inr ((chunk_error batch
           (case fin of Inl err \<Rightarrow> appendErrorMessage (ErrorMessage res) (''status write-back failed: '' @ Error err)
            | Inr _ \<Rightarrow> ErrorMessage res))
           \<lparr>pg_SuccessIDs := success @ SuccessIDs res, pg_FailedIDs := failed @ FailedIDs res\<rparr>)"
proof -
  obtain records0 nm where cr: "CreateBatchRecordsForRequest (kt_create kt) rid (ib_Cases batch) v u = (records0, nm)"
    by (metis surj_pair)
  obtain ins w1 where ins: "tx_Do (chunk_insert cfg outbox kt records0 nm) w = (ins, w1)" by (metis surj_pair)
  show thesis
  proof (cases ins)
    case (Inl err)
    with assms cr ins have "r = Inr (chunk_error batch (''batch insert failed: '' @ Error err))"
      by (simp add: dispatchOneBatch_def io_bind_def io_try_def io_return_def)
    then show thesis by (rule abandoned) simp
  next
    case (Inr y)
    then obtain records ms where y: "ins = Inr (records, ms)" by (cases y) auto
    show thesis
    proof (cases "classify v records ms")
      case None
      with assms cr ins y have "r = Inr (chunk_error batch ''request_id was already used with a different version'')"
        by (simp add: dispatchOneBatch_def io_bind_def io_try_def io_return_def)
      then show thesis by (rule abandoned) simp
    next
      case (Some z)
      then obtain success failed pending where z: "classify v records ms = Some (success, failed, pending)"
        by (cases z) auto
      let ?res = "chunk_publish br pending nm"
      obtain fin w2 where fin: "tx_Do (chunk_finish outbox kt (DispatchBatch (kt_fail kt) pending ?res) ?res) w1 = (fin, w2)"
        by (metis surj_pair)
      with assms cr ins y z have "w' = w2" and "r = Inr ((chunk_error batch
           (case fin of Inl err \<Rightarrow> appendErrorMessage (ErrorMessage ?res) (''status write-back failed: '' @ Error err)
            | Inr _ \<Rightarrow> ErrorMessage ?res))
           \<lparr>pg_SuccessIDs := success @ SuccessIDs ?res, pg_FailedIDs := failed @ FailedIDs ?res\<rparr>)"
        by (simp_all add: dispatchOneBatch_def io_bind_def io_try_def io_return_def Let_def)
      with cr ins y z fin show thesis by (intro done_chunk) auto
    qed
  qed
qed

lemma chunk_insert_Inr:
  assumes run: "chunk_insert cfg outbox kt records0 nm w = (Inr (records, ms), w')"
    and rid: "rid \<noteq> ''''" "\<forall>r \<in> set records0. er_RequestID r = rid"
  shows "list_all2 (\<lambda>r r'. \<exists>p \<in> set (t_execs (tabs w')). r' = ExecutionRecord_ToEntity p \<and>
      request_is (tabs w') rid p \<and> pe_CaseID p = er_CaseID r) records0 records \<and>
    (if outbox then list_all2 (\<lambda>r m. \<exists>q \<in> set (t_outbox (tabs w')). m = OutboxMessage_ToEntity q \<and>
        po_ExecutionID q = er_ExecutionID r) records ms
     else ms = [])"
proof -
  let ?msg = "\<lambda>r. NewOutboxMessage r (name_of nm (er_CaseID r)) (add_time (kt_outbox kt) (dc_OutboxFastPathGrace cfg))"
  from run obtain w1 where add: "ExecutionRepository_BatchAdd records0 w = (Inr records, w1)"
    and rest: "if outbox then OutboxRepository_BatchAdd (map ?msg records) w1 = (Inr ms, w') else ms = [] \<and> w' = w1"
    by (auto simp: chunk_insert_def io_Inr split: if_splits)
  note stored = erepo.batch_add_stored [OF add rid]
  show ?thesis
  proof (cases outbox)
    case False
    with rest stored show ?thesis by simp
  next
    case True
    with rest have "OutboxRepository_BatchAdd (map ?msg records) w1 = (Inr ms, w')" by simp
    from Outbox_BatchAdd_stored [OF this] have t: "t_execs (tabs w') = t_execs (tabs w1)"
      "t_coll (tabs w') = t_coll (tabs w1)"
      and l: "list_all2 (\<lambda>m m'. \<exists>q \<in> set (t_outbox (tabs w')). m' = OutboxMessage_ToEntity q \<and>
        po_ExecutionID q = om_ExecutionID m) (map ?msg records) ms" by auto
    have "request_is (tabs w') rid = request_is (tabs w1) rid"
      by (rule ext) (simp add: request_is_def t(2) split: option.splits)
    with stored t l True show ?thesis by (simp add: list_all2_map1 NewOutboxMessage_def)
  qed
qed

lemma dispatch_records:
  assumes "CreateBatchRecordsForRequest clk rid cs v u = (rs, nm)"
  shows "length rs = length cs" and "\<forall>r \<in> set rs. er_RequestID r = rid"
proof -
  note shape = CreateBatchRecords_shape [OF assms]
  then have "map er_CaseID rs = map uc_CaseID cs" by simp
  then show "length rs = length cs" by (rule map_eq_imp_length_eq)
  from shape show "\<forall>r \<in> set rs. er_RequestID r = rid" by simp
qed

lemma DispatchBatch_set_ids: "er_ExecutionID ` set (DispatchBatch clk rs res) = er_ExecutionID ` set rs"
  using DispatchBatch_ids [of clk rs res] by (metis list.set_map)

lemma dispatch_chunk_total:
  assumes run: "dispatchOneBatch cfg outbox kt br batch rid v u w = (r, w')" and rid: "rid \<noteq> ''''"
  shows "\<exists>pg. r = Inr pg \<and> pg_ChunkIndex pg = ib_Index batch \<and>
    (pg_SuccessIDs pg = [] \<and> pg_FailedIDs pg = [] \<and> pg_ChunkError pg \<noteq> '''' \<or>
     length (pg_SuccessIDs pg) + length (pg_FailedIDs pg) = length (ib_Cases batch))"
  using run
proof (rule chunk_cases)
  fix msg :: string assume "r = Inr (chunk_error batch msg)" "msg \<noteq> ''''"
  then show ?thesis by (simp add: chunk_error_def)
next
  fix records0 nm records ms success failed pending res w1 fin
  assume cr: "CreateBatchRecordsForRequest (kt_create kt) rid (ib_Cases batch) v u = (records0, nm)"
    and ins: "tx_Do (chunk_insert cfg outbox kt records0 nm) w = (Inr (records, ms), w1)"
    and cl: "classify v records ms = Some (success, failed, pending)"
    and res: "res = chunk_publish br pending nm"
    and r: "r = Inr ((chunk_error batch
           (case fin of Inl err \<Rightarrow> appendErrorMessage (ErrorMessage res) (''status write-back failed: '' @ Error err)
            | Inr _ \<Rightarrow> ErrorMessage res))
           \<lparr>pg_SuccessIDs := success @ SuccessIDs res, pg_FailedIDs := failed @ FailedIDs res\<rparr>)"
  from ins obtain wa wb where "chunk_insert cfg outbox kt records0 nm wa = (Inr (records, ms), wb)"
    by (rule tx_Do_Inr)
  from chunk_insert_Inr [OF this rid] dispatch_records [OF cr] have "length records = length (ib_Cases batch)"
    by (auto dest: list_all2_lengthD)
  moreover have "size (mset success + mset failed + mset (map er_ExecutionID pending)) = length records"
    using classify_mset [OF cl] by simp
  moreover have "size (mset (SuccessIDs res) + mset (FailedIDs res)) = length pending"
    using chunk_publish_split [of br pending nm] res by simp
  ultimately show ?thesis using r by (simp add: chunk_error_def)
qed

text \<open>The stored record of case \<open>c\<close> under request id \<open>rid\<close>, with version \<open>v\<close>, is execution \<open>i\<close>.\<close>

definition case_execution :: "tables \<Rightarrow> string \<Rightarrow> Version \<Rightarrow> UtCase \<Rightarrow> int64 \<Rightarrow> bool" where
  "case_execution t rid v c i \<longleftrightarrow>
     list_ex (\<lambda>p. pe_ExecutionID p = i \<and> pe_CaseID p = uc_CaseID c \<and> request_is t rid p \<and> pe_Version p = v) (t_execs t)"

lemma case_execution_stays:
  assumes "case_execution t rid v c i" and "exec_advance t t'" and "t_coll t' = t_coll t"
  shows "case_execution t' rid v c i"
proof -
  from assms(1) obtain p where p: "p \<in> set (t_execs t)" "pe_ExecutionID p = i" "pe_CaseID p = uc_CaseID c"
    "request_is t rid p" "pe_Version p = v" by (auto simp: case_execution_def list_ex_iff)
  with assms(2) obtain p' where p': "p' \<in> set (t_execs t')" "exec_same p p'" by (auto simp: exec_advance_def)
  with p assms(3) have "request_is t' rid p'" by (simp add: request_is_def exec_same_def split: option.splits)
  with p p' show ?thesis by (auto simp: case_execution_def list_ex_iff exec_same_def)
qed

lemma case_execution_one:
  "tables_ok t \<Longrightarrow> case_execution t rid v c i \<Longrightarrow> case_execution t rid v c' i \<Longrightarrow> uc_CaseID c = uc_CaseID c'"
  unfolding case_execution_def list_ex_iff by (metis tables_ok_exec_unique)

text \<open>Different cases have different executions.\<close>

lemma case_executions_distinct:
  assumes "tables_ok t" and "list_all2 (case_execution t rid v) cs ids" and "distinct (map uc_CaseID cs)"
  shows "distinct ids"
  using assms(2,3)
proof (induction rule: list_all2_induct)
  case (Cons c cs i ids)
  have "i \<notin> set ids"
  proof
    assume "i \<in> set ids"
    with Cons.hyps(2) obtain c' where "c' \<in> set cs" "case_execution t rid v c' i"
      by (metis in_set_conv_nth list_all2_conv_all_nth)
    with case_execution_one [OF assms(1) Cons.hyps(1)] Cons.prems show False by auto
  qed
  with Cons show ?case by simp
qed simp

text \<open>The tables when the records of a chunk have been inserted and read back.\<close>

definition chunk_stored ::
  "DispatchConfig \<Rightarrow> bool \<Rightarrow> chunk_times \<Rightarrow> indexedBatch \<Rightarrow> string \<Rightarrow> Version \<Rightarrow> string \<Rightarrow> world \<Rightarrow> tables" where
  "chunk_stored cfg outbox kt batch rid v u w =
     (let (records, nameMap) = CreateBatchRecordsForRequest (kt_create kt) rid (ib_Cases batch) v u
      in tabs (snd (tx_Do (chunk_insert cfg outbox kt records nameMap) w)))"

lemma classify_version: "classify v rs ms = Some z \<Longrightarrow> \<forall>r \<in> set rs. er_Version r = v"
  by (induction v rs ms arbitrary: z rule: classify.induct) (auto simp: Let_def split: if_splits option.splits)

lemma chunk_insert_cases:
  assumes cr: "CreateBatchRecordsForRequest (kt_create kt) rid cs v u = (records0, nm)"
    and run: "chunk_insert cfg outbox kt records0 nm w = (Inr (records, ms), w')" and rid: "rid \<noteq> ''''"
    and v: "\<forall>r \<in> set records. er_Version r = v"
  shows "list_all2 (case_execution (tabs w') rid v) cs (map er_ExecutionID records)"
proof -
  have same: "map er_CaseID records0 = map uc_CaseID cs" using CreateBatchRecords_shape [OF cr] by blast
  have l: "list_all2 (\<lambda>r r'. \<exists>p \<in> set (t_execs (tabs w')). r' = ExecutionRecord_ToEntity p \<and>
      request_is (tabs w') rid p \<and> pe_CaseID p = er_CaseID r) records0 records"
    using chunk_insert_Inr [OF run rid] dispatch_records [OF cr] by blast
  show ?thesis
    unfolding list_all2_conv_all_nth
  proof (intro conjI allI impI)
    show "length cs = length (map er_ExecutionID records)" using l map_eq_imp_length_eq [OF same] by (simp add: list_all2_lengthD)
  next
    fix k assume k: "k < length cs"
    have len: "length records0 = length cs" "length records = length cs"
      using l map_eq_imp_length_eq [OF same] by (simp_all add: list_all2_lengthD)
    with l k obtain p where p: "p \<in> set (t_execs (tabs w'))" "records ! k = ExecutionRecord_ToEntity p"
      "request_is (tabs w') rid p" "pe_CaseID p = er_CaseID (records0 ! k)" by (auto simp: list_all2_conv_all_nth)
    have "er_CaseID (records0 ! k) = uc_CaseID (cs ! k)" using arg_cong [OF same, of "\<lambda>l. l ! k"] k len by simp
    moreover have "er_Version (records ! k) = v" using v k len by simp
    ultimately show "case_execution (tabs w') rid v (cs ! k) (map er_ExecutionID records ! k)"
      using p k len by (auto simp: case_execution_def list_ex_iff ExecutionRecord_ToEntity_def)
  qed
qed

text \<open>A chunk that is not given up has for every case of the page the execution of that case in one of the lists.\<close>

lemma dispatch_chunk_answers:
  assumes run: "dispatchOneBatch cfg outbox kt br batch rid v u w = (Inr pg, w')" and sound: "sound w" and rid: "rid \<noteq> ''''"
  shows "pg_SuccessIDs pg = [] \<and> pg_FailedIDs pg = [] \<and> pg_ChunkError pg \<noteq> '''' \<or>
    (\<exists>ids. mset ids = mset (pg_SuccessIDs pg @ pg_FailedIDs pg) \<and>
       list_all2 (case_execution (tabs w') rid v) (ib_Cases batch) ids)"
  using run
proof (rule chunk_cases)
  fix msg :: string assume "Inr pg = (Inr (chunk_error batch msg) :: goerr + Progress)" "msg \<noteq> ''''"
  then show ?thesis by (simp add: chunk_error_def)
next
  fix records0 nm records ms success failed pending res w1 fin
  assume cr: "CreateBatchRecordsForRequest (kt_create kt) rid (ib_Cases batch) v u = (records0, nm)"
    and ins: "tx_Do (chunk_insert cfg outbox kt records0 nm) w = (Inr (records, ms), w1)"
    and cl: "classify v records ms = Some (success, failed, pending)"
    and res: "res = chunk_publish br pending nm"
    and fin: "tx_Do (chunk_finish outbox kt (DispatchBatch (kt_fail kt) pending res) res) w1 = (fin, w')"
    and pg: "Inr pg = (Inr ((chunk_error batch
           (case fin of Inl err \<Rightarrow> appendErrorMessage (ErrorMessage res) (''status write-back failed: '' @ Error err)
            | Inr _ \<Rightarrow> ErrorMessage res))
           \<lparr>pg_SuccessIDs := success @ SuccessIDs res, pg_FailedIDs := failed @ FailedIDs res\<rparr>) :: goerr + Progress)"
  from sound ins obtain wa wb where body: "chunk_insert cfg outbox kt records0 nm wa = (Inr (records, ms), wb)"
    "tabs w1 = tabs wb" by (rule tx_sound)
  have 1: "sound w1"
    using sound_step [OF sound adv.transaction [OF exec_store.insert_guarantees]
      oadv.transaction [OF outbox_store.insert_guarantees] ins] by blast
  have 2: "sound w' \<and> exec_advance (tabs w1) (tabs w') \<and> outbox_advance (tabs w1) (tabs w')"
    by (rule sound_step [OF 1 adv.transaction oadv.transaction fin])
      (rule exec_store.chunk_finish_guarantees outbox_store.chunk_finish_guarantees; simp)+
  have "list_all2 (case_execution (tabs w1) rid v) (ib_Cases batch) (map er_ExecutionID records)"
    unfolding body(2) by (rule chunk_insert_cases [OF cr body(1) rid classify_version [OF cl]])
  then have "list_all2 (case_execution (tabs w') rid v) (ib_Cases batch) (map er_ExecutionID records)"
    by (rule list_all2_mono) (use 2 in \<open>auto simp: outbox_advance_def keeps_ok_def intro: case_execution_stays\<close>)
  moreover have "mset (map er_ExecutionID records) = mset (pg_SuccessIDs pg @ pg_FailedIDs pg)"
    using classify_mset [OF cl] chunk_publish_split [of br pending nm] pg by (simp add: res ac_simps)
  ultimately show ?thesis by blast
qed

text \<open>The rows after a write-back that succeeded.\<close>

lemma chunk_finish_Inr:
  assumes "sound w" and "chunk_finish True kt rs res w = (Inr (), w')"
  shows "(\<forall>i \<in> set (SuccessIDs res). \<exists>q \<in> set (t_outbox (tabs w')). po_ExecutionID q = i \<and> po_State q = OutboxPublished) \<and>
    (\<forall>i \<in> set (FailedIDs res). \<exists>q \<in> set (t_outbox (tabs w')). po_ExecutionID q = i \<and> po_State q = OutboxDead)"
proof -
  from assms(2) obtain w1 w2 where up: "ExecutionRepository_BatchUpdateStatus rs w = (Inr (), w1)"
    and pub: "OutboxRepository_MarkPublished (SuccessIDs res) '''' (kt_published kt) w1 = (Inr (), w2)"
    and dead: "OutboxRepository_MarkDead (FailedIDs res) '''' (ErrorMessage res) w2 = (Inr (), w')"
    by (auto simp: chunk_finish_def io_Inr)
  have s1: "sound w1"
    using sound_step [OF assms(1) exec_store.exec_batch_update outbox_store.exec_batch_update up] by blast
  have s2: "sound w2"
    using sound_step [OF s1 exec_store.mark_published outbox_store.mark_published pub] by simp
  have adv: "outbox_advance (tabs w2) (tabs w')"
    using sound_step [OF s2 exec_store.mark_dead outbox_store.mark_dead dead] by blast
  have "\<exists>q \<in> set (t_outbox (tabs w')). po_ExecutionID q = i \<and> po_State q = OutboxPublished"
    if "i \<in> set (SuccessIDs res)" for i
  proof -
    from MarkPublished_state [OF _ pub that] s1 obtain q where q: "q \<in> set (t_outbox (tabs w2))"
      "po_ExecutionID q = i" "po_State q = OutboxPublished" by (auto simp: sound_def)
    with adv s2 obtain q' where "q' \<in> set (t_outbox (tabs w'))" "outbox_adv q q'"
      by (auto simp: outbox_advance_def sound_def)
    with q show ?thesis by (auto simp: outbox_adv_def settled_def)
  qed
  with MarkDead_state [OF _ dead] s2 show ?thesis by (auto simp: sound_def)
qed

lemma settled_stays:
  assumes "tables_ok t" and "outbox_advance t t'" and "q \<in> set (t_outbox t)" and "settled (po_State q)"
  shows "q \<in> set (t_outbox t')"
  using assms by (auto simp: outbox_advance_def outbox_adv_def)

lemma dispatch_chunk_clean:
  assumes run: "dispatchOneBatch cfg True kt br batch rid v u w = (Inr pg, w')" and sound: "sound w"
    and rid: "rid \<noteq> ''''" and clean: "pg_ChunkError pg = ''''"
  shows "(\<forall>i \<in> set (pg_FailedIDs pg). \<exists>q \<in> set (t_outbox (tabs w')). po_ExecutionID q = i \<and> po_State q = OutboxDead) \<and>
    (\<forall>i \<in> set (pg_SuccessIDs pg).
       (\<exists>ts. delivered (fst (br ts)) i) \<and>
         (\<exists>q \<in> set (t_outbox (tabs w')). po_ExecutionID q = i \<and> po_State q = OutboxPublished) \<or>
       (\<exists>q \<in> set (t_outbox (chunk_stored cfg True kt batch rid v u w)). po_ExecutionID q = i \<and>
          po_State q \<in> {OutboxPublished, OutboxProcessing})) \<and>
    outbox_advance (tabs w) (chunk_stored cfg True kt batch rid v u w) \<and>
    outbox_advance (chunk_stored cfg True kt batch rid v u w) (tabs w')"
  using run
proof (rule chunk_cases)
  fix msg :: string assume "Inr pg = (Inr (chunk_error batch msg) :: goerr + Progress)" "msg \<noteq> ''''"
  with clean show ?thesis by (simp add: chunk_error_def)
next
  fix records0 nm records ms success failed pending res w1 fin
  assume cr: "CreateBatchRecordsForRequest (kt_create kt) rid (ib_Cases batch) v u = (records0, nm)"
    and ins: "tx_Do (chunk_insert cfg True kt records0 nm) w = (Inr (records, ms), w1)"
    and cl: "classify v records ms = Some (success, failed, pending)"
    and res: "res = chunk_publish br pending nm"
    and fin: "tx_Do (chunk_finish True kt (DispatchBatch (kt_fail kt) pending res) res) w1 = (fin, w')"
    and pg: "Inr pg = (Inr ((chunk_error batch
           (case fin of Inl err \<Rightarrow> appendErrorMessage (ErrorMessage res) (''status write-back failed: '' @ Error err)
            | Inr _ \<Rightarrow> ErrorMessage res))
           \<lparr>pg_SuccessIDs := success @ SuccessIDs res, pg_FailedIDs := failed @ FailedIDs res\<rparr>) :: goerr + Progress)"
  from pg clean have fin': "fin = Inr ()"
    by (cases fin) (auto simp: chunk_error_def appendErrorMessage_def split: if_splits)
  have ids: "pg_SuccessIDs pg = success @ SuccessIDs res" "pg_FailedIDs pg = failed @ FailedIDs res"
    using pg by simp_all
  have 1: "sound w1 \<and> exec_advance (tabs w) (tabs w1) \<and> outbox_advance (tabs w) (tabs w1)"
    using sound_step [OF sound adv.transaction [OF exec_store.insert_guarantees]
      oadv.transaction [OF outbox_store.insert_guarantees] ins] .
  from sound ins obtain wa wb where "chunk_insert cfg True kt records0 nm wa = (Inr (records, ms), wb)"
    "tabs w1 = tabs wb" by (rule tx_sound)
  from chunk_insert_Inr [OF this(1) rid] dispatch_records [OF cr] this(2)
  have ms: "list_all2 (\<lambda>r m. \<exists>q \<in> set (t_outbox (tabs w1)). m = OutboxMessage_ToEntity q \<and>
      po_ExecutionID q = er_ExecutionID r) records ms" by simp
  then have row: "\<exists>q \<in> set (t_outbox (tabs w1)). ms ! k = OutboxMessage_ToEntity q \<and>
      po_ExecutionID q = er_ExecutionID (records ! k)" if "k < length records" for k
    using that by (auto simp: list_all2_conv_all_nth)
  have len: "length ms = length records" using ms by (auto dest: list_all2_lengthD)
  have 2: "sound w' \<and> exec_advance (tabs w1) (tabs w') \<and> outbox_advance (tabs w1) (tabs w')"
    by (rule sound_step [OF conjunct1 [OF 1] adv.transaction oadv.transaction fin])
      (rule exec_store.chunk_finish_guarantees outbox_store.chunk_finish_guarantees; simp)+
  from 1 have "sound w1" by blast
  from this fin [unfolded fin'] obtain wc wd where wc: "sound wc" "chunk_finish True kt (DispatchBatch (kt_fail kt) pending res) res wc = (Inr (), wd)"
    "tabs w' = tabs wd" by (rule tx_sound)
  note done_rows = chunk_finish_Inr [OF wc(1,2), folded wc(3)]
  note replay = classify_replayed [OF cl len]
  have "\<exists>q \<in> set (t_outbox (tabs w')). po_ExecutionID q = i \<and> po_State q = OutboxDead" if i: "i \<in> set failed" for i
  proof -
    from replay i obtain k where k: "k < length records" "er_ExecutionID (records ! k) = i"
      "ReplayStatus (ms ! k) = (StatusDispatchFailed, True)" by blast
    from row [OF k(1)] obtain q where q: "q \<in> set (t_outbox (tabs w1))" "ms ! k = OutboxMessage_ToEntity q"
      "po_ExecutionID q = i" using k(2) by auto
    with k(3) have "po_State q = OutboxDead" by (auto dest!: ReplayStatus_cases)
    with settled_stays [of "tabs w1" "tabs w'" q] 1 2 q show ?thesis by (auto simp: sound_def settled_def)
  qed
  moreover have "\<exists>q \<in> set (t_outbox (tabs w1)). po_ExecutionID q = i \<and> po_State q \<in> {OutboxPublished, OutboxProcessing}"
    if i: "i \<in> set success" for i
  proof -
    from replay i obtain k where k: "k < length records" "er_ExecutionID (records ! k) = i"
      "ReplayStatus (ms ! k) = (StatusWait, True)" by blast
    from row [OF k(1)] k(2,3) show ?thesis by (auto dest!: ReplayStatus_cases)
  qed
  moreover have "\<exists>ts. delivered (fst (br ts)) i" if "i \<in> set (SuccessIDs res)" for i
    using chunk_publish_success that res by blast
  moreover have "tabs w1 = chunk_stored cfg True kt batch rid v u w" using cr ins by (simp add: chunk_stored_def)
  ultimately show ?thesis
    unfolding ids set_append using 1 2 done_rows by auto
qed

subsection \<open>Properties\<close>

definition demo_chunk :: indexedBatch where
  "demo_chunk = \<lparr>ib_Index = 0, ib_Cases = matching_cases (version_is ''v1'') (tabs demo_catalogue)\<rparr>"

definition demo_chunk_times :: chunk_times where
  "demo_chunk_times = \<lparr>kt_create = (\<lambda>_. 1), kt_outbox = 2, kt_fail = (\<lambda>_. 3), kt_published = 4\<rparr>"

definition demo_dispatch :: "mq_env \<Rightarrow> (goerr + Progress) \<times> world" where
  "demo_dispatch env = dispatchOneBatch demo_config True demo_chunk_times (BatchRun env) demo_chunk ''req-1'' ''v1''
     ''user'' demo_catalogue"

text \<open>C15: A chunk always reports: either it was given up as a whole, with an error and no ids, or every case
  of the chunk is accounted for by one id in one of the two lists, whatever the publisher returns and
  whatever the database does. On tables that are in order the ids are, in some order, those of the executions stored for
  the cases of the chunk, one after the other, under this request id and version, so that cases that differ
  have ids that differ and no id is in the lists twice.\<close>

theorem chunk_accounts_for_every_case:
  assumes "dispatchOneBatch cfg outbox kt br batch rid v u w = (r, w')" and "rid \<noteq> ''''"
  shows "\<exists>pg. r = Inr pg \<and> pg_ChunkIndex pg = ib_Index batch \<and>
    (pg_SuccessIDs pg = [] \<and> pg_FailedIDs pg = [] \<and> pg_ChunkError pg \<noteq> '''' \<or>
     length (pg_SuccessIDs pg) + length (pg_FailedIDs pg) = length (ib_Cases batch) \<and>
     (sound w \<longrightarrow>
        (\<exists>ids. mset ids = mset (pg_SuccessIDs pg @ pg_FailedIDs pg) \<and>
           list_all2 (case_execution (tabs w') rid v) (ib_Cases batch) ids) \<and>
        (distinct (map uc_CaseID (ib_Cases batch)) \<longrightarrow> distinct (pg_SuccessIDs pg @ pg_FailedIDs pg))))"
proof -
  from dispatch_chunk_total [OF assms] obtain pg where pg: "r = Inr pg" "pg_ChunkIndex pg = ib_Index batch"
    "pg_SuccessIDs pg = [] \<and> pg_FailedIDs pg = [] \<and> pg_ChunkError pg \<noteq> '''' \<or>
     length (pg_SuccessIDs pg) + length (pg_FailedIDs pg) = length (ib_Cases batch)" by blast
  have "distinct (pg_SuccessIDs pg @ pg_FailedIDs pg)"
    if "sound w" "mset ids = mset (pg_SuccessIDs pg @ pg_FailedIDs pg)"
      "list_all2 (case_execution (tabs w') rid v) (ib_Cases batch) ids" "distinct (map uc_CaseID (ib_Cases batch))" for ids
  proof -
    have "tables_ok (tabs w')"
      using sound_step [OF that(1) exec_store.chunk_guarantees outbox_store.chunk_guarantees assms(1)] by (auto simp: sound_def)
    from case_executions_distinct [OF this that(3,4)] show ?thesis using mset_eq_imp_distinct_iff [OF that(2)] by blast
  qed
  with pg dispatch_chunk_answers [OF assms(1) [unfolded pg(1)] _ assms(2)] show ?thesis by blast
qed

theorem chunk_accounts_for_every_case_witness:
  "\<exists>pg. fst (demo_dispatch (demo_env [Confirm 2 True] [])) = Inr pg \<and> pg_ChunkIndex pg = 0 \<and>
     distinct (pg_SuccessIDs pg @ pg_FailedIDs pg)"
proof -
  let ?d = "demo_dispatch (demo_env [Confirm 2 True] [])"
  have run: "?d = (fst ?d, snd ?d)" by simp
  moreover have "distinct (map uc_CaseID (ib_Cases demo_chunk))" by code_simp
  ultimately show ?thesis
    using chunk_accounts_for_every_case [OF run [unfolded demo_dispatch_def]] sound_demo
    unfolding demo_dispatch_def by (auto simp: demo_chunk_def)
qed

text \<open>A chunk that reports no error is telling the truth: every failed id has a DEAD message, and every
  successful one either was confirmed by the publisher in this call and is PUBLISHED now, or had been
  PUBLISHED or taken over by a relay before.\<close>

theorem clean_chunk_agrees_with_outbox:
  assumes "dispatchOneBatch cfg True kt br batch rid v u w = (Inr pg, w')" and "sound w"
    and "rid \<noteq> ''''" and "pg_ChunkError pg = ''''"
  shows "(\<forall>i \<in> set (pg_FailedIDs pg). \<exists>q \<in> set (t_outbox (tabs w')). po_ExecutionID q = i \<and> po_State q = OutboxDead) \<and>
    (\<forall>i \<in> set (pg_SuccessIDs pg).
       (\<exists>ts. delivered (fst (br ts)) i) \<and>
         (\<exists>q \<in> set (t_outbox (tabs w')). po_ExecutionID q = i \<and> po_State q = OutboxPublished) \<or>
       (\<exists>q \<in> set (t_outbox (chunk_stored cfg True kt batch rid v u w)). po_ExecutionID q = i \<and>
          po_State q \<in> {OutboxPublished, OutboxProcessing}))"
  using dispatch_chunk_clean [OF assms] by blast

lemma demo_dispatch_clean:
  "case fst (demo_dispatch (demo_env [Confirm 2 True, Confirm 1 True] [])) of Inl _ \<Rightarrow> False
   | Inr pg \<Rightarrow> pg_ChunkError pg = '''' \<and> pg_SuccessIDs pg = [1, 2]"
  by code_simp

theorem clean_chunk_agrees_with_outbox_witness:
  "\<exists>q \<in> set (t_outbox (tabs (snd (demo_dispatch (demo_env [Confirm 2 True, Confirm 1 True] []))))).
     po_ExecutionID q = 1 \<and> po_State q = OutboxPublished"
proof -
  let ?d = "demo_dispatch (demo_env [Confirm 2 True, Confirm 1 True] [])"
  let ?t = "chunk_stored demo_config True demo_chunk_times demo_chunk ''req-1'' ''v1'' ''user'' demo_catalogue"
  from demo_dispatch_clean obtain pg where pg: "fst ?d = Inr pg" "pg_ChunkError pg = ''''" "pg_SuccessIDs pg = [1, 2]"
    by (auto split: sum.splits)
  then have "?d = (Inr pg, snd ?d)" by (metis prod.collapse)
  note c = clean_chunk_agrees_with_outbox [OF this [unfolded demo_dispatch_def] sound_demo _ pg(2)]
  have "list_all (\<lambda>q. po_State q = OutboxPending) (t_outbox ?t)" by code_simp
  then have "\<not> (\<exists>q \<in> set (t_outbox ?t). po_ExecutionID q = 1 \<and> po_State q \<in> {OutboxPublished, OutboxProcessing})"
    by (auto simp: list_all_iff)
  moreover have "1 \<in> set (pg_SuccessIDs pg)" by (simp add: pg(3))
  ultimately show ?thesis using c unfolding demo_dispatch_def by blast
qed

text \<open>A chunk marks a message PUBLISHED only if the publisher named the execution as a success; a
  crash, a lost confirm or a failing statement can leave a sent message unmarked, never mark one that
  was not confirmed.\<close>

theorem chunk_publishes_confirmed:
  assumes "dispatchOneBatch cfg outbox kt br batch rid v u w = (r, w')"
    and "rely (published_only (\<Union>ts. set (SuccessIDs (fst (br ts))))) w"
    and "q \<in> set (t_outbox (tabs w'))" and "po_State q = OutboxPublished"
  shows "q \<in> set (t_outbox (tabs w)) \<or> (\<exists>ts. po_ExecutionID q \<in> set (SuccessIDs (fst (br ts))))"
proof -
  have "guarantees (published_only (\<Union>ts. set (SuccessIDs (fst (br ts)))))
      (dispatchOneBatch cfg outbox kt br batch rid v u)"
    by (rule pub_store.chunk_guarantees) auto
  from guaranteesD [OF this assms(2,1)] assms(3,4)
  have "q \<in> set (t_outbox (tabs w)) \<or> po_ExecutionID q \<in> (\<Union>ts. set (SuccessIDs (fst (br ts))))"
    unfolding within_def published_only_def by blast
  then show ?thesis by auto
qed

theorem chunk_publishes_confirmed_witness:
  "\<exists>q \<in> set (t_outbox (tabs (snd (demo_dispatch (demo_env [Confirm 2 True, CtxDone] []))))).
     po_State q = OutboxPublished \<and>
     (\<exists>ts. po_ExecutionID q \<in> set (SuccessIDs (fst (BatchRun (demo_env [Confirm 2 True, CtxDone] []) ts))))"
proof -
  let ?env = "demo_env [Confirm 2 True, CtxDone] []"
  have "list_ex (\<lambda>q. po_State q = OutboxPublished) (t_outbox (tabs (snd (demo_dispatch ?env))))" by code_simp
  then obtain q where q: "q \<in> set (t_outbox (tabs (snd (demo_dispatch ?env))))" "po_State q = OutboxPublished"
    by (auto simp: list_ex_iff)
  have "demo_dispatch ?env = (fst (demo_dispatch ?env), snd (demo_dispatch ?env))" by simp
  from chunk_publishes_confirmed [OF this [unfolded demo_dispatch_def] _ q(1) [unfolded demo_dispatch_def] q(2)] q
  show ?thesis by (auto simp: rely_def demo_catalogue_def)
qed

text \<open>The splitting of a publisher's result over the records of a chunk is the reference one: an id
  fails if it is named as failed or not named at all, succeeds otherwise, in the order of the records,
  and the message of the result is kept.\<close>

theorem completeBatchResult_reference:
  "completeBatchResult records result =
     result\<lparr>SuccessIDs := filter (delivered result) (map er_ExecutionID records),
            FailedIDs := filter (\<lambda>i. \<not> delivered result i) (map er_ExecutionID records)\<rparr>"
  by (rule completeBatchResult_filter)

text \<open>A request id that was accepted is not empty, at most 64 bytes long and free of outer white space,
  and accepting it again, with whatever random bytes, changes nothing: the id the handler
  normalised reaches the stored record as it was returned to the client.\<close>

theorem NormalizeRequestID_stable:
  assumes "NormalizeRequestID rand s = Inr r" and "\<And>bs. rand = Inr bs \<Longrightarrow> length bs = 16"
  shows "r \<noteq> '''' \<and> length r \<le> 64 \<and> NormalizeRequestID rand' r = Inr r"
  using NormalizeRequestID_Inr [OF assms] NormalizeRequestID_id by blast

theorem NormalizeRequestID_stable_witness:
  "NormalizeRequestID (Inl (ErrorsNew ''x'')) ''req-1'' = Inr ''req-1''"
proof -
  have "NormalizeRequestID (Inl (ErrorsNew ''x'')) '' req-1 '' = Inr ''req-1''" by code_simp
  from NormalizeRequestID_stable [OF this] show ?thesis by simp
qed

end
