(* ===== verification/Outbox_Relay.thy ===== *)
theory Outbox_Relay
  imports Case_Dispatch
begin

text \<open>
  The relay that delivers what the fast path left behind (\<open>usecase/outbox_relay.go\<close>): defaults,
  one pass (claim, publish, write back), the back-off, and the polling loop. Durations are
  64-bit words and the back-off multiplies them, so its overflow is in the model.
\<close>

subsection \<open>Configuration\<close>

record RelayConfig =
  rc_PollInterval :: duration
  rc_BatchSize :: int
  rc_LeaseDuration :: duration
  rc_MaxAttempts :: int
  rc_InitialBackoff :: duration
  rc_MaxBackoff :: duration

definition RelayConfig_withDefaults :: "RelayConfig \<Rightarrow> RelayConfig" where
  "RelayConfig_withDefaults c =
     c\<lparr>rc_PollInterval := (if rc_PollInterval c \<le>s 0 then Second else rc_PollInterval c),
       rc_BatchSize := (if rc_BatchSize c \<le> 0 then 200 else rc_BatchSize c),
       rc_LeaseDuration := (if rc_LeaseDuration c \<le>s 0 then 30 * Second else rc_LeaseDuration c),
       rc_MaxAttempts := (if rc_MaxAttempts c \<le> 0 then 8 else rc_MaxAttempts c),
       rc_InitialBackoff := (if rc_InitialBackoff c \<le>s 0 then Second else rc_InitialBackoff c),
       rc_MaxBackoff := (if rc_MaxBackoff c \<le>s 0 then Minute else rc_MaxBackoff c)\<rparr>"

subsection \<open>Back-off\<close>

text \<open>The loop, with the number of rounds that are left.\<close>

primrec backoff_loop :: "duration \<Rightarrow> nat \<Rightarrow> duration \<Rightarrow> duration" where
  "backoff_loop maxBackoff 0 delay = delay"
| "backoff_loop maxBackoff (Suc n) delay =
     (if delay <s maxBackoff
      then backoff_loop maxBackoff n
             (let delay = delay * 2 in if maxBackoff <s delay then maxBackoff else delay)
      else delay)"

definition retryBackoff :: "RelayConfig \<Rightarrow> int \<Rightarrow> duration" where
  "retryBackoff cfg attempt =
     (let attempt = (if attempt < 1 then 1 else attempt)
      in backoff_loop (rc_MaxBackoff cfg) (nat (attempt - 1)) (rc_InitialBackoff cfg))"

subsection \<open>One pass\<close>

definition bare_record :: "int64 \<Rightarrow> ExecutionRecord" where
  "bare_record i = \<lparr>er_ExecutionID = i, er_RequestID = '''', er_CaseID = 0, er_Version = '''',
     er_CreateBy = '''', er_ExecutionStatus = '''', er_CreateAt = zero_time, er_ExecuteAt = None,
     er_FinishAt = None\<rparr>"

definition message_by_id :: "OutboxMessage list \<Rightarrow> (int64 \<rightharpoonup> OutboxMessage)" where
  "message_by_id messages = fold (\<lambda>m f. f(om_ExecutionID m \<mapsto> m)) messages Map.empty"

record relay_split =
  rs_retry :: "int64 list"
  rs_dead :: "int64 list"
  rs_records :: "ExecutionRecord list"
  rs_attempt :: int

text \<open>Which failures are tried again; \<open>now i\<close> is the reading \<open>MarkAsDispatchFailed\<close> takes for execution \<open>i\<close>.\<close>

fun split_failures ::
  "int \<Rightarrow> (int64 \<Rightarrow> gotime) \<Rightarrow> (int64 \<rightharpoonup> OutboxMessage) \<Rightarrow> int64 list \<Rightarrow> relay_split \<Rightarrow> goerr + relay_split" where
  "split_failures maxAttempts now byID [] s = Inr s"
| "split_failures maxAttempts now byID (i # ids) s =
     (case byID i of
        None \<Rightarrow> split_failures maxAttempts now byID ids s
      | Some m \<Rightarrow>
          (let s = s\<lparr>rs_attempt := max (rs_attempt s) (om_Attempts m)\<rparr> in
           if om_Attempts m < maxAttempts
           then split_failures maxAttempts now byID ids (s\<lparr>rs_retry := rs_retry s @ [i]\<rparr>)
           else (case MarkAsDispatchFailed (now i) ((bare_record i)\<lparr>er_CaseID := om_CaseID m,
                        er_Version := om_Version m, er_ExecutionStatus := StatusWait\<rparr>) of
                   Inl e \<Rightarrow> Inl (wrap_prefix (''mark exhausted execution '' @ FormatInt i
                                            @ '' DISPATCH_FAILED: '') e)
                 | Inr r \<Rightarrow> split_failures maxAttempts now byID ids
                              (s\<lparr>rs_records := rs_records s @ [r], rs_dead := rs_dead s @ [i]\<rparr>))))"

definition relay_result ::
  "(ExecutionTask list \<Rightarrow> BatchResult \<times> goerr option) \<Rightarrow> OutboxMessage list \<Rightarrow> BatchResult" where
  "relay_result batchRun messages =
     (let (res, publishErr) = batchRun (map Task messages);
          res = completeBatchResult (map (\<lambda>m. bare_record (om_ExecutionID m)) messages) res;
          res = (case publishErr of
                   None \<Rightarrow> res
                 | Some e \<Rightarrow> (if ErrorMessage res = '''' then res\<lparr>ErrorMessage := Error e\<rparr> else res))
      in if ErrorMessage res = '''' \<and> FailedIDs res \<noteq> []
         then res\<lparr>ErrorMessage := ''outbox publish was not confirmed''\<rparr> else res)"

definition relay_finish ::
  "RelayConfig \<Rightarrow> gotime \<Rightarrow> string \<Rightarrow> BatchResult \<Rightarrow> relay_split \<Rightarrow> unit io" where
  "relay_finish cfg now leaseToken result s =
     io_then (ExecutionRepository_BatchUpdateStatus (rs_records s))
       (io_then (OutboxRepository_MarkPublished (SuccessIDs result) leaseToken now)
         (io_then (OutboxRepository_MarkDead (rs_dead s) leaseToken (ErrorMessage result))
           (if rs_retry s \<noteq> []
            then OutboxRepository_MarkRetry (rs_retry s) leaseToken
                   (add_time now (retryBackoff cfg (rs_attempt s))) (ErrorMessage result)
            else io_return ())))"

text \<open>What the world decides about a pass: the time, the locked rows, the random bytes of the token,
  the times of the failing marks, and the publisher.\<close>

record relay_env =
  re_now :: gotime
  re_locked :: "int64 \<Rightarrow> bool"
  re_rand :: "goerr + byte list"
  re_fail :: "int64 \<Rightarrow> gotime"
  re_batchRun :: "ExecutionTask list \<Rightarrow> BatchResult \<times> goerr option"

definition relay_dispatch :: "RelayConfig \<Rightarrow> relay_env \<Rightarrow> OutboxMessage list \<Rightarrow> goerr option io" where
  "relay_dispatch cfg env messages =
     (case messages of
        [] \<Rightarrow> io_return None
      | m # ms \<Rightarrow>
          (let leaseToken = om_LeaseToken m in
           if leaseToken = '''' then io_return (Some (ErrorsNew ''claimed outbox batch has an empty lease token''))
           else if \<exists>x \<in> set ms. om_LeaseToken x \<noteq> leaseToken
           then io_return (Some (ErrorsNew ''claimed outbox batch contains mixed lease tokens''))
           else
             (let result = relay_result (re_batchRun env) messages in
              case split_failures (rc_MaxAttempts cfg) (re_fail env) (message_by_id messages) (FailedIDs result)
                     \<lparr>rs_retry = [], rs_dead = [], rs_records = [], rs_attempt = 1\<rparr> of
                Inl e \<Rightarrow> io_return (Some e)
              | Inr s \<Rightarrow>
                  io_bind (io_try (tx_Do (relay_finish cfg (re_now env) leaseToken result s)))
                    (\<lambda>r. io_return (case r of Inl e \<Rightarrow> Some e | Inr _ \<Rightarrow> None)))))"

text \<open>\<open>None\<close> is Go's \<open>nil\<close>.\<close>

definition DispatchOnce :: "RelayConfig \<Rightarrow> relay_env \<Rightarrow> goerr option io" where
  "DispatchOnce cfg env =
     io_bind (io_try (OutboxRepository_ClaimPending (re_locked env) (re_rand env) (rc_BatchSize cfg)
                (re_now env) (add_time (re_now env) (rc_LeaseDuration cfg))))
       (\<lambda>r. case r of
          Inl e \<Rightarrow> io_return (Some (wrap_prefix ''claim outbox: '' e))
        | Inr messages \<Rightarrow> relay_dispatch cfg env messages)"

text \<open>The polling loop, up to the pass at which the context ends; an error is only logged.\<close>

fun relay_Run :: "RelayConfig \<Rightarrow> relay_env list \<Rightarrow> unit io" where
  "relay_Run cfg [] = io_return ()"
| "relay_Run cfg (env # envs) = io_then (DispatchOnce cfg env) (relay_Run cfg envs)"

subsection \<open>What a pass keeps\<close>

lemma relay_result_sets:
  "SuccessIDs (relay_result br ms) = filter (delivered (fst (br (map Task ms)))) (map om_ExecutionID ms)"
  "FailedIDs (relay_result br ms) = filter (\<lambda>i. \<not> delivered (fst (br (map Task ms))) i) (map om_ExecutionID ms)"
  by (simp_all add: relay_result_def completeBatchResult_filter bare_record_def o_def Let_def
      split: prod.splits option.splits)

context store_relation
begin

lemma relay_finish_guarantees:
  "set (SuccessIDs res) \<subseteq> confirmed \<Longrightarrow> guarantees R (relay_finish cfg now tok res s)"
  unfolding relay_finish_def by (intro pieces operations mark_published)

lemma relay_dispatch_guarantees:
  assumes "\<And>ts. set (SuccessIDs (fst (re_batchRun env ts))) \<subseteq> confirmed"
  shows "guarantees R (relay_dispatch cfg env messages)"
proof -
  have "set (SuccessIDs (relay_result (re_batchRun env) messages)) \<subseteq> confirmed"
    using assms [of "map Task messages"] by (auto simp: relay_result_sets delivered_def)
  then show ?thesis
    unfolding relay_dispatch_def Let_def
    by (cases messages) (auto intro!: pieces relay_finish_guarantees)
qed

lemma DispatchOnce_guarantees:
  assumes "\<And>ts. set (SuccessIDs (fst (re_batchRun env ts))) \<subseteq> confirmed"
    and "\<And>bs. re_rand env = Inr bs \<Longrightarrow> bs \<noteq> []"
  shows "guarantees R (DispatchOnce cfg env)"
  unfolding DispatchOnce_def
  by (intro pieces relay_dispatch_guarantees claim assms)

lemma relay_Run_guarantees:
  assumes "\<And>env ts. env \<in> set envs \<Longrightarrow> set (SuccessIDs (fst (re_batchRun env ts))) \<subseteq> confirmed"
    and "\<And>env bs. env \<in> set envs \<Longrightarrow> re_rand env = Inr bs \<Longrightarrow> bs \<noteq> []"
  shows "guarantees R (relay_Run cfg envs)"
  using assms
proof (induction envs)
  case Nil
  show ?case by (simp add: pieces)
next
  case (Cons env envs)
  have here: "guarantees R (DispatchOnce cfg env)"
    by (rule DispatchOnce_guarantees) (rule Cons.prems [OF list.set_intros(1)], assumption?)+
  have rest: "guarantees R (relay_Run cfg envs)"
    by (rule Cons.IH) (rule Cons.prems [OF list.set_intros(2)], assumption+)+
  show ?case unfolding relay_Run.simps by (intro pieces here rest)
qed

end
end
