(* ===== verification/Relay_Pass.thy ===== *)
theory Relay_Pass
  imports Outbox_Relay
begin

text \<open>
  What the relay promises: the back-off is the capped exponential one within stated bounds, a pass
  that reports no error has settled or rescheduled every message it claimed, a relay that has lost
  a lease writes nothing, nothing is marked delivered that was not confirmed, and in quiet times the
  passes drain the outbox.
\<close>

subsection \<open>The back-off\<close>

lemma sint_double:
  fixes d :: duration
  assumes "0 \<le> sint d" and "sint d < 2 ^ 62"
  shows "sint (d * 2) = sint d * 2"
proof -
  have "sint (d * 2) = signed_take_bit 63 (sint d * sint (2 :: duration))"
    by (simp add: sint_word_ariths)
  also have "sint (2 :: duration) = 2" by simp
  also have "signed_take_bit 63 (sint d * 2) = sint d * 2"
    using assms by (intro signed_take_bit_int_eq_self) auto
  finally show ?thesis .
qed

lemma backoff_loop_exact:
  assumes "0 < sint d" and "sint d \<le> sint M" and "sint M < 2 ^ 62"
  shows "sint (backoff_loop M n d) = min (sint d * 2 ^ n) (sint M)"
  using assms(1,2)
proof (induction n arbitrary: d)
  case 0
  then show ?case by simp
next
  case (Suc n)
  have pow: "1 \<le> (2 :: int) ^ n" by simp
  show ?case
  proof (cases "sint d < sint M")
    case False
    then have "sint d = sint M" using Suc.prems by simp
    moreover have "sint M * 1 \<le> sint M * 2 ^ Suc n"
    proof (rule mult_left_mono)
      show "1 \<le> (2 :: int) ^ Suc n" by (rule one_le_power) simp
    qed (use Suc.prems in simp)
    ultimately show ?thesis by (simp add: word_sless_alt)
  next
    case True
    with Suc.prems assms(3) have dbl: "sint (d * 2) = sint d * 2" by (intro sint_double) auto
    show ?thesis
    proof (cases "sint M < sint d * 2")
      case False
      with True Suc.IH [of "d * 2"] Suc.prems dbl show ?thesis
        by (simp add: word_sless_alt Let_def mult.assoc)
    next
      case over: True
      have "sint d * 2 * 1 \<le> sint d * 2 * 2 ^ n"
        using Suc.prems pow by (intro mult_left_mono) auto
      with over have "sint M \<le> sint d * (2 * 2 ^ n)" by (simp add: mult.assoc)
      moreover have "sint M * 1 \<le> sint M * 2 ^ n" using Suc.prems pow by (intro mult_left_mono) auto
      ultimately show ?thesis
        using True over Suc.IH [of M] Suc.prems dbl by (simp add: word_sless_alt Let_def)
    qed
  qed
qed

subsection \<open>Which failures are tried again\<close>

definition dead_record :: "(int64 \<Rightarrow> gotime) \<Rightarrow> (int64 \<rightharpoonup> OutboxMessage) \<Rightarrow> int64 \<Rightarrow> ExecutionRecord" where
  "dead_record now byID i =
     (case byID i of None \<Rightarrow> bare_record i
      | Some m \<Rightarrow> (bare_record i)\<lparr>er_CaseID := om_CaseID m, er_Version := om_Version m,
          er_ExecutionStatus := StatusDispatchFailed, er_FinishAt := Some (now i)\<rparr>)"

definition retried_ids :: "int \<Rightarrow> (int64 \<rightharpoonup> OutboxMessage) \<Rightarrow> int64 list \<Rightarrow> int64 list" where
  "retried_ids M byID ids = filter (\<lambda>i. case byID i of None \<Rightarrow> False | Some m \<Rightarrow> om_Attempts m < M) ids"

definition dead_ids :: "int \<Rightarrow> (int64 \<rightharpoonup> OutboxMessage) \<Rightarrow> int64 list \<Rightarrow> int64 list" where
  "dead_ids M byID ids = filter (\<lambda>i. case byID i of None \<Rightarrow> False | Some m \<Rightarrow> \<not> om_Attempts m < M) ids"

definition highest_attempt :: "(int64 \<rightharpoonup> OutboxMessage) \<Rightarrow> int64 list \<Rightarrow> int \<Rightarrow> int" where
  "highest_attempt byID ids a =
     fold (\<lambda>i a. case byID i of None \<Rightarrow> a | Some m \<Rightarrow> max a (om_Attempts m)) ids a"

text \<open>The branch that gives up because a record cannot be marked is never taken.\<close>

lemma split_failures_total:
  "split_failures M now byID ids s =
     Inr (s\<lparr>rs_retry := rs_retry s @ retried_ids M byID ids, rs_dead := rs_dead s @ dead_ids M byID ids,
            rs_records := rs_records s @ map (dead_record now byID) (dead_ids M byID ids),
            rs_attempt := highest_attempt byID ids (rs_attempt s)\<rparr>)"
proof (induction M now byID ids s rule: split_failures.induct)
  case (1 M now byID s)
  show ?case by (simp add: retried_ids_def dead_ids_def highest_attempt_def)
next
  case (2 M now byID i ids s)
  show ?case
  proof (cases "byID i")
    case None
    with 2(1) show ?thesis by (simp add: retried_ids_def dead_ids_def highest_attempt_def)
  next
    case (Some m)
    have mark: "MarkAsDispatchFailed (now i) ((bare_record i)\<lparr>er_CaseID := om_CaseID m,
        er_Version := om_Version m, er_ExecutionStatus := StatusWait\<rparr>) = Inr (dead_record now byID i)"
      using Some by (simp add: MarkAsDispatchFailed_Inr dead_record_def)
    show ?thesis
    proof (cases "om_Attempts m < M")
      case True
      with Some 2(2) show ?thesis by (simp add: retried_ids_def dead_ids_def highest_attempt_def)
    next
      case False
      with Some mark 2(3) show ?thesis by (simp add: retried_ids_def dead_ids_def highest_attempt_def)
    qed
  qed
qed

lemma highest_attempt_le: "a \<le> highest_attempt byID ids a"
proof (induction ids arbitrary: a)
  case (Cons i ids)
  have "a \<le> (case byID i of None \<Rightarrow> a | Some m \<Rightarrow> max a (om_Attempts m))" by (simp split: option.splits)
  with Cons [of "case byID i of None \<Rightarrow> a | Some m \<Rightarrow> max a (om_Attempts m)"] show ?case
    by (simp add: highest_attempt_def)
qed (simp add: highest_attempt_def)

lemma highest_attempt_ge:
  "i \<in> set ids \<Longrightarrow> byID i = Some m \<Longrightarrow> om_Attempts m \<le> highest_attempt byID ids a"
proof (induction ids arbitrary: a)
  case (Cons j ids)
  show ?case
  proof (cases "i = j")
    case True
    with Cons.prems have "om_Attempts m \<le> max a (om_Attempts m)" by simp
    also have "\<dots> \<le> highest_attempt byID ids (max a (om_Attempts m))" by (rule highest_attempt_le)
    finally show ?thesis using True Cons.prems by (simp add: highest_attempt_def)
  next
    case False
    with Cons show ?thesis by (simp add: highest_attempt_def)
  qed
qed simp

lemma message_by_id_distinct:
  assumes "distinct (map om_ExecutionID ms)"
  shows "message_by_id ms i = find (\<lambda>m. om_ExecutionID m = i) ms"
proof -
  have "fold (\<lambda>m f. f(om_ExecutionID m \<mapsto> m)) ms f i =
      (case find (\<lambda>m. om_ExecutionID m = i) ms of None \<Rightarrow> f i | Some m \<Rightarrow> Some m)" for f
    using assms
  proof (induction ms arbitrary: f)
    case (Cons m ms)
    then have none: "find (\<lambda>x. om_ExecutionID x = om_ExecutionID m) ms = None"
      by (auto simp: find_None_iff image_iff)
    with Cons show ?case by (auto split: option.splits)
  qed simp
  then show ?thesis by (simp add: message_by_id_def split: option.splits)
qed

subsection \<open>The write-back\<close>

text \<open>A row that a conditional update does not name stays, and none comes to be held by it.\<close>

lemma update_keeps:
  assumes "tables_ok (tabs w)" and "updateByExecutionIDs ids tok f w = (Inr (), w')"
    and "r \<in> set (t_outbox (tabs w))" and "po_ExecutionID r \<notin> set ids"
  shows "r \<in> set (t_outbox (tabs w'))"
  using updateByExecutionIDs_Inr [OF assms(1,2)] assms(3,4)
  by (auto simp: apply_where_def image_iff intro!: bexI [of _ r])

lemma holds_lease_cong: "t_coll t' = t_coll t \<Longrightarrow> holds_lease tok t' = holds_lease tok t"
  by (intro ext) (simp only: holds_lease_def)

lemma update_held_before:
  assumes "tables_ok (tabs w)" and "updateByExecutionIDs ids tok f w = (Inr (), w')"
    and f: "\<And>r. po_State (f r) \<noteq> OutboxProcessing"
    and "r \<in> set (t_outbox (tabs w'))" and "holds_lease tok (tabs w') r" and "tok \<noteq> ''''"
  shows "r \<in> set (t_outbox (tabs w)) \<and> holds_lease tok (tabs w) r"
proof -
  from updateByExecutionIDs_Inr [OF assms(1,2)] have t: "tabs w' = (tabs w)\<lparr>t_outbox := apply_where
      (\<lambda>r. po_ExecutionID r \<in> set ids \<and> holds_lease tok (tabs w) r)
      (\<lambda>r. (f r)\<lparr>po_UpdatedAt := clock w\<rparr>) (t_outbox (tabs w))\<rparr>" by blast
  from assms(4) t obtain x where x: "x \<in> set (t_outbox (tabs w))"
    "r = (if po_ExecutionID x \<in> set ids \<and> holds_lease tok (tabs w) x
      then (f x)\<lparr>po_UpdatedAt := clock w\<rparr> else x)" by (auto simp: apply_where_def)
  have "po_State r = OutboxProcessing" using assms(5,6) by (simp add: holds_lease_def)
  with x f [of x] have "r = x" by (auto split: if_splits)
  moreover have "t_coll (tabs w') = t_coll (tabs w)" using t by simp
  ultimately show ?thesis using x(1) assms(5) unfolding holds_lease_def by (auto split: if_splits)
qed

lemma update_ok:
  assumes "tables_ok (tabs w)" and "updateByExecutionIDs ids tok f w = (Inr (), w')"
    and "\<And>r. po_OutboxID (f r) = po_OutboxID r \<and> po_ExecutionID (f r) = po_ExecutionID r"
  shows "tables_ok (tabs w') \<and> t_execs (tabs w') = t_execs (tabs w)"
  using updateByExecutionIDs_Inr [OF assms(1,2)] assms(1,3)
    keeps_ok_apply_outbox [of "\<lambda>r. (f r)\<lparr>po_UpdatedAt := clock w\<rparr>" "tabs w"]
  by (simp add: keeps_ok_def)

text \<open>The state a claimed message is left in.\<close>

datatype verdict = Delivered | Retry gotime string | GivenUp string

definition verdict_row :: "gotime \<Rightarrow> verdict \<Rightarrow> OutboxMessagePO \<Rightarrow> bool" where
  "verdict_row now v q \<longleftrightarrow> po_LeaseToken q = '''' \<and> po_LeaseUntil q = None \<and>
     (case v of
        Delivered \<Rightarrow> po_State q = OutboxPublished \<and> po_PublishedAt q = Some now \<and> po_LastError q = ''''
      | Retry at e \<Rightarrow> po_State q = OutboxPending \<and> po_AvailableAt q = at \<and> po_LastError q = truncateOutboxError e
      | GivenUp e \<Rightarrow> po_State q = OutboxDead \<and> po_LastError q = truncateOutboxError e)"

text \<open>The three updates of the write-back, seen as one: they touch disjoint sets of messages.\<close>

lemma three_updates:
  assumes ok: "tables_ok (tabs w)" and tok: "tok \<noteq> ''''"
    and dis: "set A \<inter> set B = {}" "set A \<inter> set C = {}" "set B \<inter> set C = {}"
    and f: "\<And>r. po_OutboxID (f r) = po_OutboxID r \<and> po_ExecutionID (f r) = po_ExecutionID r \<and> po_State (f r) \<noteq> OutboxProcessing"
    and g: "\<And>r. po_OutboxID (g r) = po_OutboxID r \<and> po_ExecutionID (g r) = po_ExecutionID r \<and> po_State (g r) \<noteq> OutboxProcessing"
    and h: "\<And>r. po_ExecutionID (h r) = po_ExecutionID r"
    and 1: "updateByExecutionIDs A tok f w = (Inr (), w1)"
    and 2: "updateByExecutionIDs B tok g w1 = (Inr (), w2)"
    and 3: "updateByExecutionIDs C tok h w2 = (Inr (), w3)"
  shows "(\<forall>i \<in> set A \<union> set B \<union> set C. \<exists>r \<in> set (t_outbox (tabs w)). po_ExecutionID r = i \<and> holds_lease tok (tabs w) r) \<and>
    t_execs (tabs w3) = t_execs (tabs w) \<and>
    (\<forall>i \<in> set A. \<exists>r. po_ExecutionID r = i \<and> (f r)\<lparr>po_UpdatedAt := clock w\<rparr> \<in> set (t_outbox (tabs w3))) \<and>
    (\<forall>i \<in> set B. \<exists>r. po_ExecutionID r = i \<and> (g r)\<lparr>po_UpdatedAt := clock w1\<rparr> \<in> set (t_outbox (tabs w3))) \<and>
    (\<forall>i \<in> set C. \<exists>r. po_ExecutionID r = i \<and> (h r)\<lparr>po_UpdatedAt := clock w2\<rparr> \<in> set (t_outbox (tabs w3)))"
proof -
  have ok1: "tables_ok (tabs w1)" "t_execs (tabs w1) = t_execs (tabs w)" using update_ok [OF ok 1] f by simp_all
  have ok2: "tables_ok (tabs w2)" "t_execs (tabs w2) = t_execs (tabs w1)" using update_ok [OF ok1(1) 2] g by simp_all
  have ex3: "t_execs (tabs w3) = t_execs (tabs w2)" using updateByExecutionIDs_Inr [OF ok2(1) 3] by simp
  note back1 = update_held_before [OF ok 1 conjunct2 [OF conjunct2 [OF f]] _ _ tok]
  note back2 = update_held_before [OF ok1(1) 2 conjunct2 [OF conjunct2 [OF g]] _ _ tok]
  have held: "\<exists>r \<in> set (t_outbox (tabs w)). po_ExecutionID r = i \<and> holds_lease tok (tabs w) r"
    if "i \<in> set A \<union> set B \<union> set C" for i
    using that updateByExecutionIDs_Inr [OF ok 1] updateByExecutionIDs_Inr [OF ok1(1) 2]
      updateByExecutionIDs_Inr [OF ok2(1) 3] back1 back2 by (metis Un_iff)
  have A: "\<exists>r. po_ExecutionID r = i \<and> (f r)\<lparr>po_UpdatedAt := clock w\<rparr> \<in> set (t_outbox (tabs w3))" if i: "i \<in> set A" for i
  proof -
    from updateByExecutionIDs_state [OF ok 1 i] f obtain r where r: "po_ExecutionID r = i"
      "(f r)\<lparr>po_UpdatedAt := clock w\<rparr> \<in> set (t_outbox (tabs w1))" by blast
    have n: "i \<notin> set B" "i \<notin> set C" using i dis by auto
    with update_keeps [OF ok2(1) 3 update_keeps [OF ok1(1) 2 r(2)]] f [of r] r(1) show ?thesis by auto
  qed
  have B: "\<exists>r. po_ExecutionID r = i \<and> (g r)\<lparr>po_UpdatedAt := clock w1\<rparr> \<in> set (t_outbox (tabs w3))" if i: "i \<in> set B" for i
  proof -
    from updateByExecutionIDs_state [OF ok1(1) 2 i] g obtain r where r: "po_ExecutionID r = i"
      "(g r)\<lparr>po_UpdatedAt := clock w1\<rparr> \<in> set (t_outbox (tabs w2))" by blast
    have "i \<notin> set C" using i dis by auto
    with update_keeps [OF ok2(1) 3 r(2)] g [of r] r(1) show ?thesis by auto
  qed
  have C: "\<exists>r. po_ExecutionID r = i \<and> (h r)\<lparr>po_UpdatedAt := clock w2\<rparr> \<in> set (t_outbox (tabs w3))" if i: "i \<in> set C" for i
    using updateByExecutionIDs_state [OF ok2(1) 3 i] h by blast
  show ?thesis using held A B C ok1(2) ok2(2) ex3 by simp
qed

text \<open>The verdict on a message, from the publisher's result and its attempts.\<close>

definition verdict_of ::
  "RelayConfig \<Rightarrow> gotime \<Rightarrow> BatchResult \<Rightarrow> (int64 \<rightharpoonup> OutboxMessage) \<Rightarrow> int64 \<Rightarrow> verdict" where
  "verdict_of cfg now res byID i =
     (if i \<in> set (SuccessIDs res) then Delivered
      else if i \<in> set (retried_ids (rc_MaxAttempts cfg) byID (FailedIDs res))
      then Retry (add_time now (retryBackoff cfg (highest_attempt byID (FailedIDs res) 1))) (ErrorMessage res)
      else GivenUp (ErrorMessage res))"

lemma MarkRetry_if:
  "(if ids \<noteq> [] then OutboxRepository_MarkRetry ids tok at e else io_return ()) = OutboxRepository_MarkRetry ids tok at e"
  by (auto simp: mark_defs updateByExecutionIDs_def)

lemma write_back_dead:
  assumes "p \<in> set ps" and "pe_ExecutionID p \<in> er_ExecutionID ` set records"
    and "\<And>r. r \<in> set records \<Longrightarrow> er_ExecutionStatus r = StatusDispatchFailed"
    and "distinct (map er_ExecutionID records)"
  shows "pe_ExecutionID (write_back records UNIV p) = pe_ExecutionID p \<and>
    pe_ExecutionStatus (write_back records UNIV p) =
      (if pe_ExecutionStatus p = StatusWait then StatusDispatchFailed else pe_ExecutionStatus p)"
proof (cases "pe_ExecutionStatus p = StatusWait")
  case True
  from assms(2,3) True have "target_status records p = Some StatusDispatchFailed"
    using target_status_iff [OF assms(4), of StatusDispatchFailed p]
    by (auto simp: group_ids_def image_iff)
  then show ?thesis using True by (simp add: write_back_def write_status_def)
qed (simp add: write_back_def)

lemma relay_finish_Inr:
  fixes byID :: "int64 \<rightharpoonup> OutboxMessage" and cfg :: RelayConfig and res :: BatchResult
  defines "retry \<equiv> retried_ids (rc_MaxAttempts cfg) byID (FailedIDs res)"
    and "dead \<equiv> dead_ids (rc_MaxAttempts cfg) byID (FailedIDs res)"
  assumes sound: "sound w" and tok: "tok \<noteq> ''''"
    and run: "relay_finish cfg now tok res \<lparr>rs_retry = retry, rs_dead = dead,
        rs_records = map (dead_record fail byID) (dead),
        rs_attempt = highest_attempt byID (FailedIDs res) 1\<rparr> w = (Inr (), w')"
    and dis: "set (SuccessIDs res) \<inter> set (FailedIDs res) = {}" "distinct (FailedIDs res)"
    and i: "i \<in> set (SuccessIDs res) \<or> i \<in> set (FailedIDs res) \<and> byID i \<noteq> None"
  shows "(\<exists>r \<in> set (t_outbox (tabs w)). po_ExecutionID r = i \<and> holds_lease tok (tabs w) r) \<and>
    (\<exists>q \<in> set (t_outbox (tabs w')). po_ExecutionID q = i \<and> verdict_row now (verdict_of cfg now res byID i) q) \<and>
    ((\<exists>e. verdict_of cfg now res byID i = GivenUp e) \<longrightarrow>
       (\<exists>p \<in> set (t_execs (tabs w')). pe_ExecutionID p = i \<and> pe_ExecutionStatus p \<noteq> StatusWait))"
proof -
  let ?A = "SuccessIDs res" and ?B = "dead" and ?C = "retry"
  let ?records = "map (dead_record fail byID) ?B"
  let ?at = "add_time now (retryBackoff cfg (highest_attempt byID (FailedIDs res) 1))"
  from run obtain w0 w1 w2 where 0: "ExecutionRepository_BatchUpdateStatus ?records w = (Inr (), w0)"
    and 1: "updateByExecutionIDs ?A tok (published_row now) w0 = (Inr (), w1)"
    and 2: "updateByExecutionIDs ?B tok (dead_row (ErrorMessage res)) w1 = (Inr (), w2)"
    and 3: "updateByExecutionIDs ?C tok (retry_row ?at (ErrorMessage res)) w2 = (Inr (), w')"
    unfolding relay_finish_def relay_split.simps MarkRetry_if unfolding mark_defs by (auto simp: io_then_Inr)
  have ids: "map er_ExecutionID ?records = ?B" by (auto simp: dead_record_def bare_record_def split: option.splits intro!: map_idI)
  have "distinct ?B" using dis(2) by (simp add: dead_def dead_ids_def)
  with ids have drec: "distinct (map er_ExecutionID ?records)" by simp
  have t0: "tabs w0 = (tabs w)\<lparr>t_execs := map (write_back ?records UNIV) (t_execs (tabs w))\<rparr>"
    by (rule BatchUpdateStatus_write_back [OF drec 0])
  have "sound w0" using sound_step [OF sound adv_BatchUpdateStatus oadv_BatchUpdateStatus 0] by simp
  then have ok: "tables_ok (tabs w0)" by (simp add: sound_def)
  have BC: "set ?B \<union> set ?C = {i \<in> set (FailedIDs res). byID i \<noteq> None}" "set ?B \<inter> set ?C = {}"
    by (auto simp: dead_def retry_def dead_ids_def retried_ids_def split: option.splits)
  then have "set ?A \<inter> set ?B = {}" "set ?A \<inter> set ?C = {}" "set ?B \<inter> set ?C = {}" using dis(1) by auto
  note three = three_updates [OF ok tok this _ _ _ 1 2 3]
  have three': "(\<forall>i \<in> set ?A \<union> set ?B \<union> set ?C. \<exists>r \<in> set (t_outbox (tabs w0)). po_ExecutionID r = i \<and> holds_lease tok (tabs w0) r) \<and>
    t_execs (tabs w') = t_execs (tabs w0) \<and>
    (\<forall>i \<in> set ?A. \<exists>r. po_ExecutionID r = i \<and> (published_row now r)\<lparr>po_UpdatedAt := clock w0\<rparr> \<in> set (t_outbox (tabs w'))) \<and>
    (\<forall>i \<in> set ?B. \<exists>r. po_ExecutionID r = i \<and> (dead_row (ErrorMessage res) r)\<lparr>po_UpdatedAt := clock w1\<rparr> \<in> set (t_outbox (tabs w'))) \<and>
    (\<forall>i \<in> set ?C. \<exists>r. po_ExecutionID r = i \<and> (retry_row ?at (ErrorMessage res) r)\<lparr>po_UpdatedAt := clock w2\<rparr> \<in> set (t_outbox (tabs w')))"
    by (rule three) (simp_all add: row_defs)
  have iin: "i \<in> set ?A \<union> set ?B \<union> set ?C" using i BC by blast
  have q: "\<exists>q \<in> set (t_outbox (tabs w')). po_ExecutionID q = i \<and> verdict_row now (verdict_of cfg now res byID i) q"
  proof (cases "i \<in> set ?A")
    case True
    with three' obtain r where "po_ExecutionID r = i" "(published_row now r)\<lparr>po_UpdatedAt := clock w0\<rparr> \<in> set (t_outbox (tabs w'))"
      by blast
    with True show ?thesis by (auto simp: verdict_of_def verdict_row_def row_defs elim!: bexI [rotated])
  next
    case notA: False
    show ?thesis
    proof (cases "i \<in> set ?C")
      case True
      with three' obtain r where "po_ExecutionID r = i"
        "(retry_row ?at (ErrorMessage res) r)\<lparr>po_UpdatedAt := clock w2\<rparr> \<in> set (t_outbox (tabs w'))" by blast
      with True notA show ?thesis
        by (auto simp: verdict_of_def verdict_row_def row_defs retry_def elim!: bexI [rotated])
    next
      case False
      with iin notA three' obtain r where "po_ExecutionID r = i"
        "(dead_row (ErrorMessage res) r)\<lparr>po_UpdatedAt := clock w1\<rparr> \<in> set (t_outbox (tabs w'))" by blast
      with False notA show ?thesis
        by (auto simp: verdict_of_def verdict_row_def row_defs retry_def elim!: bexI [rotated])
    qed
  qed
  have p: "\<exists>p \<in> set (t_execs (tabs w')). pe_ExecutionID p = i \<and> pe_ExecutionStatus p \<noteq> StatusWait"
    if "verdict_of cfg now res byID i = GivenUp e" for e
  proof -
    from that iin have iB: "i \<in> set ?B" by (auto simp: verdict_of_def retry_def split: if_splits)
    have st: "er_ExecutionStatus r = StatusDispatchFailed" if "r \<in> set ?records" for r
      using that by (auto simp: dead_record_def dead_def dead_ids_def split: option.splits)
    from iB have "dead_record fail byID i \<in> set ?records" "er_ExecutionID (dead_record fail byID i) = i"
      by (auto simp: dead_record_def bare_record_def split: option.splits)
    with BatchUpdateStatus_present [OF _ 0, of "dead_record fail byID i"] sound st
    obtain p where p: "p \<in> set (t_execs (tabs w))" "pe_ExecutionID p = i" by (auto simp: sound_def)
    have "i \<in> er_ExecutionID ` set ?records" using iB ids by (metis list.set_map)
    with write_back_dead [OF p(1) _ st drec] p have "pe_ExecutionID (write_back ?records UNIV p) = i"
      "pe_ExecutionStatus (write_back ?records UNIV p) \<noteq> StatusWait" by auto
    moreover have "write_back ?records UNIV p \<in> set (t_execs (tabs w'))" using three' t0 p(1) by simp
    ultimately show ?thesis by blast
  qed
  have "holds_lease tok (tabs w0) = holds_lease tok (tabs w)" by (rule holds_lease_cong) (simp add: t0)
  moreover have "t_outbox (tabs w0) = t_outbox (tabs w)" by (simp add: t0)
  ultimately have "\<exists>r \<in> set (t_outbox (tabs w)). po_ExecutionID r = i \<and> holds_lease tok (tabs w) r"
    using three' iin by metis
  with q p show ?thesis by blast
qed

subsection \<open>One pass\<close>

text \<open>The messages a pass works on, as the claim returns them, and the verdict on each.\<close>

definition claim_of :: "RelayConfig \<Rightarrow> relay_env \<Rightarrow> world \<Rightarrow> OutboxMessagePO list" where
  "claim_of cfg env w =
     claimed_rows_of (re_locked env) (claim_limit (rc_BatchSize cfg)) (re_now env) (t_outbox (tabs (interfere w)))"

definition claimed_messages :: "RelayConfig \<Rightarrow> relay_env \<Rightarrow> string \<Rightarrow> OutboxMessagePO list \<Rightarrow> OutboxMessage list" where
  "claimed_messages cfg env tok rows =
     map (\<lambda>r. OutboxMessage_ToEntity (lease_row (add_time (re_now env) (rc_LeaseDuration cfg)) tok r)) rows"

definition pass_verdict :: "RelayConfig \<Rightarrow> relay_env \<Rightarrow> OutboxMessage list \<Rightarrow> OutboxMessage \<Rightarrow> verdict" where
  "pass_verdict cfg env ms m =
     (let res = relay_result (re_batchRun env) ms in
      if delivered (fst (re_batchRun env (map Task ms))) (om_ExecutionID m) then Delivered
      else if om_Attempts m < rc_MaxAttempts cfg
      then Retry (add_time (re_now env) (retryBackoff cfg (highest_attempt (message_by_id ms) (FailedIDs res) 1)))
             (ErrorMessage res)
      else GivenUp (ErrorMessage res))"

lemma claimed_distinct:
  assumes "tables_ok t"
  shows "distinct (map om_ExecutionID (claimed_messages cfg env tok (claimed_rows_of locked l now (t_outbox t))))"
proof -
  have "distinct (map po_ExecutionID (filter (\<lambda>r. claimable now r \<and> \<not> locked (po_OutboxID r)) (t_outbox t)))"
    using tables_ok_distinct_exec [OF assms] by (rule distinct_map_filter)
  then have "distinct (map po_ExecutionID (sort_key po_OutboxID
      (filter (\<lambda>r. claimable now r \<and> \<not> locked (po_OutboxID r)) (t_outbox t))))"
    by (simp add: distinct_map)
  then have "distinct (map po_ExecutionID (claimed_rows_of locked l now (t_outbox t)))"
    unfolding claimed_rows_of_def take_map [symmetric] by (rule distinct_take)
  then show ?thesis by (simp add: claimed_messages_def o_def lease_row_def)
qed

lemma verdict_of_pass:
  assumes d: "distinct (map om_ExecutionID ms)" and m: "m \<in> set ms"
  shows "verdict_of cfg (re_now env) (relay_result (re_batchRun env) ms) (message_by_id ms) (om_ExecutionID m)
    = pass_verdict cfg env ms m"
proof -
  have "find (\<lambda>x. om_ExecutionID x = om_ExecutionID m) ms = Some m"
    using d m by (induction ms) (auto simp: image_iff)
  then have "message_by_id ms (om_ExecutionID m) = Some m" using message_by_id_distinct [OF d] by simp
  then show ?thesis
    using m by (auto simp: verdict_of_def pass_verdict_def Let_def relay_result_sets retried_ids_def)
qed

text \<open>The two runs of a pass: nothing to do, or a claim, a publication and a write-back.\<close>

lemma DispatchOnce_cases:
  assumes sound: "sound w" and rand: "\<And>bs. re_rand env = Inr bs \<Longrightarrow> bs \<noteq> []"
    and run: "DispatchOnce cfg env w = (Inr None, w')"
  obtains (idle) random w1 where "re_rand env = Inr random" and "claim_of cfg env w = []" and "w' = w1"
      and "tabs w1 = tabs (interfere w)"
    | (passed) random w1 ms res where "re_rand env = Inr random" and "sound w1"
      and "ms = claimed_messages cfg env (hex_encode random) (claim_of cfg env w)" and "ms \<noteq> []"
      and "hex_encode random \<noteq> ''''" and "distinct (map om_ExecutionID ms)"
      and "tabs w1 = leased_table (\<lambda>r. r \<in> set (claim_of cfg env w)) (add_time (re_now env) (rc_LeaseDuration cfg))
             (hex_encode random) (clock w) (tabs (interfere w))"
      and "res = relay_result (re_batchRun env) ms"
      and "tx_Do (relay_finish cfg (re_now env) (hex_encode random) res
             \<lparr>rs_retry = retried_ids (rc_MaxAttempts cfg) (message_by_id ms) (FailedIDs res),
              rs_dead = dead_ids (rc_MaxAttempts cfg) (message_by_id ms) (FailedIDs res),
              rs_records = map (dead_record (re_fail env) (message_by_id ms))
                (dead_ids (rc_MaxAttempts cfg) (message_by_id ms) (FailedIDs res)),
              rs_attempt = highest_attempt (message_by_id ms) (FailedIDs res) 1\<rparr>) w1 = (Inr (), w')"
proof -
  let ?until = "add_time (re_now env) (rc_LeaseDuration cfg)"
  let ?claim = "OutboxRepository_ClaimPending (re_locked env) (re_rand env) (rc_BatchSize cfg) (re_now env) ?until"
  from run obtain r w1 where c: "?claim w = (r, w1)" and rest: "(case r of
      Inl e \<Rightarrow> io_return (Some (wrap_prefix ''claim outbox: '' e)) | Inr messages \<Rightarrow> relay_dispatch cfg env messages) w1
      = (Inr None, w')"
    unfolding DispatchOnce_def io_bind_Inr io_try_Inr by blast
  from rest obtain ms where r: "r = Inr ms" and d: "relay_dispatch cfg env ms w1 = (Inr None, w')"
    by (cases r) (auto simp: io_return_Inr)
  have ok: "tables_ok (tabs (interfere w))" using sound_interfere [OF sound] by (simp add: sound_def)
  have sound1: "sound w1"
    using sound_step [OF sound adv_outbox_repository(3) oadv_ClaimPending c] by simp
  from ClaimPending_Inr [OF ok c [unfolded r]] obtain random where random: "re_rand env = Inr random"
    and ms: "ms = claimed_messages cfg env (hex_encode random) (claim_of cfg env w)"
    and t1: "tabs w1 = leased_table (\<lambda>r. r \<in> set (claim_of cfg env w)) ?until (hex_encode random) (clock w) (tabs (interfere w))"
    unfolding claimed_messages_def claim_of_def by blast
  have tok: "hex_encode random \<noteq> ''''" using rand [OF random] by (cases random) auto
  have dist: "distinct (map om_ExecutionID ms)" unfolding ms claim_of_def by (rule claimed_distinct [OF ok])
  have mtok: "om_LeaseToken m = hex_encode random" if "m \<in> set ms" for m
    using that by (auto simp: ms claimed_messages_def lease_row_def)
  show ?thesis
  proof (cases ms)
    case Nil
    with ms have "claim_of cfg env w = []" by (simp add: claimed_messages_def)
    moreover from Nil d have "w' = w1" by (simp add: relay_dispatch_def io_return_Inr)
    moreover have "tabs w1 = tabs (interfere w)"
      using t1 calculation(1) by (simp add: leased_table_def apply_where_def)
    ultimately show ?thesis using idle [OF random] by blast
  next
    case (Cons m ms')
    from mtok Cons have eqs: "om_LeaseToken m = hex_encode random" "\<And>x. x \<in> set ms' \<Longrightarrow> om_LeaseToken x = hex_encode random"
      by auto
    define fin where "fin = relay_finish cfg (re_now env) (hex_encode random) (relay_result (re_batchRun env) ms)
       \<lparr>rs_retry = retried_ids (rc_MaxAttempts cfg) (message_by_id ms) (FailedIDs (relay_result (re_batchRun env) ms)),
        rs_dead = dead_ids (rc_MaxAttempts cfg) (message_by_id ms) (FailedIDs (relay_result (re_batchRun env) ms)),
        rs_records = map (dead_record (re_fail env) (message_by_id ms))
          (dead_ids (rc_MaxAttempts cfg) (message_by_id ms) (FailedIDs (relay_result (re_batchRun env) ms))),
        rs_attempt = highest_attempt (message_by_id ms) (FailedIDs (relay_result (re_batchRun env) ms)) 1\<rparr>"
    with d Cons tok eqs have "io_bind (io_try (tx_Do fin)) (\<lambda>r. io_return (case r of Inl e \<Rightarrow> Some e | Inr _ \<Rightarrow> None)) w1
        = (Inr None, w')"
      by (simp add: relay_dispatch_def Let_def split_failures_total)
    then obtain y where y: "tx_Do fin w1 = (y, w')" "(case y of Inl e \<Rightarrow> Some e | Inr _ \<Rightarrow> None) = None"
      by (auto simp: io_bind_Inr io_try_Inr io_return_Inr)
    then have "tx_Do fin w1 = (Inr (), w')" by (cases y) auto
    with Cons show ?thesis using passed [OF random sound1 ms _ tok dist t1 refl] unfolding fin_def by simp
  qed
qed

lemma relay_split_sets:
  assumes "distinct (map om_ExecutionID ms)"
  shows "set (SuccessIDs (relay_result br ms)) \<inter> set (FailedIDs (relay_result br ms)) = {}"
    and "distinct (FailedIDs (relay_result br ms))"
    and "m \<in> set ms \<Longrightarrow> om_ExecutionID m \<in> set (SuccessIDs (relay_result br ms)) \<or>
      om_ExecutionID m \<in> set (FailedIDs (relay_result br ms)) \<and> message_by_id ms (om_ExecutionID m) \<noteq> None"
  using assms by (auto simp: relay_result_sets message_by_id_distinct find_None_iff)

definition demo_relay :: RelayConfig where
  "demo_relay = RelayConfig_withDefaults \<lparr>rc_PollInterval = 0, rc_BatchSize = 0, rc_LeaseDuration = 0, rc_MaxAttempts = 0,
     rc_InitialBackoff = 0, rc_MaxBackoff = 0\<rparr>"

definition demo_row :: "int64 \<Rightarrow> int \<Rightarrow> OutboxMessagePO" where
  "demo_row i attempts = \<lparr>po_OutboxID = i, po_ExecutionID = i, po_CaseID = i, po_CaseName = ''c'', po_Version = ''v1'',
     po_State = OutboxPending, po_Attempts = attempts, po_AvailableAt = 10, po_LeaseUntil = None, po_LeaseToken = '''',
     po_LastError = '''', po_CreatedAt = 1, po_UpdatedAt = 1, po_PublishedAt = None\<rparr>"

definition demo_exec :: "int64 \<Rightarrow> ExecutionRecordPO" where
  "demo_exec i = \<lparr>pe_ExecutionID = i, pe_RequestID = None, pe_CaseID = i, pe_Version = ''v1'', pe_CreateBy = ''u'',
     pe_ExecutionStatus = StatusWait, pe_CreateAt = 1, pe_ExecuteAt = None, pe_FinishAt = None\<rparr>"

text \<open>Three messages left behind: a first try, a second one, and one that is at its last try.\<close>

definition demo_backlog :: world where
  "demo_backlog = demo_catalogue\<lparr>tabs := (tabs demo_catalogue)
     \<lparr>t_execs := map demo_exec [1, 2, 3], t_exec_next := 4,
      t_outbox := [demo_row 1 0, demo_row 2 1, demo_row 3 7], t_outbox_next := 4\<rparr>\<rparr>"

definition demo_pass :: "mq_event list \<Rightarrow> relay_env" where
  "demo_pass es = \<lparr>re_now = 20, re_locked = (\<lambda>_. False), re_rand = Inr [1, 2], re_fail = (\<lambda>_. 21), re_batchRun = BatchRun (demo_env es [])\<rparr>"

lemma sound_backlog: "sound demo_backlog"
  by (simp add: sound_def rely_def demo_backlog_def demo_catalogue_def tables_ok_def keyed_ok_def demo_row_def
      demo_exec_def exec_clash_def outbox_clash_def)

text \<open>C3: A relay pass that reports no error has dealt with every message it claimed: the ones the publisher
  delivered are PUBLISHED with the time of the pass, the others are PENDING again, due after the back-off
  for the highest number of attempts among the failures of the pass, or, when their attempts are used up,
  DEAD, with an execution that is no longer WAIT. Nobody holds any of them afterwards.\<close>

theorem relay_pass_settles:
  assumes "DispatchOnce cfg env w = (Inr None, w')" and "sound w" and "\<And>bs. re_rand env = Inr bs \<Longrightarrow> bs \<noteq> []"
  shows "\<exists>random. re_rand env = Inr random \<and>
    (let ms = claimed_messages cfg env (hex_encode random) (claim_of cfg env w) in
     \<forall>m \<in> set ms.
       (\<exists>q \<in> set (t_outbox (tabs w')). po_ExecutionID q = om_ExecutionID m \<and>
          verdict_row (re_now env) (pass_verdict cfg env ms m) q) \<and>
       ((\<exists>e. pass_verdict cfg env ms m = GivenUp e) \<longrightarrow>
          (\<exists>p \<in> set (t_execs (tabs w')). pe_ExecutionID p = om_ExecutionID m \<and> pe_ExecutionStatus p \<noteq> StatusWait)))"
  using assms(2,3,1)
proof (rule DispatchOnce_cases)
  fix random w1 assume "re_rand env = Inr random" "claim_of cfg env w = []"
  then show ?thesis by (simp add: claimed_messages_def)
next
  fix random w1 ms res
  assume random: "re_rand env = Inr random" and sound1: "sound w1"
    and ms: "ms = claimed_messages cfg env (hex_encode random) (claim_of cfg env w)" and tok: "hex_encode random \<noteq> ''''"
    and d: "distinct (map om_ExecutionID ms)" and res: "res = relay_result (re_batchRun env) ms"
    and tx: "tx_Do (relay_finish cfg (re_now env) (hex_encode random) res
             \<lparr>rs_retry = retried_ids (rc_MaxAttempts cfg) (message_by_id ms) (FailedIDs res),
              rs_dead = dead_ids (rc_MaxAttempts cfg) (message_by_id ms) (FailedIDs res),
              rs_records = map (dead_record (re_fail env) (message_by_id ms))
                (dead_ids (rc_MaxAttempts cfg) (message_by_id ms) (FailedIDs res)),
              rs_attempt = highest_attempt (message_by_id ms) (FailedIDs res) 1\<rparr>) w1 = (Inr (), w')"
  from sound1 tx show ?thesis
  proof (rule tx_sound)
    fix wa wb assume wa: "sound wa" and t: "tabs w' = tabs wb"
      and fin: "relay_finish cfg (re_now env) (hex_encode random) res
             \<lparr>rs_retry = retried_ids (rc_MaxAttempts cfg) (message_by_id ms) (FailedIDs res),
              rs_dead = dead_ids (rc_MaxAttempts cfg) (message_by_id ms) (FailedIDs res),
              rs_records = map (dead_record (re_fail env) (message_by_id ms))
                (dead_ids (rc_MaxAttempts cfg) (message_by_id ms) (FailedIDs res)),
              rs_attempt = highest_attempt (message_by_id ms) (FailedIDs res) 1\<rparr> wa = (Inr (), wb)"
    have "(\<exists>q \<in> set (t_outbox (tabs w')). po_ExecutionID q = om_ExecutionID m \<and>
          verdict_row (re_now env) (pass_verdict cfg env ms m) q) \<and>
       ((\<exists>e. pass_verdict cfg env ms m = GivenUp e) \<longrightarrow>
          (\<exists>p \<in> set (t_execs (tabs w')). pe_ExecutionID p = om_ExecutionID m \<and> pe_ExecutionStatus p \<noteq> StatusWait))"
      if m: "m \<in> set ms" for m
      using relay_finish_Inr [OF wa tok fin relay_split_sets(1,2) [OF d, of "re_batchRun env", folded res]
          relay_split_sets(3) [OF d m, of "re_batchRun env", folded res]]
      unfolding t verdict_of_pass [OF d m, of cfg env, folded res] by blast
    with random ms show ?thesis by (auto simp: Let_def)
  qed
qed

theorem relay_pass_settles_witness:
  "\<exists>q \<in> set (t_outbox (tabs (snd (DispatchOnce demo_relay (demo_pass [Confirm 1 True]) demo_backlog)))).
     po_ExecutionID q = 3 \<and> po_State q = OutboxDead"
proof -
  let ?run = "DispatchOnce demo_relay (demo_pass [Confirm 1 True]) demo_backlog"
  define ms where "ms = claimed_messages demo_relay (demo_pass [Confirm 1 True]) (hex_encode [1, 2])
    (claim_of demo_relay (demo_pass [Confirm 1 True]) demo_backlog)"
  have "fst ?run = Inr None" by code_simp
  then have 1: "?run = (Inr None, snd ?run)" by (metis prod.collapse)
  have "list_ex (\<lambda>m. om_ExecutionID m = 3 \<and> (case pass_verdict demo_relay (demo_pass [Confirm 1 True]) ms m of
      GivenUp e \<Rightarrow> True | _ \<Rightarrow> False)) ms" unfolding ms_def by code_simp
  then obtain m where "m \<in> set ms" "om_ExecutionID m = 3" and v: "case pass_verdict demo_relay (demo_pass [Confirm 1 True]) ms m of
      GivenUp e \<Rightarrow> True | _ \<Rightarrow> False" unfolding list_ex_iff by blast
  moreover from v obtain e where "pass_verdict demo_relay (demo_pass [Confirm 1 True]) ms m = GivenUp e"
    by (cases "pass_verdict demo_relay (demo_pass [Confirm 1 True]) ms m") simp_all
  ultimately have m: "m \<in> set ms" "om_ExecutionID m = 3"
    "pass_verdict demo_relay (demo_pass [Confirm 1 True]) ms m = GivenUp e" by simp_all
  have "re_rand (demo_pass es) = Inr [1, 2]" for es by (simp add: demo_pass_def)
  with relay_pass_settles [OF 1 sound_backlog] have "\<exists>q \<in> set (t_outbox (tabs (snd ?run))).
      po_ExecutionID q = om_ExecutionID m \<and> verdict_row 20 (GivenUp e) q"
    unfolding Let_def using m by (force simp: ms_def demo_pass_def)
  with m(2) show ?thesis by (auto simp: verdict_row_def)
qed

subsection \<open>A relay that lost its lease\<close>

lemma relay_finish_needs_lease:
  assumes "sound w" and "tok \<noteq> ''''" and d: "distinct (map om_ExecutionID ms)" and "m \<in> set ms"
    and fin: "relay_finish cfg now tok (relay_result br ms)
        \<lparr>rs_retry = retried_ids (rc_MaxAttempts cfg) (message_by_id ms) (FailedIDs (relay_result br ms)),
         rs_dead = dead_ids (rc_MaxAttempts cfg) (message_by_id ms) (FailedIDs (relay_result br ms)),
         rs_records = map (dead_record fail (message_by_id ms))
           (dead_ids (rc_MaxAttempts cfg) (message_by_id ms) (FailedIDs (relay_result br ms))),
         rs_attempt = highest_attempt (message_by_id ms) (FailedIDs (relay_result br ms)) 1\<rparr> w = (Inr x, w')"
  shows "\<exists>u. lease_of (tabs w) (om_ExecutionID m) = Some (t_coll (tabs w) tok, u)"
proof -
  from fin have "relay_finish cfg now tok (relay_result br ms)
        \<lparr>rs_retry = retried_ids (rc_MaxAttempts cfg) (message_by_id ms) (FailedIDs (relay_result br ms)),
         rs_dead = dead_ids (rc_MaxAttempts cfg) (message_by_id ms) (FailedIDs (relay_result br ms)),
         rs_records = map (dead_record fail (message_by_id ms))
           (dead_ids (rc_MaxAttempts cfg) (message_by_id ms) (FailedIDs (relay_result br ms))),
         rs_attempt = highest_attempt (message_by_id ms) (FailedIDs (relay_result br ms)) 1\<rparr> w = (Inr (), w')" by simp
  from relay_finish_Inr [OF assms(1,2) this relay_split_sets(1,2) [OF d] relay_split_sets(3) [OF d assms(4)]]
  obtain r where "r \<in> set (t_outbox (tabs w))" "po_ExecutionID r = om_ExecutionID m" "holds_lease tok (tabs w) r" by blast
  with lease_of_row [of "tabs w" r] assms(1,2) show ?thesis by (auto simp: sound_def holds_lease_def)
qed

text \<open>C6: A relay that is late changes nothing. If, when it comes to write back, one of the messages it had
  claimed is no longer held under its token (the lease ran out and another relay took the message, or
  settled it), the pass ends with an error and both tables are as the others left them; that it has
  published the batch again is the price of at-least-once delivery.\<close>

theorem stale_relay_changes_nothing:
  assumes "relay_dispatch cfg env ms w = (r, w')" and "sound w"
    and "\<forall>m \<in> set ms. om_LeaseToken m = tok" and "tok \<noteq> ''''" and "distinct (map om_ExecutionID ms)"
    and "m \<in> set ms"
    and "\<nexists>u. lease_of (tabs (interfere w)) (om_ExecutionID m) = Some (t_coll (tabs (interfere w)) tok, u)"
  shows "(\<exists>e. r = Inr (Some e)) \<and> t_outbox (tabs w') = t_outbox (tabs (interfere w)) \<and>
    t_execs (tabs w') = t_execs (tabs (interfere w))"
proof -
  obtain m0 ms' where ms: "ms = m0 # ms'" using assms(6) by (cases ms) auto
  let ?res = "relay_result (re_batchRun env) ms"
  define fin where "fin = relay_finish cfg (re_now env) tok ?res
    \<lparr>rs_retry = retried_ids (rc_MaxAttempts cfg) (message_by_id ms) (FailedIDs ?res),
     rs_dead = dead_ids (rc_MaxAttempts cfg) (message_by_id ms) (FailedIDs ?res),
     rs_records = map (dead_record (re_fail env) (message_by_id ms))
       (dead_ids (rc_MaxAttempts cfg) (message_by_id ms) (FailedIDs ?res)),
     rs_attempt = highest_attempt (message_by_id ms) (FailedIDs ?res) 1\<rparr>"
  obtain y w1 where tx: "tx_Do fin w = (y, w1)" by (metis surj_pair)
  have "relay_dispatch cfg env ms w = (Inr (case y of Inl e \<Rightarrow> Some e | Inr _ \<Rightarrow> None), w1)"
    using assms(3,4) tx unfolding fin_def
    by (simp add: ms relay_dispatch_def Let_def split_failures_total io_bind_def io_try_def io_return_def)
  with assms(1) have r: "r = Inr (case y of Inl e \<Rightarrow> Some e | Inr _ \<Rightarrow> None)" "w' = w1" by simp_all
  have lost: False if "fin wa = (Inr x, wb)" "tabs wa = tabs (interfere w)" "sound wa" for wa x wb
    using relay_finish_needs_lease [OF that(3) assms(4,5,6) that(1) [unfolded fin_def]] assms(7) that(2) by simp
  have sa: "sound wa" if "tabs wa = tabs (interfere w)" "foreign wa = foreign (interfere w)" for wa
    using sound_interfere [OF assms(2)] that by (auto intro: sound_cong)
  show ?thesis
  proof (cases y)
    case (Inr x)
    show ?thesis
      by (rule tx_Do_Inr [OF tx [unfolded Inr]]) (use lost sa in blast)
  next
    case (Inl e)
    show ?thesis
      by (rule tx_Do_Inl [OF tx [unfolded Inl]])
        (use lost sa r Inl in \<open>auto simp: rollback_to_def\<close>)
  qed
qed

theorem stale_relay_changes_nothing_witness:
  "\<exists>e. fst (relay_dispatch demo_relay (demo_pass [Confirm 1 True])
      [OutboxMessage_ToEntity (lease_row 15 ''aa'' (demo_row 1 0))] demo_backlog) = Inr (Some e)"
proof -
  let ?run = "relay_dispatch demo_relay (demo_pass [Confirm 1 True])
      [OutboxMessage_ToEntity (lease_row 15 ''aa'' (demo_row 1 0))] demo_backlog"
  have run: "?run = (fst ?run, snd ?run)" by simp
  have "interfere demo_backlog = demo_backlog"
    by (simp add: interfere_def demo_backlog_def demo_catalogue_def)
  moreover have "lease_of (tabs demo_backlog) 1 = None" by code_simp
  ultimately have "\<nexists>u. lease_of (tabs (interfere demo_backlog)) (om_ExecutionID (OutboxMessage_ToEntity (lease_row 15 ''aa'' (demo_row 1 0))))
      = Some (t_coll (tabs (interfere demo_backlog)) ''aa'', u)"
    by (simp add: lease_row_def demo_row_def)
  from stale_relay_changes_nothing [OF run sound_backlog _ _ _ _ this] show ?thesis
    by (simp add: lease_row_def)
qed

subsection \<open>Back-off and confirmation\<close>

text \<open>C37: For settings with \<open>0 < InitialBackoff \<le> MaxBackoff < 2^62\<close> (the defaults are such settings) the
  back-off of attempt \<open>n\<close> is \<open>InitialBackoff * 2^(n-1)\<close>, capped by \<open>MaxBackoff\<close>; attempts below 1 count as
  the first, and the 64-bit product never overflows.\<close>

theorem retryBackoff_exact:
  assumes "0 < sint (rc_InitialBackoff cfg)" and "sint (rc_InitialBackoff cfg) \<le> sint (rc_MaxBackoff cfg)"
    and "sint (rc_MaxBackoff cfg) < 2 ^ 62"
  shows "sint (retryBackoff cfg n) =
    min (sint (rc_InitialBackoff cfg) * 2 ^ nat (max 1 n - 1)) (sint (rc_MaxBackoff cfg))"
  using backoff_loop_exact [OF assms] by (simp add: retryBackoff_def max_def)

theorem retryBackoff_exact_witness:
  "sint (retryBackoff demo_relay 4) = 8000000000 \<and> sint (retryBackoff demo_relay 9) = 60000000000"
proof -
  have s: "sint (rc_InitialBackoff demo_relay) = 1000000000" "sint (rc_MaxBackoff demo_relay) = 60000000000"
    by (simp_all add: demo_relay_def RelayConfig_withDefaults_def Second_def Minute_def)
  show ?thesis using retryBackoff_exact [of demo_relay 4] retryBackoff_exact [of demo_relay 9] s by simp
qed

text \<open>The documented upper limit is not one for every setting: with an initial back-off above \<open>MaxBackoff\<close>
  every retry waits the initial back-off, longer than the limit.\<close>

theorem retryBackoff_uncapped:
  assumes "sint (rc_MaxBackoff cfg) < sint (rc_InitialBackoff cfg)"
  shows "retryBackoff cfg n = rc_InitialBackoff cfg \<and> sint (rc_MaxBackoff cfg) < sint (retryBackoff cfg n)"
proof -
  have "backoff_loop (rc_MaxBackoff cfg) k (rc_InitialBackoff cfg) = rc_InitialBackoff cfg" for k
    using assms by (cases k) (simp_all add: word_sless_alt)
  then show ?thesis using assms by (simp add: retryBackoff_def Let_def)
qed

theorem retryBackoff_uncapped_witness:
  "retryBackoff (demo_relay\<lparr>rc_InitialBackoff := 2 * Minute\<rparr>) 3 = 2 * Minute"
proof -
  have "sint (rc_MaxBackoff (demo_relay\<lparr>rc_InitialBackoff := 2 * Minute\<rparr>))
      < sint (rc_InitialBackoff (demo_relay\<lparr>rc_InitialBackoff := 2 * Minute\<rparr>))"
    by (simp add: demo_relay_def RelayConfig_withDefaults_def Minute_def Second_def)
  from retryBackoff_uncapped [OF this, of 3] show ?thesis by simp
qed

text \<open>However many passes a relay makes, and whatever fails in them, it marks a message PUBLISHED only if the
  publisher named the execution as a success in one of its passes.\<close>

theorem relay_publishes_confirmed:
  assumes "relay_Run cfg envs w = (r, w')"
    and "rely (published_only {i. \<exists>env \<in> set envs. \<exists>ts. i \<in> set (SuccessIDs (fst (re_batchRun env ts)))}) w"
    and "\<forall>env \<in> set envs. re_rand env \<noteq> Inr []"
    and "q \<in> set (t_outbox (tabs w'))" and "po_State q = OutboxPublished"
  shows "q \<in> set (t_outbox (tabs w)) \<or>
    (\<exists>env \<in> set envs. \<exists>ts. po_ExecutionID q \<in> set (SuccessIDs (fst (re_batchRun env ts))))"
proof -
  let ?S = "{i. \<exists>env \<in> set envs. \<exists>ts. i \<in> set (SuccessIDs (fst (re_batchRun env ts)))}"
  have "guarantees (published_only ?S) (relay_Run cfg envs)"
    by (rule pub_store.relay_Run_guarantees) (use assms(3) in auto)
  from guaranteesD [OF this assms(2,1)] assms(4,5) show ?thesis
    unfolding within_def published_only_def by blast
qed

text \<open>Two passes: the first publishes nothing, the second, after the back-off, message 2.\<close>

definition demo_run :: "unit io" where
  "demo_run = relay_Run demo_relay [demo_pass [], (demo_pass [Confirm 2 True])\<lparr>re_now := 100000000000\<rparr>]"

theorem relay_publishes_confirmed_witness:
  "\<exists>q \<in> set (t_outbox (tabs (snd (demo_run demo_backlog)))). po_State q = OutboxPublished \<and>
     ((\<exists>ts. po_ExecutionID q \<in> set (SuccessIDs (fst (BatchRun (demo_env [] []) ts)))) \<or>
      (\<exists>ts. po_ExecutionID q \<in> set (SuccessIDs (fst (BatchRun (demo_env [Confirm 2 True] []) ts)))))"
proof -
  let ?run = "demo_run demo_backlog"
  have "list_ex (\<lambda>q. po_State q = OutboxPublished) (t_outbox (tabs (snd ?run)))" by code_simp
  then obtain q where q: "q \<in> set (t_outbox (tabs (snd ?run)))" "po_State q = OutboxPublished"
    by (auto simp: list_ex_iff)
  have "?run = (fst ?run, snd ?run)" by simp
  from relay_publishes_confirmed [OF this [unfolded demo_run_def] _ _ q(1) [unfolded demo_run_def] q(2)]
  have "q \<in> set (t_outbox (tabs demo_backlog)) \<or>
     (\<exists>ts. po_ExecutionID q \<in> set (SuccessIDs (fst (BatchRun (demo_env [] []) ts)))) \<or>
     (\<exists>ts. po_ExecutionID q \<in> set (SuccessIDs (fst (BatchRun (demo_env [Confirm 2 True] []) ts))))"
    by (simp add: rely_def demo_backlog_def demo_catalogue_def demo_pass_def)
  moreover have "q \<notin> set (t_outbox (tabs demo_backlog))"
    using q(2) by (auto simp: demo_backlog_def demo_row_def)
  ultimately show ?thesis using q by blast
qed

subsection \<open>What a claim hands out\<close>

text \<open>C28: A claim takes, of the messages that are due and not locked by another transaction, the oldest ones, at
  most as many as asked for (100 if the limit is not positive), in the order of their ids; it returns
  exactly the rows it leases, with the new token, the new expiry and one more attempt, and leaves
  every other row as it was.\<close>

theorem ClaimPending_effect:
  assumes "tables_ok (tabs (interfere w))"
    and "OutboxRepository_ClaimPending locked rand limit now leaseUntil w = (Inr ms, w')"
  shows "\<exists>random. rand = Inr random \<and>
    (let rows = claimed_rows_of locked (claim_limit limit) now (t_outbox (tabs (interfere w)));
         leased = lease_row leaseUntil (hex_encode random)
     in ms = map (\<lambda>r. OutboxMessage_ToEntity (leased r)) rows \<and> sorted (map om_OutboxID ms) \<and>
        int (length ms) \<le> (if limit \<le> 0 then 100 else limit) \<and>
        t_outbox (tabs w') = map (\<lambda>r. if r \<in> set rows then (leased r)\<lparr>po_UpdatedAt := clock w\<rparr> else r)
          (t_outbox (tabs (interfere w))))"
  using assms
proof (rule ClaimPending_Inr)
  let ?rows = "claimed_rows_of locked (claim_limit limit) now (t_outbox (tabs (interfere w)))"
  fix random rows assume r: "rand = Inr random" "rows = ?rows"
    "ms = map (\<lambda>r. OutboxMessage_ToEntity (lease_row leaseUntil (hex_encode random) r)) rows"
    "tabs w' = leased_table (\<lambda>r. r \<in> set rows) leaseUntil (hex_encode random) (clock w) (tabs (interfere w))"
  have "map om_OutboxID ms = map po_OutboxID ?rows" by (simp add: r lease_row_def)
  then have "sorted (map om_OutboxID ms)" using claimed_rows_of_sorted by simp
  moreover have "int (length ms) \<le> (if limit \<le> 0 then 100 else limit)"
    using length_claimed_rows_of [of locked "claim_limit limit" now] by (simp add: r claim_limit_def split: if_splits)
  ultimately show ?thesis using r by (simp add: Let_def leased_table_def apply_where_def)
qed

theorem ClaimPending_effect_witness:
  "\<exists>ms. fst (OutboxRepository_ClaimPending (\<lambda>i. i = 1) (Inr [7]) 1 20 50 demo_backlog) = Inr ms \<and>
     sorted (map om_OutboxID ms) \<and> length ms \<le> 1"
proof -
  let ?c = "OutboxRepository_ClaimPending (\<lambda>i. i = 1) (Inr [7]) 1 20 50 demo_backlog"
  have "case fst ?c of Inl _ \<Rightarrow> False | Inr _ \<Rightarrow> True" by code_simp
  then obtain ms where ms: "fst ?c = Inr ms" by (auto split: sum.splits)
  then have run: "?c = (Inr ms, snd ?c)" by (metis prod.collapse)
  have "tables_ok (tabs (interfere demo_backlog))"
    using sound_interfere [OF sound_backlog] by (simp add: sound_def)
  from ClaimPending_effect [OF this run] ms show ?thesis by (auto simp: Let_def)
qed

text \<open>C7: A lease is exclusive: between the claim of a message and the end of its lease, no other claim returns
  that message, whoever makes it, with whatever batch size, lease duration and random bytes and whatever rows are
  locked then, as long as nobody has changed who holds it.\<close>

theorem claim_is_exclusive:
  assumes "tables_ok (tabs (interfere w1))"
    and "OutboxRepository_ClaimPending locked1 (Inr r1) limit1 now1 until w1 = (Inr ms1, w1')" and "m1 \<in> set ms1"
    and "lease_of (tabs (interfere w2)) (om_ExecutionID m1) = lease_of (tabs w1') (om_ExecutionID m1)"
    and "tables_ok (tabs (interfere w2))"
    and "OutboxRepository_ClaimPending locked2 (Inr r2) limit2 now2 until2 w2 = (Inr ms2, w2')" and "now2 < until"
  shows "om_ExecutionID m1 \<notin> om_ExecutionID ` set ms2"
  using published.exclusive [of w1 "(locked1, limit1)" r1 now1 until ms1 w1' m1 w2 "(locked2, limit2)" r2 now2 until2 ms2 w2'] assms
  by simp

theorem claim_is_exclusive_witness:
  "\<exists>ms. fst (OutboxRepository_ClaimPending (\<lambda>i. i = 2) (Inr [8]) 5 30 60
       (snd (OutboxRepository_ClaimPending (\<lambda>_. False) (Inr [7]) 2 20 50 demo_backlog))) = Inr ms \<and>
     1 \<notin> om_ExecutionID ` set ms"
proof -
  let ?c1 = "OutboxRepository_ClaimPending (\<lambda>_. False) (Inr [7]) 2 20 50 demo_backlog"
  let ?c2 = "OutboxRepository_ClaimPending (\<lambda>i. i = 2) (Inr [8]) 5 30 60 (snd ?c1)"
  have "case fst ?c1 of Inl _ \<Rightarrow> False | Inr ms \<Rightarrow> list_ex (\<lambda>m. om_ExecutionID m = 1) ms" by code_simp
  then obtain ms1 m1 where ms1: "fst ?c1 = Inr ms1" "m1 \<in> set ms1" "om_ExecutionID m1 = 1"
    by (auto simp: list_ex_iff split: sum.splits)
  then have run1: "?c1 = (Inr ms1, snd ?c1)" by (metis prod.collapse)
  have "case fst ?c2 of Inl _ \<Rightarrow> False | Inr _ \<Rightarrow> True" by code_simp
  then obtain ms2 where ms2: "fst ?c2 = Inr ms2" by (auto split: sum.splits)
  then have run2: "?c2 = (Inr ms2, snd ?c2)" by (metis prod.collapse)
  have ok1: "tables_ok (tabs (interfere demo_backlog))"
    using sound_interfere [OF sound_backlog] by (simp add: sound_def)
  have s1: "sound (snd ?c1)" using sound_step [OF sound_backlog adv_outbox_repository(3) oadv_ClaimPending run1] by simp
  have i1: "interfere (snd ?c1) = snd ?c1"
  proof -
    have "length (foreign (snd ?c1)) = 0" by code_simp
    then show ?thesis by (simp add: interfere_def split: list.splits)
  qed
  with s1 have ok2: "tables_ok (tabs (interfere (snd ?c1)))" by (simp add: sound_def)
  from claim_is_exclusive [OF ok1 run1 ms1(2) _ ok2 run2] i1 ms1(3) ms2 show ?thesis by simp
qed

subsection \<open>The same message\<close>

text \<open>C38: Whoever publishes an execution sends the same message: the one the relay makes from the outbox row, after
  the row was stored, leased and read back, equals the one the fast path makes from the execution record
  (routing key, payload, message id). And the message id identifies the execution: for an id in the range
  of \<open>int64\<close> the id read back from a returned message is the id of the execution, so no return is charged
  to another one.\<close>
theorem relay_sends_same_message:
  assumes "- (2 ^ 63) \<le> er_ExecutionID rec" and "er_ExecutionID rec < 2 ^ 63"
    and "q = lease_row until tok (FromOutboxMessage (NewOutboxMessage rec caseName at))"
  shows "publishing (Task (OutboxMessage_ToEntity q)) = publishing (execute_task rec caseName) \<and>
    (\<forall>t. - (2 ^ 63) \<le> tk_ExecutionID t \<and> tk_ExecutionID t < 2 ^ 63 \<longrightarrow>
       (executionIDFromReturn (pb_MessageId (publishing t)) = Some (er_ExecutionID rec) \<longleftrightarrow>
        tk_ExecutionID t = er_ExecutionID rec))"
  using ParseInt_FormatInt
  by (auto simp: assms(3) lease_row_def FromOutboxMessage_def OutboxMessage_ToEntity_def NewOutboxMessage_def
      Task_def publishing_def execute_task_def executionIDFromReturn_def)

theorem relay_sends_same_message_witness:
  "executionIDFromReturn (pb_MessageId (publishing (Task (OutboxMessage_ToEntity
     (lease_row 9 ''tok'' (FromOutboxMessage (NewOutboxMessage (ExecutionRecord_ToEntity (demo_exec 7)) ''case'' 5))))))) = Some (er_ExecutionID (ExecutionRecord_ToEntity (demo_exec 7)))"
proof -
  have r: "- (2 ^ 63) \<le> er_ExecutionID (ExecutionRecord_ToEntity (demo_exec 7))" "er_ExecutionID (ExecutionRecord_ToEntity (demo_exec 7)) < 2 ^ 63" by code_simp+
  from relay_sends_same_message [OF r refl, of 9 "''tok''" "''case''" 5]
  have "publishing (Task (OutboxMessage_ToEntity (lease_row 9 ''tok'' (FromOutboxMessage (NewOutboxMessage (ExecutionRecord_ToEntity (demo_exec 7)) ''case'' 5)))))
      = publishing (execute_task (ExecutionRecord_ToEntity (demo_exec 7)) ''case'')" by blast
  moreover have "tk_ExecutionID (execute_task (ExecutionRecord_ToEntity (demo_exec 7)) ''case'') = er_ExecutionID (ExecutionRecord_ToEntity (demo_exec 7))" by (simp add: execute_task_def)
  ultimately show ?thesis
    using relay_sends_same_message [OF r refl, of 9 "''tok''" "''case''" 5] r by metis
qed

end
