(* ===== verification/Pairing.thy ===== *)
theory Pairing
  imports Chunk_Dispatch Relay_Pass
begin

text \<open>
  The transactional outbox: an invariant between the two tables. Every execution has its message, every
  message its execution, and a message is DEAD only if its execution has left WAIT. Single statements break it; the
  transactions of the use cases and of the relay keep it, with other processes in between that
  keep it too.
\<close>

subsection \<open>The invariant\<close>

definition pair_inv :: "tables \<Rightarrow> bool" where
  "pair_inv t \<longleftrightarrow>
     (\<forall>p \<in> set (t_execs t). \<exists>q \<in> set (t_outbox t). po_ExecutionID q = pe_ExecutionID p) \<and>
     (\<forall>q \<in> set (t_outbox t). po_State q = OutboxDead \<longrightarrow>
        (\<exists>p \<in> set (t_execs t). pe_ExecutionID p = po_ExecutionID q \<and> pe_ExecutionStatus p \<noteq> StatusWait)) \<and>
     (\<forall>q \<in> set (t_outbox t). \<exists>p \<in> set (t_execs t). pe_ExecutionID p = po_ExecutionID q)"

text \<open>What a transaction has to answer for: the rows it inserts and the messages it makes DEAD.\<close>

definition accounted :: "tables \<Rightarrow> tables \<Rightarrow> bool" where
  "accounted t t' \<longleftrightarrow>
     (\<forall>p \<in> set (t_execs t'). (\<exists>p0 \<in> set (t_execs t). pe_ExecutionID p0 = pe_ExecutionID p) \<or>
        (\<exists>q \<in> set (t_outbox t'). po_ExecutionID q = pe_ExecutionID p)) \<and>
     (\<forall>q \<in> set (t_outbox t'). po_State q = OutboxDead \<longrightarrow>
        (\<exists>q0 \<in> set (t_outbox t). po_ExecutionID q0 = po_ExecutionID q \<and> po_State q0 = OutboxDead) \<or>
        (\<exists>p \<in> set (t_execs t'). pe_ExecutionID p = po_ExecutionID q \<and> pe_ExecutionStatus p \<noteq> StatusWait)) \<and>
     (\<forall>q \<in> set (t_outbox t'). (\<exists>q0 \<in> set (t_outbox t). po_ExecutionID q0 = po_ExecutionID q) \<or>
        (\<exists>p \<in> set (t_execs t'). pe_ExecutionID p = po_ExecutionID q))"

definition pair_rel :: "tables \<Rightarrow> tables \<Rightarrow> bool" where
  "pair_rel t t' \<longleftrightarrow> exec_advance t t' \<and> outbox_advance t t' \<and> (tables_ok t \<and> pair_inv t \<longrightarrow> pair_inv t')"

lemma status_adv_leaves_wait: "status_adv s t \<Longrightarrow> s \<noteq> StatusWait \<Longrightarrow> t \<noteq> StatusWait"
  by (auto simp: status_adv_def status_le_def CanTransitTo_not_wait)

lemma pair_step:
  assumes inv: "pair_inv t" and ok: "tables_ok t" and adv: "exec_advance t t'" "outbox_advance t t'"
    and acc: "accounted t t'"
  shows "pair_inv t'"
  unfolding pair_inv_def
proof (intro conjI ballI impI)
  fix p assume "p \<in> set (t_execs t')"
  with acc consider (old) p0 where "p0 \<in> set (t_execs t)" "pe_ExecutionID p0 = pe_ExecutionID p"
    | (new) "\<exists>q \<in> set (t_outbox t'). po_ExecutionID q = pe_ExecutionID p" unfolding accounted_def by blast
  then show "\<exists>q \<in> set (t_outbox t'). po_ExecutionID q = pe_ExecutionID p"
  proof cases
    case old
    with inv obtain q where "q \<in> set (t_outbox t)" "po_ExecutionID q = pe_ExecutionID p"
      unfolding pair_inv_def by metis
    with adv(2) ok show ?thesis unfolding outbox_advance_def outbox_adv_def by metis
  qed
next
  fix q assume q: "q \<in> set (t_outbox t')" "po_State q = OutboxDead"
  with acc consider (old) q0 where "q0 \<in> set (t_outbox t)" "po_ExecutionID q0 = po_ExecutionID q" "po_State q0 = OutboxDead"
    | (new) "\<exists>p \<in> set (t_execs t'). pe_ExecutionID p = po_ExecutionID q \<and> pe_ExecutionStatus p \<noteq> StatusWait"
    unfolding accounted_def by blast
  then show "\<exists>p \<in> set (t_execs t'). pe_ExecutionID p = po_ExecutionID q \<and> pe_ExecutionStatus p \<noteq> StatusWait"
  proof cases
    case old
    with inv obtain p where p: "p \<in> set (t_execs t)" "pe_ExecutionID p = po_ExecutionID q" "pe_ExecutionStatus p \<noteq> StatusWait"
      unfolding pair_inv_def by metis
    from adv(1) p(1) obtain p' where "p' \<in> set (t_execs t')" "exec_same p p'"
      "status_adv (pe_ExecutionStatus p) (pe_ExecutionStatus p')" unfolding exec_advance_def by blast
    with p(2,3) show ?thesis by (auto simp: exec_same_def dest: status_adv_leaves_wait)
  qed
next
  fix q assume "q \<in> set (t_outbox t')"
  with acc consider (old) q0 where "q0 \<in> set (t_outbox t)" "po_ExecutionID q0 = po_ExecutionID q"
    | (new) "\<exists>p \<in> set (t_execs t'). pe_ExecutionID p = po_ExecutionID q" unfolding accounted_def by blast
  then show "\<exists>p \<in> set (t_execs t'). pe_ExecutionID p = po_ExecutionID q"
  proof cases
    case old
    with inv obtain p where "p \<in> set (t_execs t)" "pe_ExecutionID p = po_ExecutionID q" unfolding pair_inv_def by metis
    with adv(1) show ?thesis unfolding exec_advance_def exec_same_def by metis
  qed
qed

interpretation pair: table_relation pair_rel
proof (unfold_locales, goal_cases)
  case (1 t)
  show ?case by (simp add: pair_rel_def adv.refl oadv.refl)
next
  case (2 a b c)
  then show ?case
    unfolding pair_rel_def by (metis adv.trans oadv.trans outbox_advance_def keeps_ok_def)
next
  case (3 t i j)
  show ?case using adv.counters [of t i j] oadv.counters [of t i j] by (simp add: pair_rel_def pair_inv_def)
qed

lemma rely_pair: "rely pair_rel w \<Longrightarrow> rely exec_advance w \<and> rely outbox_advance w"
  by (simp add: rely_def pair_rel_def)

lemma pair_inv_rollback: "pair_inv (rollback_to t t') = pair_inv t"
  by (simp add: pair_inv_def rollback_to_def)

text \<open>A transaction whose body accounts for what it writes keeps the invariant.\<close>

lemma pair_transaction:
  assumes g: "guarantees exec_advance m" "guarantees outbox_advance m"
    and body: "\<And>w x w'. sound w \<Longrightarrow> m w = (Inr x, w') \<Longrightarrow> accounted (tabs w) (tabs w')"
  shows "guarantees pair_rel (tx_Do m)"
proof (rule guaranteesI)
  fix w r w' assume w: "rely pair_rel w" and run: "tx_Do m w = (r, w')"
  have e: "within exec_advance w w'"
    by (rule guaranteesD [OF adv.transaction [OF g(1)] _ run]) (use rely_pair [OF w] in simp)
  have o: "within outbox_advance w w'"
    by (rule guaranteesD [OF oadv.transaction [OF g(2)] _ run]) (use rely_pair [OF w] in simp)
  have "pair_inv (tabs w')" if ok: "tables_ok (tabs w)" and inv: "pair_inv (tabs w)"
  proof -
    let ?i = "interfere w"
    have sound: "sound w" using rely_pair [OF w] ok by (simp add: sound_def)
    have "pair_rel (tabs w) (tabs ?i)" using pair.interfered [OF w] by (simp add: within_def)
    then have i: "pair_inv (tabs ?i)" using ok inv by (simp add: pair_rel_def)
    have si: "sound ?i" using sound_interfere [OF sound] by simp
    have commit: "pair_inv (tabs w2)" if "m w1 = (Inr x, w2)" "tabs w1 = tabs ?i" "foreign w1 = foreign ?i" for w1 x w2
    proof -
      have s1: "sound w1" by (rule sound_cong [OF si that(2,3)])
      have "exec_advance (tabs w1) (tabs w2)" "outbox_advance (tabs w1) (tabs w2)"
        using sound_step [OF s1 g that(1)] by simp_all
      with pair_step [OF _ _ this body [OF s1 that(1)]] i s1 that(2) show ?thesis by (simp add: sound_def)
    qed
    show ?thesis
    proof (cases r)
      case (Inr x)
      show ?thesis by (rule tx_Do_Inr [OF run [unfolded Inr]]) (use commit in simp)
    next
      case (Inl e)
      show ?thesis
        by (rule tx_Do_Inl [OF run [unfolded Inl]]) (use commit i in \<open>simp_all add: pair_inv_rollback\<close>)
    qed
  qed
  then show "within pair_rel w w'" using e o by (simp add: within_def pair_rel_def)
qed

text \<open>Operations that insert no execution and make no message DEAD.\<close>

lemma accounted_refl: "accounted t t"
  by (auto simp: accounted_def)

subsection \<open>Inserting\<close>

lemma insert_rows_length:
  "insert_rows clash pk set_pk dn rs tab = Inr (rs', tab') \<Longrightarrow> length rs' = length rs"
  by (induction rs arbitrary: tab rs') (auto split: sum.splits prod.splits)

lemma sql_insert_execs_Inr:
  assumes "sql_insert_execs dn rows w = (Inr rows', w')" and "tables_ok (tabs w)"
  shows "t_outbox (tabs w') = t_outbox (tabs w) \<and> t_coll (tabs w') = t_coll (tabs w) \<and> tables_ok (tabs w') \<and>
    length rows' = length rows \<and>
    (\<forall>p \<in> set (t_execs (tabs w')). p \<in> set (t_execs (tabs w)) \<or>
       p \<in> set rows' \<and> (\<exists>s \<in> set rows. pe_RequestID p = pe_RequestID s \<and> pe_CaseID p = pe_CaseID s))"
proof -
  let ?rows = "map (\<lambda>r. if pe_CreateAt r = zero_time then r\<lparr>pe_CreateAt := clock w\<rparr> else r) rows"
  let ?ins = "\<lambda>w. insert_rows (exec_clash (t_coll (tabs w))) pe_ExecutionID (\<lambda>i r. r\<lparr>pe_ExecutionID := i\<rparr>) dn
      (map (\<lambda>r. if pe_CreateAt r = zero_time then r\<lparr>pe_CreateAt := clock w\<rparr> else r) rows)
      (t_execs (tabs w), t_exec_next (tabs w))"
  from assms(1) obtain w1 t where n: "next_outcome w = (Done, w1)" "w' = w1\<lparr>tabs := t\<rparr>"
    and s: "(case ?ins w1 of Inl e \<Rightarrow> Inl e
       | Inr (rows', ts, n) \<Rightarrow> Inr (rows', (tabs w1)\<lparr>t_execs := ts, t_exec_next := n\<rparr>)) = Inr (rows', t)"
    unfolding sql_insert_execs_def sql_Inr by blast
  from next_outcome_sel [OF n(1)] have w1: "tabs w1 = tabs w" "clock w1 = clock w" by simp_all
  from s obtain ts k where ins: "?ins w = Inr (rows', ts, k)" and t: "t = (tabs w)\<lparr>t_execs := ts, t_exec_next := k\<rparr>"
    unfolding w1 by (cases "?ins w") auto
  have len: "length rows' = length rows"
    using insert_rows_length [OF ins] by simp
  obtain new where new: "ts = t_execs (tabs w) @ new" "set new \<subseteq> set rows'"
    using ekt.insert_rows_rows [OF ins] by blast
  have origin: "\<exists>s \<in> set rows. pe_RequestID r = pe_RequestID s \<and> pe_CaseID r = pe_CaseID s" if "r \<in> set rows'" for r
  proof -
    from ekt.insert_rows_origin [OF ins] that obtain y k where y: "y \<in> set ?rows" "r = y \<or> r = y\<lparr>pe_ExecutionID := k\<rparr>"
      by blast
    from y(1) obtain s where "s \<in> set rows" "y = (if pe_CreateAt s = zero_time then s\<lparr>pe_CreateAt := clock w\<rparr> else s)"
      by auto
    with y(2) show ?thesis by (intro bexI [of _ s]) auto
  qed
  have "tables_ok t"
    using ekt.insert_rows_frame [OF ins] assms(2) unfolding t by (simp add: tables_ok_def)
  with new origin n(2) t len show ?thesis by auto
qed

lemma Add_new_rows:
  assumes ok: "tables_ok (tabs w)" and run: "ExecutionRepository_Add r w = (Inr r', w')" and rid: "er_RequestID r \<noteq> ''''"
  shows "t_outbox (tabs w') = t_outbox (tabs w) \<and>
    (\<forall>p \<in> set (t_execs (tabs w')). p \<in> set (t_execs (tabs w)) \<or> pe_ExecutionID p = er_ExecutionID r') \<and>
    (\<exists>p \<in> set (t_execs (tabs w')). pe_ExecutionID p = er_ExecutionID r')"
proof -
  from run rid obtain rows w1 q where ins: "sql_insert_execs True [FromExecutionRecord r] w = (Inr rows, w1)"
    and sel: "sql_first t_execs pe_ExecutionID (\<lambda>t p. (pe_ExecutionID (case rows of [] \<Rightarrow> FromExecutionRecord r | r # _ \<Rightarrow> r) \<noteq> 0
        \<longrightarrow> pe_ExecutionID p = pe_ExecutionID (case rows of [] \<Rightarrow> FromExecutionRecord r | r # _ \<Rightarrow> r))
        \<and> request_is t (er_RequestID r) p \<and> pe_CaseID p = er_CaseID r) w1 = (Inr q, w')"
    and r': "r' = ExecutionRecord_ToEntity q"
    by (auto simp: ExecutionRepository_Add_def sql_insert_exec_def io_Inr)
  note new = sql_insert_execs_Inr [OF ins ok]
  note found = sql_first_Inr [OF sel]
  show ?thesis
  proof (intro conjI ballI)
    show "t_outbox (tabs w') = t_outbox (tabs w)" using new found by simp
    show "\<exists>p \<in> set (t_execs (tabs w')). pe_ExecutionID p = er_ExecutionID r'" using found r' by auto
    fix p assume p: "p \<in> set (t_execs (tabs w'))"
    show "p \<in> set (t_execs (tabs w)) \<or> pe_ExecutionID p = er_ExecutionID r'"
    proof (cases "p \<in> set (t_execs (tabs w))")
      case False
      with p new found have "p \<in> set rows" "length rows = 1" by auto
      then have rows: "rows = [p]" by (cases rows) auto
      have "pe_ExecutionID p \<noteq> 0" using new p found by (auto simp: tables_ok_def keyed_ok_def)
      with found rows r' show ?thesis by simp
    qed simp
  qed
qed

lemma sql_insert_outbox_new:
  assumes "sql_insert_outbox dn rows w = (Inr rows', w')" and "q \<in> set (t_outbox (tabs w'))"
  shows "q \<in> set (t_outbox (tabs w)) \<or> (\<exists>s \<in> set rows. po_State q = po_State s \<and> po_ExecutionID q = po_ExecutionID s)"
proof -
  let ?ins = "\<lambda>w. insert_rows outbox_clash po_OutboxID (\<lambda>i r. r\<lparr>po_OutboxID := i\<rparr>) dn
      (map (stamp_outbox (clock w)) rows) (t_outbox (tabs w), t_outbox_next (tabs w))"
  from assms(1) obtain w1 t where n: "next_outcome w = (Done, w1)" "w' = w1\<lparr>tabs := t\<rparr>"
    and s: "(case ?ins w1 of Inl e \<Rightarrow> Inl e
       | Inr (rows', ts, n) \<Rightarrow> Inr (rows', (tabs w1)\<lparr>t_outbox := ts, t_outbox_next := n\<rparr>)) = Inr (rows', t)"
    unfolding sql_insert_outbox_def sql_Inr by blast
  from next_outcome_sel [OF n(1)] have w1: "tabs w1 = tabs w" "clock w1 = clock w" by simp_all
  from s obtain ts k where ins: "?ins w = Inr (rows', ts, k)" and t: "t = (tabs w)\<lparr>t_outbox := ts, t_outbox_next := k\<rparr>"
    unfolding w1 by (cases "?ins w") auto
  obtain new where new: "ts = t_outbox (tabs w) @ new" "set new \<subseteq> set rows'"
    using okt.insert_rows_rows [OF ins] by blast
  have "\<exists>s \<in> set rows. po_State r = po_State s \<and> po_ExecutionID r = po_ExecutionID s" if "r \<in> set rows'" for r
    using okt.insert_rows_origin [OF ins] that by (fastforce simp: stamp_outbox_def)
  with new assms(2) n(2) t show ?thesis by auto
qed

lemma Outbox_Add_new:
  assumes "OutboxRepository_Add m w = (Inr m', w')" and "om_State m = OutboxPending" and "q \<in> set (t_outbox (tabs w'))"
  shows "q \<in> set (t_outbox (tabs w)) \<or> po_State q = OutboxPending \<and> po_ExecutionID q = om_ExecutionID m"
proof -
  from assms(1) obtain rows w1 where ins: "sql_insert_outbox True [FromOutboxMessage m] w = (Inr rows, w1)"
    and t: "tabs w' = tabs w1"
    by (auto simp: OutboxRepository_Add_def sql_insert_outbox_one_def io_Inr dest!: sql_first_Inr)
  from sql_insert_outbox_new [OF ins] assms(2,3) t show ?thesis by auto
qed

lemma create_accounted:
  assumes sound: "sound w" and run: "execute_case_create cfg True ct rid i v u w = (Inr x, w')" and rid: "rid \<noteq> ''''"
  shows "accounted (tabs w) (tabs w')"
proof -
  let ?new = "CreateExecutionRecordForRequest (ct_create ct) rid i v u"
  obtain rec name msg where x: "x = (rec, name, msg)" by (cases x)
  have new: "er_RequestID ?new = rid" "er_CaseID ?new = i"
    by (simp_all add: CreateExecutionRecordForRequest_def NewExecutionRecordForRequest_def)
  from run obtain ut w0 where find: "UtCaseRepository_FindByID i w = (Inr ut, w0)"
    and rest: "(case ut of None \<Rightarrow> io_fail (NewCaseNotExist i)
        | Some c \<Rightarrow> io_bind (ExecutionRepository_Add ?new) (\<lambda>rec. if True then io_bind (OutboxRepository_Add
            (NewOutboxMessage rec (uc_CaseName c) (add_time (ct_outbox ct) (dc_OutboxFastPathGrace cfg))))
             (\<lambda>m. io_return (rec, uc_CaseName c, Some m)) else io_return (rec, uc_CaseName c, None))) w0 = (Inr x, w')"
    unfolding execute_case_create_def io_bind_Inr [of "UtCaseRepository_FindByID i"] by blast
  have t0: "tabs w0 = tabs w"
    using find unfolding UtCaseRepository_FindByID_def
    by (auto simp: io_bind_Inr io_try_Inr case_sum_Inr io_return_Inr io_fail_Inr sql_first_def sql_def
        split: if_splits prod.splits outcome.splits sum.splits list.splits dest!: next_outcome_sel)
  from rest obtain c :: UtCase and rec0 w1 m where add: "ExecutionRepository_Add ?new w0 = (Inr rec0, w1)"
    and out: "OutboxRepository_Add (NewOutboxMessage rec0 (uc_CaseName c) (add_time (ct_outbox ct) (dc_OutboxFastPathGrace cfg))) w1
      = (Inr m, w')"
    by (cases ut) (auto simp: io_Inr)
  note new_rows = Add_new_rows [OF _ add] and stored = Outbox_Add_stored [OF out]
  have ok0: "tables_ok (tabs w0)" using sound t0 by (simp add: sound_def)
  have old: "q \<in> set (t_outbox (tabs w1)) \<or> po_State q = OutboxPending \<and> po_ExecutionID q = er_ExecutionID rec0"
    if "q \<in> set (t_outbox (tabs w'))" for q
    using Outbox_Add_new [OF out _ that] by (simp add: NewOutboxMessage_def)
  show ?thesis
    unfolding accounted_def
  proof (intro conjI ballI impI)
    fix p assume "p \<in> set (t_execs (tabs w'))"
    with new_rows [OF ok0] new rid stored t0
    show "(\<exists>p0 \<in> set (t_execs (tabs w)). pe_ExecutionID p0 = pe_ExecutionID p) \<or>
        (\<exists>q \<in> set (t_outbox (tabs w')). po_ExecutionID q = pe_ExecutionID p)"
      by (auto simp: NewOutboxMessage_def)
  next
    fix q assume "q \<in> set (t_outbox (tabs w'))" "po_State q = OutboxDead"
    with old [of q] new_rows [OF ok0] new rid t0
    show "(\<exists>q0 \<in> set (t_outbox (tabs w)). po_ExecutionID q0 = po_ExecutionID q \<and> po_State q0 = OutboxDead) \<or>
        (\<exists>p \<in> set (t_execs (tabs w')). pe_ExecutionID p = po_ExecutionID q \<and> pe_ExecutionStatus p \<noteq> StatusWait)"
      by auto
  next
    fix q assume "q \<in> set (t_outbox (tabs w'))"
    with old [of q] new_rows [OF ok0] new rid t0 stored
    show "(\<exists>q0 \<in> set (t_outbox (tabs w)). po_ExecutionID q0 = po_ExecutionID q) \<or>
        (\<exists>p \<in> set (t_execs (tabs w')). pe_ExecutionID p = po_ExecutionID q)"
      by auto
  qed
qed

lemma in_batches_execs_new:
  "in_batches (sql_insert_execs dn) cs w = (Inr rows, w') \<Longrightarrow> tables_ok (tabs w) \<Longrightarrow>
     t_outbox (tabs w') = t_outbox (tabs w) \<and> t_coll (tabs w') = t_coll (tabs w) \<and> tables_ok (tabs w') \<and>
     (\<forall>p \<in> set (t_execs (tabs w')). p \<in> set (t_execs (tabs w)) \<or>
        (\<exists>c \<in> set cs. \<exists>s \<in> set c. pe_RequestID p = pe_RequestID s \<and> pe_CaseID p = pe_CaseID s))"
proof (induction cs arbitrary: w rows)
  case Nil
  then show ?case by (auto simp: io_Inr)
next
  case (Cons c cs)
  then obtain xs ys w1 where 1: "sql_insert_execs dn c w = (Inr xs, w1)"
    and 2: "in_batches (sql_insert_execs dn) cs w1 = (Inr ys, w')"
    by (auto simp: io_Inr)
  note a = sql_insert_execs_Inr [OF 1 Cons.prems(2)]
  then have "tables_ok (tabs w1)" by simp
  from a Cons.IH [OF 2 this] show ?case by (auto 4 3)
qed

lemma BatchAdd_new_rows:
  assumes ok: "tables_ok (tabs w)" and run: "ExecutionRepository_BatchAdd rs w = (Inr rs', w')"
    and rid: "rid \<noteq> ''''" "\<forall>r \<in> set rs. er_RequestID r = rid"
  shows "t_outbox (tabs w') = t_outbox (tabs w) \<and>
    (\<forall>p \<in> set (t_execs (tabs w')). p \<in> set (t_execs (tabs w)) \<or> (\<exists>r' \<in> set rs'. er_ExecutionID r' = pe_ExecutionID p)) \<and>
    (\<forall>r' \<in> set rs'. \<exists>p \<in> set (t_execs (tabs w')). pe_ExecutionID p = er_ExecutionID r')"
proof (cases "rs = []")
  case True
  with run show ?thesis by (simp add: ExecutionRepository_BatchAdd_def io_Inr)
next
  case False
  let ?p = "\<lambda>t r. request_is t rid r \<and> pe_CaseID r \<in> set (map er_CaseID rs)"
  from False rid(2) have "er_RequestID (hd rs) = rid" by simp
  with False run rid obtain rows w1 ps where
    ins: "in_batches (sql_insert_execs True) (chunks 200 (map FromExecutionRecord rs)) w = (Inr rows, w1)"
    and sel: "sql_find t_execs ?p w1 = (Inr ps, w')" and cp: "copy_persisted (by_case_id ps) rs = Inr rs'"
    by (auto simp: ExecutionRepository_BatchAdd_def io_Inr Let_def split: if_splits)
  note new = in_batches_execs_new [OF ins ok]
  have ps: "ps = filter (?p (tabs w1)) (t_execs (tabs w1))" "tabs w' = tabs w1"
    using sql_find_Inr [OF sel] by simp_all
  have read: "\<exists>r' \<in> set rs'. er_ExecutionID r' = pe_ExecutionID p"
    if p: "p \<in> set (t_execs (tabs w1))" "p \<notin> set (t_execs (tabs w))" for p
  proof -
    from new p obtain c s where cs: "c \<in> set (chunks 200 (map FromExecutionRecord rs))" "s \<in> set c"
      "pe_RequestID p = pe_RequestID s" "pe_CaseID p = pe_CaseID s" by blast
    then have "s \<in> set (map FromExecutionRecord rs)" using set_chunk by blast
    then obtain r where r: "r \<in> set rs" "s = FromExecutionRecord r" by auto
    with cs rid have pr: "request_is (tabs w1) rid p" "pe_CaseID p = er_CaseID r"
      by (auto simp: request_is_def optionalString_def)
    from copy_persisted_Inr [OF cp] r(1) obtain r' q where q: "r' \<in> set rs'" "by_case_id ps (er_CaseID r) = Some q"
      "r' = ExecutionRecord_ToEntity q" by (force simp: list_all2_conv_all_nth in_set_conv_nth)
    then have "q \<in> set (t_execs (tabs w1))" "request_is (tabs w1) rid q" "pe_CaseID q = er_CaseID r"
      using ps(1) by (auto dest!: by_case_id_Some)
    with tables_ok_exec_unique [of "tabs w1" p q] request_is_clash [OF pr(1), of q] pr(2) p new have "p = q" by simp
    with q show ?thesis by (intro bexI [of _ r']) simp_all
  qed
  have stored: "\<exists>p \<in> set (t_execs (tabs w1)). pe_ExecutionID p = er_ExecutionID r'" if "r' \<in> set rs'" for r'
  proof -
    from that obtain k where "k < length rs'" "r' = rs' ! k" by (auto simp: in_set_conv_nth)
    with copy_persisted_Inr [OF cp] obtain q where "by_case_id ps (er_CaseID (rs ! k)) = Some q"
      "r' = ExecutionRecord_ToEntity q" by (auto simp: list_all2_conv_all_nth)
    then show ?thesis using ps(1) by (auto dest!: by_case_id_Some)
  qed
  show ?thesis using new ps(2) read stored by auto
qed

lemma Outbox_BatchAdd_new:
  assumes "OutboxRepository_BatchAdd ms w = (Inr ms', w')" and "\<forall>m \<in> set ms. om_State m = OutboxPending"
    and "q \<in> set (t_outbox (tabs w'))"
  shows "q \<in> set (t_outbox (tabs w)) \<or> po_State q = OutboxPending \<and> po_ExecutionID q \<in> om_ExecutionID ` set ms"
proof (cases "ms = []")
  case True
  with assms show ?thesis by (simp add: OutboxRepository_BatchAdd_def io_Inr)
next
  case False
  have batch: "in_batches (sql_insert_outbox True) cs v = (Inr rows, v') \<Longrightarrow> q \<in> set (t_outbox (tabs v')) \<Longrightarrow>
      \<forall>c \<in> set cs. \<forall>s \<in> set c. po_State s = OutboxPending \<and> po_ExecutionID s \<in> om_ExecutionID ` set ms \<Longrightarrow>
      q \<in> set (t_outbox (tabs v)) \<or> po_State q = OutboxPending \<and> po_ExecutionID q \<in> om_ExecutionID ` set ms" for cs v rows v'
  proof (induction cs arbitrary: v rows)
    case Nil
    then show ?case by (simp add: io_Inr)
  next
    case (Cons c cs)
    then obtain xs ys v1 where 1: "sql_insert_outbox True c v = (Inr xs, v1)"
      and 2: "in_batches (sql_insert_outbox True) cs v1 = (Inr ys, v')"
      by (auto simp: io_Inr)
    from Cons.IH [OF 2] Cons.prems sql_insert_outbox_new [OF 1, of q] show ?case by auto
  qed
  from False assms(1) obtain rows w1 where
    ins: "in_batches (sql_insert_outbox True) (chunks 200 (map FromOutboxMessage ms)) w = (Inr rows, w1)"
    and t: "tabs w' = tabs w1"
    by (auto simp: OutboxRepository_BatchAdd_def io_Inr dest!: sql_find_Inr)
  have "\<forall>c \<in> set (chunks 200 (map FromOutboxMessage ms)). \<forall>s \<in> set c.
      po_State s = OutboxPending \<and> po_ExecutionID s \<in> om_ExecutionID ` set ms"
  proof (intro ballI)
    fix c s assume "c \<in> set (chunks 200 (map FromOutboxMessage ms))" "s \<in> set c"
    then have "s \<in> set (map FromOutboxMessage ms)" using set_chunk by blast
    then show "po_State s = OutboxPending \<and> po_ExecutionID s \<in> om_ExecutionID ` set ms" using assms(2) by auto
  qed
  from batch [OF ins _ this] assms(3) t show ?thesis by simp
qed

lemma chunk_insert_accounted:
  assumes sound: "sound w" and run: "chunk_insert cfg True kt records0 nm w = (Inr x, w')"
    and rid: "rid \<noteq> ''''" "\<forall>r \<in> set records0. er_RequestID r = rid"
  shows "accounted (tabs w) (tabs w')"
proof -
  let ?msg = "\<lambda>r. NewOutboxMessage r (name_of nm (er_CaseID r)) (add_time (kt_outbox kt) (dc_OutboxFastPathGrace cfg))"
  from run obtain records w1 ms where add: "ExecutionRepository_BatchAdd records0 w = (Inr records, w1)"
    and out: "OutboxRepository_BatchAdd (map ?msg records) w1 = (Inr ms, w')"
    by (auto simp: chunk_insert_def io_Inr)
  have "tables_ok (tabs w)" using sound by (simp add: sound_def)
  note new = BatchAdd_new_rows [OF this add rid] and stored = Outbox_BatchAdd_stored [OF out]
  have msgs: "\<exists>q \<in> set (t_outbox (tabs w')). po_ExecutionID q = er_ExecutionID r" if "r \<in> set records" for r
    using stored that by (force simp: list_all2_map1 list_all2_conv_all_nth in_set_conv_nth NewOutboxMessage_def)
  have old: "q \<in> set (t_outbox (tabs w1)) \<or> po_State q = OutboxPending \<and> po_ExecutionID q \<in> er_ExecutionID ` set records"
    if "q \<in> set (t_outbox (tabs w'))" for q
    using Outbox_BatchAdd_new [OF out _ that] by (auto simp: NewOutboxMessage_def)
  show ?thesis
    unfolding accounted_def
  proof (intro conjI ballI impI)
    fix p assume "p \<in> set (t_execs (tabs w'))"
    with new stored msgs show "(\<exists>p0 \<in> set (t_execs (tabs w)). pe_ExecutionID p0 = pe_ExecutionID p) \<or>
        (\<exists>q \<in> set (t_outbox (tabs w')). po_ExecutionID q = pe_ExecutionID p)" by metis
  next
    fix q assume "q \<in> set (t_outbox (tabs w'))" "po_State q = OutboxDead"
    with old [of q] new show "(\<exists>q0 \<in> set (t_outbox (tabs w)). po_ExecutionID q0 = po_ExecutionID q \<and> po_State q0 = OutboxDead) \<or>
        (\<exists>p \<in> set (t_execs (tabs w')). pe_ExecutionID p = po_ExecutionID q \<and> pe_ExecutionStatus p \<noteq> StatusWait)" by auto
  next
    fix q assume "q \<in> set (t_outbox (tabs w'))"
    with old [of q] new stored show "(\<exists>q0 \<in> set (t_outbox (tabs w)). po_ExecutionID q0 = po_ExecutionID q) \<or>
        (\<exists>p \<in> set (t_execs (tabs w')). pe_ExecutionID p = po_ExecutionID q)" by fastforce
  qed
qed

subsection \<open>Writing back\<close>

lemma update_new_rows:
  assumes "tables_ok (tabs w)" and "updateByExecutionIDs ids tok f w = (Inr (), w')" and "q \<in> set (t_outbox (tabs w'))"
  shows "q \<in> set (t_outbox (tabs w)) \<or>
    (\<exists>r \<in> set (t_outbox (tabs w)). po_ExecutionID r \<in> set ids \<and> q = (f r)\<lparr>po_UpdatedAt := clock w\<rparr>)"
  using updateByExecutionIDs_Inr [OF assms(1,2)] assms(3) by (auto simp: apply_where_def)

lemma update_no_new_dead:
  assumes "tables_ok (tabs w)" and "updateByExecutionIDs ids tok f w = (Inr (), w')"
    and "\<And>r. po_State (f r) \<noteq> OutboxDead" and "q \<in> set (t_outbox (tabs w'))" and "po_State q = OutboxDead"
  shows "q \<in> set (t_outbox (tabs w))"
  using update_new_rows [OF assms(1,2,4)] assms(3,5) by auto

lemma update_same_ids:
  assumes "tables_ok (tabs w)" and "updateByExecutionIDs ids tok f w = (Inr (), w')"
    and "\<And>r. po_ExecutionID (f r) = po_ExecutionID r"
  shows "po_ExecutionID ` set (t_outbox (tabs w')) \<subseteq> po_ExecutionID ` set (t_outbox (tabs w))"
  using update_new_rows [OF assms(1,2)] assms(3) by (force simp: image_iff)

lemma update_groups_done:
  "update_groups records ss w = (Inr (), w') \<Longrightarrow> p \<in> set (t_execs (tabs w)) \<Longrightarrow>
     pe_ExecutionStatus p \<noteq> StatusWait \<Longrightarrow> p \<in> set (t_execs (tabs w'))"
proof (induction ss arbitrary: w)
  case (Cons x ss)
  then obtain w1 where 1: "update_group records x w = (Inr (), w1)" and 2: "update_groups records ss w1 = (Inr (), w')"
    by (auto simp: io_then_Inr)
  from update_group_Inr [OF 1] Cons.prems(2,3) have "p \<in> set (t_execs (tabs w1))"
    by (auto simp: apply_where_def image_iff intro!: bexI [of _ p])
  with Cons.IH [OF 2] Cons.prems(3) show ?case by simp
qed (simp add: io_Inr)

lemma update_groups_leave_wait:
  "update_groups records ss w = (Inr (), w') \<Longrightarrow> p \<in> set (t_execs (tabs w)) \<Longrightarrow> s \<in> set ss \<Longrightarrow>
     pe_ExecutionID p \<in> set (group_ids records s) \<Longrightarrow> \<forall>s \<in> set ss. s \<noteq> StatusWait \<Longrightarrow>
     \<exists>p' \<in> set (t_execs (tabs w')). pe_ExecutionID p' = pe_ExecutionID p \<and> pe_ExecutionStatus p' \<noteq> StatusWait"
proof (induction ss arbitrary: w p)
  case (Cons x ss)
  then obtain w1 where 1: "update_group records x w = (Inr (), w1)" and 2: "update_groups records ss w1 = (Inr (), w')"
    by (auto simp: io_then_Inr)
  let ?hit = "pe_ExecutionID p \<in> set (group_ids records x) \<and> pe_ExecutionStatus p = StatusWait"
  let ?p1 = "if ?hit then write_status records x p else p"
  have p1: "?p1 \<in> set (t_execs (tabs w1))"
    using update_group_Inr [OF 1] Cons.prems(2) by (auto simp: apply_where_def image_iff intro!: bexI [of _ p])
  show ?case
  proof (cases "pe_ExecutionStatus ?p1 = StatusWait")
    case False
    from update_groups_done [OF 2 p1 this] False show ?thesis by (intro bexI [of _ ?p1]) simp_all
  next
    case True
    then have "s \<in> set ss" "?p1 = p" using Cons.prems(3-5) by (auto simp: write_status_def split: if_splits)
    with Cons.IH [OF 2 p1] Cons.prems(4,5) show ?thesis by simp
  qed
qed simp

lemma BatchUpdateStatus_effect:
  assumes ok: "tables_ok (tabs w)" and run: "ExecutionRepository_BatchUpdateStatus records w = (Inr (), w')"
  shows "t_outbox (tabs w') = t_outbox (tabs w) \<and> pe_ExecutionID ` set (t_execs (tabs w')) = pe_ExecutionID ` set (t_execs (tabs w)) \<and>
    (\<forall>r \<in> set records. er_ExecutionStatus r \<noteq> StatusWait \<longrightarrow>
       (\<exists>p \<in> set (t_execs (tabs w')). pe_ExecutionID p = er_ExecutionID r \<and> pe_ExecutionStatus p \<noteq> StatusWait))"
proof (cases "records = []")
  case True
  with run show ?thesis by (simp add: ExecutionRepository_BatchUpdateStatus_def io_Inr)
next
  case False
  let ?ss = "map_order (mord w) (grouped_statuses records)"
  from run False have groups: "update_groups records ?ss w = (Inr (), w')"
    by (simp add: ExecutionRepository_BatchUpdateStatus_def io_bind_Inr io_world_Inr)
  have frame: "update_groups records ss v = (Inr (), v') \<Longrightarrow> t_outbox (tabs v') = t_outbox (tabs v) \<and>
      pe_ExecutionID ` set (t_execs (tabs v')) = pe_ExecutionID ` set (t_execs (tabs v))" for ss v v'
  proof (induction ss arbitrary: v)
    case (Cons x ss)
    then obtain v1 where 1: "update_group records x v = (Inr (), v1)" and 2: "update_groups records ss v1 = (Inr (), v')"
      by (auto simp: io_then_Inr)
    have "map pe_ExecutionID (t_execs (tabs v1)) = map pe_ExecutionID (t_execs (tabs v))" "t_outbox (tabs v1) = t_outbox (tabs v)"
      using update_group_Inr [OF 1] by (simp_all add: apply_where_def)
    with Cons.IH [OF 2] show ?case by (metis list.set_map)
  qed (simp add: io_Inr)
  have "\<exists>p \<in> set (t_execs (tabs w')). pe_ExecutionID p = er_ExecutionID r \<and> pe_ExecutionStatus p \<noteq> StatusWait"
    if r: "r \<in> set records" "er_ExecutionStatus r \<noteq> StatusWait" for r
  proof -
    from BatchUpdateStatus_present [OF ok run r] obtain p where p: "p \<in> set (t_execs (tabs w))"
      "pe_ExecutionID p = er_ExecutionID r" by auto
    have "er_ExecutionStatus r \<in> set ?ss" using r by (auto simp: grouped_statuses_def)
    moreover have "pe_ExecutionID p \<in> set (group_ids records (er_ExecutionStatus r))"
      using r p(2) by (auto simp: group_ids_def)
    moreover have "\<forall>s \<in> set ?ss. s \<noteq> StatusWait" by (auto simp: grouped_statuses_def)
    ultimately show ?thesis using update_groups_leave_wait [OF groups p(1)] p(2) by simp
  qed
  with frame [OF groups] show ?thesis by blast
qed

text \<open>The write-backs have one shape: executions first, then the marks of the outbox.\<close>

lemma marks_accounted:
  assumes "pe_ExecutionID ` set (t_execs (tabs w1)) = pe_ExecutionID ` set (t_execs (tabs w))"
    and "t_outbox (tabs w1) = t_outbox (tabs w)" and "t_execs (tabs w') = t_execs (tabs w1)"
    and dead: "\<And>q. q \<in> set (t_outbox (tabs w')) \<Longrightarrow> po_State q = OutboxDead \<Longrightarrow>
      q \<in> set (t_outbox (tabs w1)) \<or> po_ExecutionID q \<in> D"
    and left: "\<And>i. i \<in> D \<Longrightarrow> \<exists>p \<in> set (t_execs (tabs w1)). pe_ExecutionID p = i \<and> pe_ExecutionStatus p \<noteq> StatusWait"
    and ids: "po_ExecutionID ` set (t_outbox (tabs w')) \<subseteq> po_ExecutionID ` set (t_outbox (tabs w1))"
  shows "accounted (tabs w) (tabs w')"
  unfolding accounted_def
proof (intro conjI ballI impI)
  fix q assume "q \<in> set (t_outbox (tabs w'))"
  with ids assms(2) have "po_ExecutionID q \<in> po_ExecutionID ` set (t_outbox (tabs w))" by auto
  then show "(\<exists>q0 \<in> set (t_outbox (tabs w)). po_ExecutionID q0 = po_ExecutionID q) \<or>
      (\<exists>p \<in> set (t_execs (tabs w')). pe_ExecutionID p = po_ExecutionID q)" by (auto simp: image_iff)
next
  fix p assume "p \<in> set (t_execs (tabs w'))"
  then have "pe_ExecutionID p \<in> pe_ExecutionID ` set (t_execs (tabs w))" using assms(1,3) by (metis imageI)
  then show "(\<exists>p0 \<in> set (t_execs (tabs w)). pe_ExecutionID p0 = pe_ExecutionID p) \<or>
      (\<exists>q \<in> set (t_outbox (tabs w')). po_ExecutionID q = pe_ExecutionID p)" by auto
next
  fix q assume "q \<in> set (t_outbox (tabs w'))" "po_State q = OutboxDead"
  with dead [of q] left [of "po_ExecutionID q"] assms(2,3)
  show "(\<exists>q0 \<in> set (t_outbox (tabs w)). po_ExecutionID q0 = po_ExecutionID q \<and> po_State q0 = OutboxDead) \<or>
      (\<exists>p \<in> set (t_execs (tabs w')). pe_ExecutionID p = po_ExecutionID q \<and> pe_ExecutionStatus p \<noteq> StatusWait)" by auto
qed

lemma finish_accounted:
  assumes sound: "sound w" and run: "execute_case_finish True ct rec mqErr w = (Inr x, w')"
  shows "accounted (tabs w) (tabs w')"
proof (cases mqErr)
  case None
  have ok: "tables_ok (tabs w)" using sound by (simp add: sound_def)
  from run None have up: "updateByExecutionIDs [er_ExecutionID rec] '''' (published_row (ct_published ct)) w = (Inr (), w')"
    by (simp add: execute_case_finish_def mark_defs)
  show ?thesis
    by (rule marks_accounted [where D = "{}" and ?w1.0 = w])
      (use update_ok [OF ok up] update_no_new_dead [OF ok up] update_same_ids [OF ok up] in \<open>simp_all add: row_defs\<close>)
next
  case (Some e)
  with run obtain c w1 c' w2 where find: "ExecutionRepository_FindByID (er_ExecutionID rec) w = (Inr (Some c), w1)"
    and mark: "MarkAsDispatchFailed (ct_fail ct) c = Inr c'"
    and save: "ExecutionRepository_Save c' w1 = (Inr (), w2)"
    and dead: "updateByExecutionIDs [er_ExecutionID rec] '''' (dead_row (Error e)) w2 = (Inr (), w')"
    by (auto simp: execute_case_finish_def io_Inr mark_defs split: sum.splits)
  have "sound w1" using sound_step [OF sound exec_store.exec_find outbox_store.exec_find find] by simp
  then have "sound w2" using sound_step [OF _ exec_store.exec_save outbox_store.exec_save save] by simp
  then have ok2: "tables_ok (tabs w2)" by (simp add: sound_def)
  have c: "er_ExecutionID c = er_ExecutionID rec" "tabs w1 = tabs w"
    using find by (auto simp: ExecutionRepository_FindByID_def io_Inr split: if_splits
        dest!: sql_first_Inr)
  have c': "er_ExecutionID c' = er_ExecutionID rec" "er_ExecutionStatus c' = StatusDispatchFailed"
    using mark c(1) by (auto simp: MarkAsDispatchFailed_Inr)
  note saved = Save_Inr [OF save, unfolded c']
  let ?g = "\<lambda>p. if pe_ExecutionID p = er_ExecutionID rec \<and> pe_ExecutionStatus p = StatusWait
    then p\<lparr>pe_ExecutionStatus := StatusDispatchFailed, pe_ExecuteAt := er_ExecuteAt c', pe_FinishAt := er_FinishAt c'\<rparr> else p"
  have t2: "t_execs (tabs w2) = map ?g (t_execs (tabs w))" "t_outbox (tabs w2) = t_outbox (tabs w)"
    using saved c(2) by (simp_all add: apply_where_def)
  have "map pe_ExecutionID (t_execs (tabs w2)) = map pe_ExecutionID (t_execs (tabs w))" by (simp add: t2)
  then have ids: "pe_ExecutionID ` set (t_execs (tabs w2)) = pe_ExecutionID ` set (t_execs (tabs w))" by (metis list.set_map)
  from saved c(2) obtain p where "p \<in> set (t_execs (tabs w))" "pe_ExecutionID p = er_ExecutionID rec" by auto
  then have left: "\<exists>p \<in> set (t_execs (tabs w2)). pe_ExecutionID p = er_ExecutionID rec \<and> pe_ExecutionStatus p \<noteq> StatusWait"
    by (intro bexI [of _ "?g p"]) (auto simp: t2)
  show ?thesis
  proof (rule marks_accounted [OF ids t2(2), where D = "{er_ExecutionID rec}"])
    show "t_execs (tabs w') = t_execs (tabs w2)" using update_ok [OF ok2 dead] by (simp add: row_defs)
    show "po_ExecutionID ` set (t_outbox (tabs w')) \<subseteq> po_ExecutionID ` set (t_outbox (tabs w2))"
      by (rule update_same_ids [OF ok2 dead]) (simp add: row_defs)
    fix q assume "q \<in> set (t_outbox (tabs w'))"
    from update_new_rows [OF ok2 dead this]
    show "q \<in> set (t_outbox (tabs w2)) \<or> po_ExecutionID q \<in> {er_ExecutionID rec}" by (auto simp: row_defs)
  qed (use left in simp)
qed

lemma chunk_finish_accounted:
  assumes sound: "sound w" and run: "chunk_finish True kt records res w = (Inr x, w')"
    and marked: "\<And>i. i \<in> set (FailedIDs res) \<Longrightarrow>
      \<exists>r \<in> set records. er_ExecutionID r = i \<and> er_ExecutionStatus r \<noteq> StatusWait"
  shows "accounted (tabs w) (tabs w')"
proof -
  from run obtain w1 w2 where up: "ExecutionRepository_BatchUpdateStatus records w = (Inr (), w1)"
    and pub: "updateByExecutionIDs (SuccessIDs res) '''' (published_row (kt_published kt)) w1 = (Inr (), w2)"
    and dead: "updateByExecutionIDs (FailedIDs res) '''' (dead_row (ErrorMessage res)) w2 = (Inr (), w')"
    by (auto simp: chunk_finish_def io_Inr mark_defs)
  have "sound w1" using sound_step [OF sound adv_BatchUpdateStatus oadv_BatchUpdateStatus up] by simp
  then have ok1: "tables_ok (tabs w1)" by (simp add: sound_def)
  have ok2: "tables_ok (tabs w2)" "t_execs (tabs w2) = t_execs (tabs w1)"
    using update_ok [OF ok1 pub] by (simp_all add: row_defs)
  have ex: "t_execs (tabs w') = t_execs (tabs w1)" using update_ok [OF ok2(1) dead] ok2(2) by (simp add: row_defs)
  have "tables_ok (tabs w)" using sound by (simp add: sound_def)
  note eff = BatchUpdateStatus_effect [OF this up]
  show ?thesis
  proof (rule marks_accounted [OF conjunct1 [OF conjunct2 [OF eff]] conjunct1 [OF eff] ex, where D = "set (FailedIDs res)"])
    show "po_ExecutionID ` set (t_outbox (tabs w')) \<subseteq> po_ExecutionID ` set (t_outbox (tabs w1))"
      using update_same_ids [OF ok2(1) dead] update_same_ids [OF ok1 pub] by (simp add: row_defs subset_trans)
  next
    fix q assume q: "q \<in> set (t_outbox (tabs w'))" "po_State q = OutboxDead"
    have "q \<in> set (t_outbox (tabs w2)) \<or> po_ExecutionID q \<in> set (FailedIDs res)"
      using update_new_rows [OF ok2(1) dead q(1)] by (auto simp: row_defs)
    then show "q \<in> set (t_outbox (tabs w1)) \<or> po_ExecutionID q \<in> set (FailedIDs res)"
      using update_no_new_dead [OF ok1 pub _ _ q(2)] by (auto simp: row_defs)
  next
    fix i assume "i \<in> set (FailedIDs res)"
    from marked [OF this] obtain r where r: "r \<in> set records" "er_ExecutionID r = i" "er_ExecutionStatus r \<noteq> StatusWait"
      by (elim bexE conjE)
    from eff r(1,3) show "\<exists>p \<in> set (t_execs (tabs w1)). pe_ExecutionID p = i \<and> pe_ExecutionStatus p \<noteq> StatusWait"
      unfolding r(2) [symmetric] by simp
  qed
qed

lemma relay_finish_accounted:
  assumes sound: "sound w"
    and run: "relay_finish cfg now tok res s w = (Inr x, w')"
    and marked: "\<And>i. i \<in> set (rs_dead s) \<Longrightarrow>
      \<exists>r \<in> set (rs_records s). er_ExecutionID r = i \<and> er_ExecutionStatus r \<noteq> StatusWait"
  shows "accounted (tabs w) (tabs w')"
proof -
  let ?at = "add_time now (retryBackoff cfg (rs_attempt s))"
  from run obtain w1 w2 w3 where up: "ExecutionRepository_BatchUpdateStatus (rs_records s) w = (Inr (), w1)"
    and pub: "updateByExecutionIDs (SuccessIDs res) tok (published_row now) w1 = (Inr (), w2)"
    and dead: "updateByExecutionIDs (rs_dead s) tok (dead_row (ErrorMessage res)) w2 = (Inr (), w3)"
    and retry: "updateByExecutionIDs (rs_retry s) tok (retry_row ?at (ErrorMessage res)) w3 = (Inr (), w')"
    unfolding relay_finish_def MarkRetry_if unfolding mark_defs by (auto simp: io_then_Inr)
  have "sound w1" using sound_step [OF sound adv_BatchUpdateStatus oadv_BatchUpdateStatus up] by simp
  then have ok1: "tables_ok (tabs w1)" by (simp add: sound_def)
  have ok2: "tables_ok (tabs w2)" "t_execs (tabs w2) = t_execs (tabs w1)"
    using update_ok [OF ok1 pub] by (simp_all add: row_defs)
  have ok3: "tables_ok (tabs w3)" "t_execs (tabs w3) = t_execs (tabs w2)"
    using update_ok [OF ok2(1) dead] by (simp_all add: row_defs)
  have ex: "t_execs (tabs w') = t_execs (tabs w1)"
    using update_ok [OF ok3(1) retry] ok3(2) ok2(2) by (simp add: row_defs)
  have "tables_ok (tabs w)" using sound by (simp add: sound_def)
  note eff = BatchUpdateStatus_effect [OF this up]
  show ?thesis
  proof (rule marks_accounted [OF conjunct1 [OF conjunct2 [OF eff]] conjunct1 [OF eff] ex, where D = "set (rs_dead s)"])
    have "po_ExecutionID ` set (t_outbox (tabs w')) \<subseteq> po_ExecutionID ` set (t_outbox (tabs w3))"
      using update_same_ids [OF ok3(1) retry] by (simp add: row_defs)
    also have "\<dots> \<subseteq> po_ExecutionID ` set (t_outbox (tabs w2))" using update_same_ids [OF ok2(1) dead] by (simp add: row_defs)
    also have "\<dots> \<subseteq> po_ExecutionID ` set (t_outbox (tabs w1))" using update_same_ids [OF ok1 pub] by (simp add: row_defs)
    finally show "po_ExecutionID ` set (t_outbox (tabs w')) \<subseteq> po_ExecutionID ` set (t_outbox (tabs w1))" .
  next
    fix q assume q: "q \<in> set (t_outbox (tabs w'))" "po_State q = OutboxDead"
    from update_no_new_dead [OF ok3(1) retry _ q] have q3: "q \<in> set (t_outbox (tabs w3))" by (simp add: row_defs)
    have "q \<in> set (t_outbox (tabs w2)) \<or> po_ExecutionID q \<in> set (rs_dead s)"
      using update_new_rows [OF ok2(1) dead q3] by (auto simp: row_defs)
    then show "q \<in> set (t_outbox (tabs w1)) \<or> po_ExecutionID q \<in> set (rs_dead s)"
      using update_no_new_dead [OF ok1 pub _ _ q(2)] by (auto simp: row_defs)
  next
    fix i assume "i \<in> set (rs_dead s)"
    from marked [OF this] obtain r where r: "r \<in> set (rs_records s)" "er_ExecutionID r = i" "er_ExecutionStatus r \<noteq> StatusWait"
      by (elim bexE conjE)
    from eff r(1,3) show "\<exists>p \<in> set (t_execs (tabs w1)). pe_ExecutionID p = i \<and> pe_ExecutionStatus p \<noteq> StatusWait"
      unfolding r(2) [symmetric] by simp
  qed
qed

lemma claim_accounted:
  assumes sound: "sound w" and run: "claim_tx locked tok limit now leaseUntil w = (Inr ms, w')"
  shows "accounted (tabs w) (tabs w')"
proof -
  have ok: "tables_ok (tabs w)" using sound by (simp add: sound_def)
  note t = claim_tx_Inr [OF ok run]
  have "q \<in> set (t_outbox (tabs w))" if "q \<in> set (t_outbox (tabs w'))" "po_State q = OutboxDead" for q
    using that t by (auto simp: leased_table_def apply_where_def lease_row_def split: if_splits)
  moreover have "po_ExecutionID q \<in> po_ExecutionID ` set (t_outbox (tabs w))" if "q \<in> set (t_outbox (tabs w'))" for q
    using that t by (auto simp: leased_table_def apply_where_def lease_row_def)
  ultimately show ?thesis using t by (fastforce simp: accounted_def leased_table_def)
qed

subsection \<open>The use cases and the relay keep the invariant\<close>

lemma pair_case_find: "guarantees pair_rel (UtCaseRepository_FindByID i)"
  unfolding UtCaseRepository_FindByID_def by (intro pair.pieces)

lemma pair_ExecuteCase:
  assumes "\<And>bs. rand = Inr bs \<Longrightarrow> length bs = 16"
  shows "guarantees pair_rel (ExecuteCaseWithRequest cfg True rand ct ex rid i v u)"
proof (cases "NormalizeRequestID rand rid")
  case (Inl e)
  then show ?thesis by (auto simp: ExecuteCaseWithRequest_def intro!: pair.pieces)
next
  case (Inr rid')
  have rid': "rid' \<noteq> ''''" using NormalizeRequestID_Inr [OF Inr assms] by simp
  have create: "guarantees pair_rel (tx_Do (execute_case_create cfg True ct rid' i v u))"
    by (rule pair_transaction)
      (auto intro: exec_store.create_guarantees outbox_store.create_guarantees create_accounted [OF _ _ rid'])
  have finish: "guarantees pair_rel (tx_Do (execute_case_finish True ct rec err))" for rec err
    by (rule pair_transaction)
      (auto intro: exec_store.finish_guarantees outbox_store.finish_guarantees finish_accounted)
  have replay: "guarantees pair_rel (case p of (status, True) \<Rightarrow> io_return (f status) | (_, False) \<Rightarrow> m)"
    if "guarantees pair_rel m" for p :: "ExecutionStatus \<times> bool" and m
      and f :: "ExecutionStatus \<Rightarrow> int64 \<times> ExecutionStatus \<times> goerr option"
    using that by (auto simp: pair.return split: prod.splits bool.splits)
  have prod: "(\<And>x y. guarantees pair_rel (f x y)) \<Longrightarrow> guarantees pair_rel (case p of (x, y) \<Rightarrow> f x y)" for p f
    by (cases p) simp
  show ?thesis
    unfolding ExecuteCaseWithRequest_def Let_def Inr sum.case
    by (intro pair.if_ pair.return pair.bind pair.try_ pair.case_sum_ prod replay create finish)
qed

lemma dispatch_marks_failed:
  assumes "i \<in> set (FailedIDs res)" and "set (FailedIDs res) \<subseteq> er_ExecutionID ` set rs"
  shows "\<exists>r \<in> set (DispatchBatch clk rs res). er_ExecutionID r = i \<and> er_ExecutionStatus r \<noteq> StatusWait"
proof -
  from assms obtain k where k: "k < length rs" "er_ExecutionID (rs ! k) = i" by (auto simp: in_set_conv_nth image_iff) (metis in_set_conv_nth image_iff subsetD)
  then have "DispatchBatch clk rs res ! k \<in> set (DispatchBatch clk rs res)" by simp
  with k assms(1) show ?thesis
    by (intro bexI [of _ "DispatchBatch clk rs res ! k"]) (auto simp: DispatchBatch_nth)
qed

lemma pair_chunk:
  assumes rid: "rid \<noteq> ''''"
  shows "guarantees pair_rel (dispatchOneBatch cfg True kt br batch rid v u)"
proof -
  obtain records nm where cr: "CreateBatchRecordsForRequest (kt_create kt) rid (ib_Cases batch) v u = (records, nm)"
    by (metis surj_pair)
  have insert: "guarantees pair_rel (tx_Do (chunk_insert cfg True kt records nm))"
    by (rule pair_transaction)
      (auto intro: exec_store.insert_guarantees outbox_store.insert_guarantees
        chunk_insert_accounted [OF _ _ rid dispatch_records(2) [OF cr]])
  have finish: "guarantees pair_rel (tx_Do (chunk_finish True kt (DispatchBatch clk pending (chunk_publish br pending nm))
      (chunk_publish br pending nm)))" for pending clk
  proof (rule pair_transaction)
    let ?res = "chunk_publish br pending nm"
    have "set (FailedIDs ?res) \<subseteq> set (map er_ExecutionID pending)"
      using arg_cong [OF chunk_publish_split [of br pending nm], of set_mset] by auto
    then have sub: "set (FailedIDs ?res) \<subseteq> er_ExecutionID ` set pending" by simp
    show "accounted (tabs w) (tabs w')"
      if "sound w" "chunk_finish True kt (DispatchBatch clk pending ?res) ?res w = (Inr x, w')" for w x w'
      by (rule chunk_finish_accounted [OF that dispatch_marks_failed [OF _ sub]])
  qed (auto intro: exec_store.chunk_finish_guarantees outbox_store.chunk_finish_guarantees)
  have prod: "(\<And>x y. guarantees pair_rel (f x y)) \<Longrightarrow> guarantees pair_rel (case p of (x, y) \<Rightarrow> f x y)" for p f
    by (cases p) simp
  show ?thesis
    unfolding dispatchOneBatch_def Let_def cr prod.case
    by (intro pair.return pair.bind pair.try_ pair.case_sum_ pair.case_option_ prod insert finish)
qed

lemma pair_relay_dispatch: "guarantees pair_rel (relay_dispatch cfg env messages)"
proof (cases messages)
  case Nil
  then show ?thesis by (simp add: relay_dispatch_def pair.return)
next
  case (Cons m ms)
  have finish: "guarantees pair_rel (tx_Do (relay_finish cfg (re_now env) tok res
      \<lparr>rs_retry = retried_ids M byID ids, rs_dead = dead_ids M byID ids,
       rs_records = map (dead_record (re_fail env) byID) (dead_ids M byID ids), rs_attempt = a\<rparr>))" for tok res M byID ids a
  proof (rule pair_transaction)
    show "accounted (tabs w) (tabs w')"
      if "sound w" "relay_finish cfg (re_now env) tok res
        \<lparr>rs_retry = retried_ids M byID ids, rs_dead = dead_ids M byID ids,
         rs_records = map (dead_record (re_fail env) byID) (dead_ids M byID ids), rs_attempt = a\<rparr> w = (Inr x, w')" for w x w'
      by (rule relay_finish_accounted [OF that])
        (auto simp: dead_ids_def dead_record_def bare_record_def split: option.splits)
  qed (auto intro: exec_store.relay_finish_guarantees outbox_store.relay_finish_guarantees)
  show ?thesis
    unfolding relay_dispatch_def Cons list.case Let_def split_failures_total
    by (simp, intro conjI impI pair.return pair.bind pair.try_ finish)
qed

lemma adv_claim_tx: "guarantees exec_advance (claim_tx locked tok l now until)"
proof -
  have "guarantees exec_advance (sql_select_claimable locked l now)"
    unfolding sql_select_claimable_def by (rule adv.statement) (auto simp: adv.refl)
  then show ?thesis unfolding claim_tx_def by (intro adv_pieces)
qed

lemma pair_DispatchOnce: "guarantees pair_rel (DispatchOnce cfg env)"
proof -
  have claim: "guarantees pair_rel (tx_Do (claim_tx locked tok l now until))" for locked tok l now until
    by (rule pair_transaction) (auto intro: adv_claim_tx oadv_claim_tx claim_accounted)
  show ?thesis
    unfolding DispatchOnce_def OutboxRepository_ClaimPending_def Let_def
    by (intro pair.return pair.bind pair.try_ pair.case_sum_ pair.fail claim pair_relay_dispatch)
qed

end
