(* ===== verification/Relay_Progress.thy ===== *)
theory Relay_Progress
  imports Relay_Pass
begin

text \<open>
  Progress: while nothing fails and no other process works on the tables, the passes of the relay
  drain the outbox. This is the counterpart of the safety properties of \<open>Relay_Pass\<close>: with enough
  passes every message that is due is PUBLISHED.
\<close>

definition quiet :: "world \<Rightarrow> bool" where
  "quiet w \<longleftrightarrow> outcomes w = [] \<and> foreign w = [] \<and> tables_ok (tabs w)"

lemma quiet_sql:
  "quiet w \<Longrightarrow> sql stmt w = (case stmt w of Inl e \<Rightarrow> (Inl e, w) | Inr (x, t) \<Rightarrow> (Inr x, w\<lparr>tabs := t\<rparr>))"
  by (simp add: quiet_def sql_def next_outcome_def split: sum.splits prod.splits)

lemma quiet_interfere: "quiet w \<Longrightarrow> interfere w = w"
  by (simp add: quiet_def interfere_def)

lemma quiet_tx: "quiet w \<Longrightarrow> m w = (Inr x, w') \<Longrightarrow> quiet w' \<Longrightarrow> tx_Do m w = (Inr x, w')"
  by (simp add: tx_Do_def quiet_interfere quiet_sql) (simp add: quiet_def next_outcome_def)

lemma quiet_update:
  assumes q: "quiet w" and d: "distinct ids"
    and held: "\<forall>i \<in> set ids. \<exists>r \<in> set (t_outbox (tabs w)). po_ExecutionID r = i \<and> holds_lease tok (tabs w) r"
    and f: "\<And>r. holds_lease tok (tabs w) r \<Longrightarrow> (f r)\<lparr>po_UpdatedAt := clock w\<rparr> \<noteq> r"
  shows "updateByExecutionIDs ids tok f w = (Inr (), w\<lparr>tabs := (tabs w)\<lparr>t_outbox := apply_where
      (\<lambda>r. po_ExecutionID r \<in> set ids \<and> holds_lease tok (tabs w) r)
      (\<lambda>r. (f r)\<lparr>po_UpdatedAt := clock w\<rparr>) (t_outbox (tabs w))\<rparr>\<rparr>)"
proof -
  let ?p = "\<lambda>r. po_ExecutionID r \<in> set ids \<and> holds_lease tok (tabs w) r"
  let ?f = "\<lambda>r. (f r)\<lparr>po_UpdatedAt := clock w\<rparr>"
  have "filter (\<lambda>r. ?p r \<and> ?f r \<noteq> r) (t_outbox (tabs w)) = filter ?p (t_outbox (tabs w))"
    by (rule filter_cong) (use f in auto)
  moreover have "length (filter ?p (t_outbox (tabs w))) = card (set ids)"
  proof -
    have "distinct (map po_ExecutionID (filter ?p (t_outbox (tabs w))))"
      using q by (intro distinct_map_filter tables_ok_distinct_exec) (simp add: quiet_def)
    from distinct_card [OF this]
    have "length (filter ?p (t_outbox (tabs w))) = card (po_ExecutionID ` set (filter ?p (t_outbox (tabs w))))"
      unfolding set_map length_map by (rule sym)
    moreover have "po_ExecutionID ` set (filter ?p (t_outbox (tabs w))) = set ids"
    proof (intro equalityI subsetI)
      fix i assume i: "i \<in> set ids"
      from bspec [OF held i] obtain r where "r \<in> set (t_outbox (tabs w))" "po_ExecutionID r = i"
        "holds_lease tok (tabs w) r" by (elim bexE conjE)
      with i show "i \<in> po_ExecutionID ` set (filter ?p (t_outbox (tabs w)))" by (intro image_eqI [of _ _ r]) simp_all
    qed auto
    ultimately show ?thesis by simp
  qed
  ultimately have a: "affected ?p ?f (t_outbox (tabs w)) = int (card (set ids))"
    unfolding affected_def by (simp only:)
  show ?thesis
  proof (cases "ids = []")
    case True
    then show ?thesis by (simp add: updateByExecutionIDs_def io_return_def apply_where_def map_idI)
  next
    case False
    with a show ?thesis
      by (simp add: updateByExecutionIDs_def sql_update_outbox_def quiet_sql [OF q] io_bind_def io_wrap_def
          io_return_def Let_def length_uniqueInt64s)
  qed
qed

lemma quiet_claim:
  fixes locked :: "int64 \<Rightarrow> bool" and l :: int and now :: gotime
  assumes q: "quiet w"
  defines "rows \<equiv> claimed_rows_of locked l now (t_outbox (tabs w))"
  shows "\<exists>ms w'. claim_tx locked tok l now until w = (Inr ms, w') \<and> quiet w' \<and> clock w' = clock w"
proof -
  have rows: "take (nat l) (sort_key po_OutboxID (filter (\<lambda>r. claimable now r \<and> \<not> locked (po_OutboxID r)) (t_outbox (tabs w)))) = rows"
    by (simp add: rows_def claimed_rows_of_def)
  let ?g = "\<lambda>r. (lease_row until tok r)\<lparr>po_UpdatedAt := clock w\<rparr>"
  have "quiet (w\<lparr>tabs := (tabs w)\<lparr>t_outbox := apply_where (\<lambda>r. po_OutboxID r \<in> po_OutboxID ` set rows) ?g (t_outbox (tabs w))\<rparr>\<rparr>)"
    using q keeps_ok_apply_outbox [of ?g "tabs w" "\<lambda>r. po_OutboxID r \<in> po_OutboxID ` set rows"]
    by (simp add: quiet_def keeps_ok_def lease_row_def)
  with q show ?thesis
    by (simp add: claim_tx_def sql_select_claimable_def quiet_sql [OF q] io_bind_def io_wrap_def io_return_def rows
        sql_update_outbox_def Let_def)
qed

lemma quiet_outbox:
  assumes "quiet w" and "\<And>r. po_OutboxID (f r) = po_OutboxID r \<and> po_ExecutionID (f r) = po_ExecutionID r"
  shows "quiet (w\<lparr>tabs := (tabs w)\<lparr>t_outbox := apply_where p f (t_outbox (tabs w))\<rparr>\<rparr>)"
  using assms(1) keeps_ok_apply_outbox [of f "tabs w" p] assms(2) by (simp add: quiet_def keeps_ok_def)

subsection \<open>Writing back\<close>

text \<open>Everything but the status of executions.\<close>

definition same_frame :: "world \<Rightarrow> world \<Rightarrow> bool" where
  "same_frame w w' \<longleftrightarrow> outcomes w' = outcomes w \<and> foreign w' = foreign w \<and> clock w' = clock w \<and>
     t_outbox (tabs w') = t_outbox (tabs w) \<and> t_coll (tabs w') = t_coll (tabs w) \<and>
     map pe_ExecutionID (t_execs (tabs w')) = map pe_ExecutionID (t_execs (tabs w))"

lemma same_frame_trans: "same_frame a b \<Longrightarrow> same_frame b c \<Longrightarrow> same_frame a c"
  by (simp add: same_frame_def)

lemma untroubled_sql:
  "outcomes w = [] \<Longrightarrow> foreign w = [] \<Longrightarrow>
     sql stmt w = (case stmt w of Inl e \<Rightarrow> (Inl e, w) | Inr (x, t) \<Rightarrow> (Inr x, w\<lparr>tabs := t\<rparr>))"
  by (simp add: sql_def next_outcome_def split: sum.splits prod.splits)

lemma all_present:
  assumes "distinct (map pk rows)" and "finite S" and "S \<subseteq> pk ` set rows"
  shows "length (filter (\<lambda>r. pk r \<in> S) rows) = card S"
proof -
  have "pk ` set (filter (\<lambda>r. pk r \<in> S) rows) = S" using assms(3) by auto
  moreover have "distinct (map pk (filter (\<lambda>r. pk r \<in> S) rows))" using assms(1) by (rule distinct_map_filter)
  ultimately show ?thesis by (metis distinct_card length_map list.set_map)
qed

lemma quiet_update_group:
  assumes w: "outcomes w = []" "foreign w = []" "distinct (map pe_ExecutionID (t_execs (tabs w)))"
    and there: "set (group_ids records st) \<subseteq> pe_ExecutionID ` set (t_execs (tabs w))"
  shows "\<exists>w'. update_group records st w = (Inr (), w') \<and> same_frame w w'"
proof -
  let ?p = "\<lambda>r :: ExecutionRecordPO. pe_ExecutionID r \<in> set (group_ids records st) \<and> pe_ExecutionStatus r = StatusWait"
  define f where "f = (\<lambda>r :: ExecutionRecordPO. if IsTerminal st
      then r\<lparr>pe_ExecutionStatus := st, pe_FinishAt := recordFinishTime records (group_ids records st)\<rparr>
      else r\<lparr>pe_ExecutionStatus := st\<rparr>)"
  define w1 where "w1 = w\<lparr>tabs := (tabs w)\<lparr>t_execs := apply_where ?p f (t_execs (tabs w))\<rparr>\<rparr>"
  have up: "sql_update_execs ?p f w = (Inr (affected ?p f (t_execs (tabs w))), w1)"
    by (simp add: sql_update_execs_def untroubled_sql [OF w(1,2)] w1_def)
  have ids: "map pe_ExecutionID (t_execs (tabs w1)) = map pe_ExecutionID (t_execs (tabs w))"
    by (simp add: w1_def apply_where_def f_def)
  have w1: "outcomes w1 = []" "foreign w1 = []" by (simp_all add: w1_def w)
  have "pe_ExecutionID ` set (t_execs (tabs w1)) = pe_ExecutionID ` set (t_execs (tabs w))"
    using ids by (metis list.set_map)
  then have n: "length (filter (\<lambda>r. pe_ExecutionID r \<in> set (group_ids records st)) (t_execs (tabs w1)))
      = card (set (group_ids records st))"
    using there w(3) by (intro all_present) (simp_all add: ids)
  have "update_group records st w = (Inr (), w1)"
    unfolding update_group_def Let_def f_def [symmetric]
    by (simp add: io_bind_def io_wrap_def up io_return_def sql_find_def untroubled_sql [OF w1] n length_uniqueInt64s)
  moreover have "same_frame w w1"
    using ids by (simp add: same_frame_def) (simp add: w1_def)
  ultimately show ?thesis by blast
qed

lemma quiet_update_groups:
  assumes "outcomes w = []" and "foreign w = []" and "distinct (map pe_ExecutionID (t_execs (tabs w)))"
    and "er_ExecutionID ` set records \<subseteq> pe_ExecutionID ` set (t_execs (tabs w))"
  shows "\<exists>w'. update_groups records ss w = (Inr (), w') \<and> same_frame w w'"
  using assms
proof (induction ss arbitrary: w)
  case Nil
  show ?case by (simp add: io_return_def same_frame_def)
next
  case (Cons st ss)
  have "set (group_ids records st) \<subseteq> pe_ExecutionID ` set (t_execs (tabs w))"
    using Cons.prems(4) by (auto simp: group_ids_def)
  from quiet_update_group [OF Cons.prems(1-3) this] obtain w1
    where 1: "update_group records st w = (Inr (), w1)" and f: "same_frame w w1" by blast
  have "pe_ExecutionID ` set (t_execs (tabs w1)) = pe_ExecutionID ` set (t_execs (tabs w))"
    using f unfolding same_frame_def by (metis list.set_map)
  with Cons.IH [of w1] Cons.prems f obtain w2 where "update_groups records ss w1 = (Inr (), w2)" "same_frame w1 w2"
    by (auto simp: same_frame_def)
  with 1 f show ?case by (auto simp: io_then_def io_bind_def intro: same_frame_trans)
qed

lemma quiet_BatchUpdateStatus:
  assumes q: "quiet w" and there: "er_ExecutionID ` set records \<subseteq> pe_ExecutionID ` set (t_execs (tabs w))"
  shows "\<exists>w'. ExecutionRepository_BatchUpdateStatus records w = (Inr (), w') \<and> quiet w' \<and> same_frame w w'"
proof -
  have "distinct (map pe_ExecutionID (t_execs (tabs w)))" using q by (simp add: quiet_def tables_ok_def keyed_ok_def)
  then obtain w' where run: "ExecutionRepository_BatchUpdateStatus records w = (Inr (), w')" and f: "same_frame w w'"
    using quiet_update_groups [OF _ _ _ there, of "map_order (mord w) (grouped_statuses records)"] q
    by (cases "records = []") (auto simp: ExecutionRepository_BatchUpdateStatus_def io_return_def same_frame_def
        io_bind_def io_world_def quiet_def)
  have "rely keeps_ok w" using q by (simp add: rely_def quiet_def)
  then have "within keeps_ok w w'" using guaranteesD [OF ok_BatchUpdateStatus _ run] by blast
  then have "tables_ok (tabs w')" using q by (simp add: within_def keeps_ok_def quiet_def)
  with q f have "quiet w'" by (simp add: quiet_def same_frame_def)
  with run f show ?thesis by blast
qed

text \<open>The three marks of a write-back, on rows held under the token of the pass.\<close>

definition marked_row :: "int64 list \<Rightarrow> int64 list \<Rightarrow> int64 list \<Rightarrow> (OutboxMessagePO \<Rightarrow> OutboxMessagePO) \<Rightarrow>
    (OutboxMessagePO \<Rightarrow> OutboxMessagePO) \<Rightarrow> (OutboxMessagePO \<Rightarrow> OutboxMessagePO) \<Rightarrow> OutboxMessagePO \<Rightarrow> OutboxMessagePO" where
  "marked_row A B C f g h r =
     (if po_ExecutionID r \<in> set A then f r else if po_ExecutionID r \<in> set B then g r
      else if po_ExecutionID r \<in> set C then h r else r)"

lemma apply_where_id: "r \<in> set rows \<Longrightarrow> \<not> p r \<Longrightarrow> r \<in> set (apply_where p f rows)"
  by (auto simp: apply_where_def image_iff intro!: bexI [of _ r])

definition touched :: "int64 list \<Rightarrow> (OutboxMessagePO \<Rightarrow> bool) \<Rightarrow> gotime \<Rightarrow> (OutboxMessagePO \<Rightarrow> OutboxMessagePO) \<Rightarrow>
    OutboxMessagePO list \<Rightarrow> OutboxMessagePO list" where
  "touched A L stamp f = apply_where (\<lambda>r. po_ExecutionID r \<in> set A \<and> L r) (\<lambda>r. (f r)\<lparr>po_UpdatedAt := stamp\<rparr>)"

lemma touched_disjoint:
  assumes "set A \<inter> set B = {}" "set A \<inter> set C = {}" "set B \<inter> set C = {}"
    and "\<And>r. po_ExecutionID (f r) = po_ExecutionID r" "\<And>r. po_ExecutionID (g r) = po_ExecutionID r"
      "\<And>r. po_ExecutionID (h r) = po_ExecutionID r"
  shows "touched C L c h (touched B L c g (touched A L c f rows)) =
    apply_where (\<lambda>r. po_ExecutionID r \<in> set A \<union> set B \<union> set C \<and> L r)
      (\<lambda>r. (marked_row A B C f g h r)\<lparr>po_UpdatedAt := c\<rparr>) rows"
proof -
  have "touched C L c h (touched B L c g (touched A L c f [r])) =
    apply_where (\<lambda>r. po_ExecutionID r \<in> set A \<union> set B \<union> set C \<and> L r)
      (\<lambda>r. (marked_row A B C f g h r)\<lparr>po_UpdatedAt := c\<rparr>) [r]" for r
  proof -
    consider (A) "po_ExecutionID r \<in> set A" "po_ExecutionID r \<notin> set B" "po_ExecutionID r \<notin> set C"
      | (B) "po_ExecutionID r \<notin> set A" "po_ExecutionID r \<in> set B" "po_ExecutionID r \<notin> set C"
      | (C) "po_ExecutionID r \<notin> set A" "po_ExecutionID r \<notin> set B" "po_ExecutionID r \<in> set C"
      | (N) "po_ExecutionID r \<notin> set A" "po_ExecutionID r \<notin> set B" "po_ExecutionID r \<notin> set C"
      using assms(1-3) by blast
    then show ?thesis
      by cases (simp_all add: touched_def apply_where_def marked_row_def assms(4-6))
  qed
  then show ?thesis by (induction rows) (simp_all add: touched_def apply_where_def)
qed

lemma lease_same: "holds_lease tok (t\<lparr>t_outbox := rows\<rparr>) = holds_lease tok t"
  by (rule holds_lease_cong) simp

lemma quiet_touch:
  assumes "quiet w" and "tok \<noteq> ''''" and "distinct ids"
    and "\<forall>i \<in> set ids. \<exists>r \<in> set (t_outbox (tabs w)). po_ExecutionID r = i \<and> holds_lease tok (tabs w) r"
    and "\<And>r. po_OutboxID (f r) = po_OutboxID r \<and> po_ExecutionID (f r) = po_ExecutionID r \<and> po_State (f r) \<noteq> OutboxProcessing"
  defines "w' \<equiv> w\<lparr>tabs := (tabs w)\<lparr>t_outbox := touched ids (holds_lease tok (tabs w)) (clock w) f (t_outbox (tabs w))\<rparr>\<rparr>"
  shows "updateByExecutionIDs ids tok f w = (Inr (), w')" and "quiet w'"
    and "r \<in> set (t_outbox (tabs w)) \<Longrightarrow> po_ExecutionID r \<notin> set ids \<Longrightarrow> r \<in> set (t_outbox (tabs w'))"
    and "clock w' = clock w" and "holds_lease tok (tabs w') = holds_lease tok (tabs w)"
proof -
  have "(f r)\<lparr>po_UpdatedAt := clock w\<rparr> \<noteq> r" if "holds_lease tok (tabs w) r" for r
  proof -
    have "po_State ((f r)\<lparr>po_UpdatedAt := clock w\<rparr>) \<noteq> po_State r"
      using that assms(2) assms(5) [of r] by (simp add: holds_lease_def)
    then show ?thesis by metis
  qed
  with quiet_update [OF assms(1,3,4)] show "updateByExecutionIDs ids tok f w = (Inr (), w')"
    by (simp add: w'_def touched_def)
  show "quiet w'" unfolding w'_def touched_def by (rule quiet_outbox [OF assms(1)]) (simp add: assms(5))
  show "r \<in> set (t_outbox (tabs w)) \<Longrightarrow> po_ExecutionID r \<notin> set ids \<Longrightarrow> r \<in> set (t_outbox (tabs w'))"
    by (auto simp: w'_def touched_def intro!: apply_where_id)
  show "clock w' = clock w" "holds_lease tok (tabs w') = holds_lease tok (tabs w)"
    by (auto simp: w'_def intro: holds_lease_cong)
qed

lemma quiet_marks:
  assumes q: "quiet w" and tok: "tok \<noteq> ''''" and d: "distinct A" "distinct B" "distinct C"
    and dis: "set A \<inter> set B = {}" "set A \<inter> set C = {}" "set B \<inter> set C = {}"
    and held: "\<forall>i \<in> set A \<union> set B \<union> set C. \<exists>r \<in> set (t_outbox (tabs w)). po_ExecutionID r = i \<and> holds_lease tok (tabs w) r"
    and f: "\<And>r. po_OutboxID (f r) = po_OutboxID r \<and> po_ExecutionID (f r) = po_ExecutionID r \<and> po_State (f r) \<noteq> OutboxProcessing"
    and g: "\<And>r. po_OutboxID (g r) = po_OutboxID r \<and> po_ExecutionID (g r) = po_ExecutionID r \<and> po_State (g r) \<noteq> OutboxProcessing"
    and h: "\<And>r. po_OutboxID (h r) = po_OutboxID r \<and> po_ExecutionID (h r) = po_ExecutionID r \<and> po_State (h r) \<noteq> OutboxProcessing"
  defines "w' \<equiv> w\<lparr>tabs := (tabs w)\<lparr>t_outbox := apply_where
      (\<lambda>r. po_ExecutionID r \<in> set A \<union> set B \<union> set C \<and> holds_lease tok (tabs w) r)
      (\<lambda>r. (marked_row A B C f g h r)\<lparr>po_UpdatedAt := clock w\<rparr>) (t_outbox (tabs w))\<rparr>\<rparr>"
  shows "io_then (updateByExecutionIDs A tok f) (io_then (updateByExecutionIDs B tok g) (updateByExecutionIDs C tok h)) w
      = (Inr (), w')" and "quiet w'"
proof -
  let ?L = "holds_lease tok (tabs w)"
  define w1 where "w1 = w\<lparr>tabs := (tabs w)\<lparr>t_outbox := touched A (holds_lease tok (tabs w)) (clock w) f (t_outbox (tabs w))\<rparr>\<rparr>"
  define w2 where "w2 = w1\<lparr>tabs := (tabs w1)\<lparr>t_outbox := touched B (holds_lease tok (tabs w1)) (clock w1) g (t_outbox (tabs w1))\<rparr>\<rparr>"
  have hA: "\<forall>i \<in> set A. \<exists>r \<in> set (t_outbox (tabs w)). po_ExecutionID r = i \<and> ?L r" using held by blast
  note 1 = quiet_touch [OF q tok d(1) hA f, folded w1_def]
  have hB: "\<forall>i \<in> set B. \<exists>r \<in> set (t_outbox (tabs w1)). po_ExecutionID r = i \<and> holds_lease tok (tabs w1) r"
  proof
    fix i assume i: "i \<in> set B"
    with held obtain r where "r \<in> set (t_outbox (tabs w))" "po_ExecutionID r = i" "?L r" by blast
    with 1(3) [of r] i dis(1) show "\<exists>r \<in> set (t_outbox (tabs w1)). po_ExecutionID r = i \<and> holds_lease tok (tabs w1) r"
      unfolding 1(5) by blast
  qed
  note 2 = quiet_touch [OF 1(2) tok d(2) hB g, folded w2_def]
  have hC: "\<forall>i \<in> set C. \<exists>r \<in> set (t_outbox (tabs w2)). po_ExecutionID r = i \<and> holds_lease tok (tabs w2) r"
  proof
    fix i assume i: "i \<in> set C"
    with held obtain r where "r \<in> set (t_outbox (tabs w))" "po_ExecutionID r = i" "?L r" by blast
    with 2(3) [OF 1(3) [of r]] i dis(2,3) show "\<exists>r \<in> set (t_outbox (tabs w2)). po_ExecutionID r = i \<and> holds_lease tok (tabs w2) r"
      unfolding 2(5) 1(5) by blast
  qed
  note 3 = quiet_touch [OF 2(2) tok d(3) hC h]
  have w': "w2\<lparr>tabs := (tabs w2)\<lparr>t_outbox := touched C (holds_lease tok (tabs w2)) (clock w2) h (t_outbox (tabs w2))\<rparr>\<rparr> = w'"
    unfolding w'_def using touched_disjoint [OF dis, of f g h ?L "clock w" "t_outbox (tabs w)"] f g h
    by (simp add: w1_def w2_def lease_same)
  show "io_then (updateByExecutionIDs A tok f) (io_then (updateByExecutionIDs B tok g) (updateByExecutionIDs C tok h)) w
      = (Inr (), w')"
    using 1(1) 2(1) 3(1) unfolding w' by (simp add: io_then_def io_bind_def)
  show "quiet w'" using 3(2) unfolding w' .
qed


subsection \<open>A pass\<close>

text \<open>Nothing is left to do for a settled message.\<close>

definition unsettled :: "tables \<Rightarrow> OutboxMessagePO list" where
  "unsettled t = filter (\<lambda>r. \<not> settled (po_State r)) (t_outbox t)"

text \<open>The claim of a pass leases the rows it selects.\<close>

lemma quiet_claimed:
  assumes q: "quiet w" and rand: "re_rand env = Inr bs"
  shows "\<exists>w1. OutboxRepository_ClaimPending (re_locked env) (re_rand env) (rc_BatchSize cfg) (re_now env)
        (add_time (re_now env) (rc_LeaseDuration cfg)) w
      = (Inr (claimed_messages cfg env (hex_encode bs) (claim_of cfg env w)), w1) \<and> quiet w1 \<and> clock w1 = clock w \<and>
    tabs w1 = leased_table (\<lambda>r. r \<in> set (claim_of cfg env w)) (add_time (re_now env) (rc_LeaseDuration cfg)) (hex_encode bs)
      (clock w) (tabs w)"
proof -
  let ?tok = "hex_encode bs" and ?until = "add_time (re_now env) (rc_LeaseDuration cfg)"
  have ok: "tables_ok (tabs w)" using q by (simp add: quiet_def)
  from quiet_claim [OF q] obtain ms w1 where c: "claim_tx (re_locked env) ?tok (claim_limit (rc_BatchSize cfg)) (re_now env) ?until w
      = (Inr ms, w1)" and q1: "quiet w1" "clock w1 = clock w" by blast
  have "ms = claimed_messages cfg env ?tok (claim_of cfg env w)"
    and "tabs w1 = leased_table (\<lambda>r. r \<in> set (claim_of cfg env w)) ?until ?tok (clock w) (tabs w)"
    using claim_tx_Inr [OF ok c] by (simp_all add: claimed_messages_def claim_of_def quiet_interfere [OF q])
  with quiet_tx [where m = "claim_tx (re_locked env) ?tok (claim_limit (rc_BatchSize cfg)) (re_now env) ?until", OF q c q1(1)]
    rand q1 show ?thesis
    by (auto simp: OutboxRepository_ClaimPending_def newLeaseToken_def Let_def claim_limit_def)
qed

text \<open>What a pass makes of a row it has claimed.\<close>

definition pass_row :: "RelayConfig \<Rightarrow> relay_env \<Rightarrow> gotime \<Rightarrow> string \<Rightarrow> OutboxMessage list \<Rightarrow> OutboxMessagePO \<Rightarrow> OutboxMessagePO" where
  "pass_row cfg env stamp tok ms r =
     (let res = relay_result (re_batchRun env) ms; byID = message_by_id ms; M = rc_MaxAttempts cfg;
          at = add_time (re_now env) (retryBackoff cfg (highest_attempt byID (FailedIDs res) 1))
      in (marked_row (SuccessIDs res) (dead_ids M byID (FailedIDs res)) (retried_ids M byID (FailedIDs res))
            (published_row (re_now env)) (dead_row (ErrorMessage res)) (retry_row at (ErrorMessage res))
            ((lease_row (add_time (re_now env) (rc_LeaseDuration cfg)) tok r)\<lparr>po_UpdatedAt := stamp\<rparr>))\<lparr>po_UpdatedAt := stamp\<rparr>)"

lemma dead_or_retried:
  "set (dead_ids M byID ids) \<union> set (retried_ids M byID ids) = {i \<in> set ids. byID i \<noteq> None}"
  "set (dead_ids M byID ids) \<inter> set (retried_ids M byID ids) = {}"
  by (auto simp: dead_ids_def retried_ids_def split: option.splits)

lemma quiet_pass:
  fixes cfg :: RelayConfig
  assumes q: "quiet w" and rand: "re_rand env = Inr bs" "bs \<noteq> []"
  defines "ms \<equiv> claimed_messages cfg env (hex_encode bs) (claim_of cfg env w)"
  assumes backed: "set (dead_ids (rc_MaxAttempts cfg) (message_by_id ms) (FailedIDs (relay_result (re_batchRun env) ms))) \<subseteq>
      pe_ExecutionID ` set (t_execs (tabs w))"
  shows "\<exists>w'. DispatchOnce cfg env w = (Inr None, w') \<and> quiet w' \<and> clock w' = clock w \<and>
    map pe_ExecutionID (t_execs (tabs w')) = map pe_ExecutionID (t_execs (tabs w)) \<and>
    t_outbox (tabs w') = apply_where (\<lambda>r. r \<in> set (claim_of cfg env w)) (pass_row cfg env (clock w) (hex_encode bs) ms)
      (t_outbox (tabs w))"
proof -
  let ?tok = "hex_encode bs" and ?until = "add_time (re_now env) (rc_LeaseDuration cfg)"
  let ?rows = "claim_of cfg env w" and ?res = "relay_result (re_batchRun env) ms" and ?M = "rc_MaxAttempts cfg"
  let ?lease = "\<lambda>r. (lease_row ?until ?tok r)\<lparr>po_UpdatedAt := clock w\<rparr>"
  define S where "S = SuccessIDs ?res"
  define D where "D = dead_ids ?M (message_by_id ms) (FailedIDs ?res)"
  define R where "R = retried_ids ?M (message_by_id ms) (FailedIDs ?res)"
  define records where "records = map (dead_record (re_fail env) (message_by_id ms)) D"
  let ?at = "add_time (re_now env) (retryBackoff cfg (highest_attempt (message_by_id ms) (FailedIDs ?res) 1))"
  let ?e = "ErrorMessage ?res"
  have tok: "?tok \<noteq> ''''" using rand(2) by (cases bs) auto
  have ok: "tables_ok (tabs w)" using q by (simp add: quiet_def)
  from quiet_claimed [OF q rand(1), of cfg] obtain w1 where claim: "OutboxRepository_ClaimPending (re_locked env) (re_rand env)
      (rc_BatchSize cfg) (re_now env) ?until w = (Inr ms, w1)" and q1: "quiet w1" "clock w1 = clock w"
    and t1: "tabs w1 = leased_table (\<lambda>r. r \<in> set ?rows) ?until ?tok (clock w) (tabs w)" unfolding ms_def by blast
  have o1: "t_outbox (tabs w1) = apply_where (\<lambda>r. r \<in> set ?rows) ?lease (t_outbox (tabs w))"
    and e1: "t_execs (tabs w1) = t_execs (tabs w)" and c1: "t_coll (tabs w1) = t_coll (tabs w)"
    by (simp_all add: t1 leased_table_def)
  have mids: "set (map om_ExecutionID ms) = po_ExecutionID ` set ?rows"
    by (force simp: ms_def claimed_messages_def lease_row_def)
  have d: "distinct (map om_ExecutionID ms)"
    unfolding ms_def claim_of_def quiet_interfere [OF q] by (rule claimed_distinct [OF ok])
  have SF: "set S \<union> set (FailedIDs ?res) = set (map om_ExecutionID ms)" by (auto simp: S_def relay_result_sets)
  have F: "i \<in> set (FailedIDs ?res) \<Longrightarrow> message_by_id ms i \<noteq> None" for i
    by (auto simp: relay_result_sets message_by_id_distinct [OF d] find_None_iff)
  have DR: "set D \<union> set R = set (FailedIDs ?res)" "set D \<inter> set R = {}"
    using dead_or_retried [of ?M "message_by_id ms" "FailedIDs ?res"] F by (auto simp: D_def R_def)
  have dis: "set S \<inter> set D = {}" "set S \<inter> set R = {}" "set D \<inter> set R = {}"
    using relay_split_sets(1) [OF d, of "re_batchRun env"] DR by (auto simp: S_def)
  have dist: "distinct S" "distinct D" "distinct R"
    using d relay_split_sets(2) [OF d] by (auto simp: S_def D_def R_def dead_ids_def retried_ids_def relay_result_sets)
  have all: "set S \<union> set D \<union> set R = po_ExecutionID ` set ?rows" using SF DR(1) mids by blast
  have recs: "map er_ExecutionID records = D"
    by (auto simp: records_def dead_record_def bare_record_def split: option.splits intro!: map_idI)
  then have "er_ExecutionID ` set records = set D" by (metis list.set_map)
  with backed e1 have "er_ExecutionID ` set records \<subseteq> pe_ExecutionID ` set (t_execs (tabs w1))" by (simp add: D_def)
  from quiet_BatchUpdateStatus [OF q1(1) this] obtain w0 where up: "ExecutionRepository_BatchUpdateStatus records w1 = (Inr (), w0)"
    and q0: "quiet w0" and f0: "same_frame w1 w0" by blast
  have t0: "t_outbox (tabs w0) = t_outbox (tabs w1)" "clock w0 = clock w" "t_coll (tabs w0) = t_coll (tabs w)"
    "map pe_ExecutionID (t_execs (tabs w0)) = map pe_ExecutionID (t_execs (tabs w))"
    using f0 q1(2) e1 c1 by (simp_all add: same_frame_def)
  have L: "holds_lease ?tok (tabs w0) = holds_lease ?tok (tabs w)" by (rule holds_lease_cong) (rule t0)
  have leased: "?lease r \<in> set (t_outbox (tabs w0))" "po_ExecutionID (?lease r) = po_ExecutionID r"
    "holds_lease ?tok (tabs w) (?lease r)" if "r \<in> set ?rows" for r
  proof -
    have "r \<in> set (t_outbox (tabs w))" using that unfolding claim_of_def quiet_interfere [OF q] by (auto dest: claimed_rows_ofD)
    then show "?lease r \<in> set (t_outbox (tabs w0))"
      using that unfolding t0 o1 by (auto simp: apply_where_def image_iff intro!: bexI [of _ r])
    show "po_ExecutionID (?lease r) = po_ExecutionID r" "holds_lease ?tok (tabs w) (?lease r)"
      using tok by (simp_all add: holds_lease_def lease_row_def)
  qed
  have held: "\<forall>i \<in> set S \<union> set D \<union> set R. \<exists>r \<in> set (t_outbox (tabs w0)). po_ExecutionID r = i \<and> holds_lease ?tok (tabs w0) r"
  proof
    fix i assume "i \<in> set S \<union> set D \<union> set R"
    then obtain r where "r \<in> set ?rows" "po_ExecutionID r = i" unfolding all by blast
    with leased [of r] show "\<exists>r \<in> set (t_outbox (tabs w0)). po_ExecutionID r = i \<and> holds_lease ?tok (tabs w0) r"
      unfolding L by blast
  qed
  let ?G = "\<lambda>r. (marked_row S D R (published_row (re_now env)) (dead_row ?e) (retry_row ?at ?e) r)\<lparr>po_UpdatedAt := clock w0\<rparr>"
  define w2 where "w2 = w0\<lparr>tabs := (tabs w0)\<lparr>t_outbox := apply_where
      (\<lambda>r. po_ExecutionID r \<in> set S \<union> set D \<union> set R \<and> holds_lease ?tok (tabs w0) r) ?G (t_outbox (tabs w0))\<rparr>\<rparr>"
  have marks: "io_then (updateByExecutionIDs S ?tok (published_row (re_now env))) (io_then (updateByExecutionIDs D ?tok (dead_row ?e))
      (updateByExecutionIDs R ?tok (retry_row ?at ?e))) w0 = (Inr (), w2)" and q2: "quiet w2"
    unfolding w2_def by (rule quiet_marks [OF q0 tok dist dis held]; simp add: row_defs)+
  have fin: "relay_finish cfg (re_now env) ?tok ?res
      \<lparr>rs_retry = R, rs_dead = D, rs_records = records, rs_attempt = highest_attempt (message_by_id ms) (FailedIDs ?res) 1\<rparr> w1
      = (Inr (), w2)"
    using up marks unfolding relay_finish_def relay_split.simps MarkRetry_if unfolding mark_defs S_def
    by (simp add: io_then_def io_bind_def)
  have out: "t_outbox (tabs w2) = apply_where (\<lambda>r. r \<in> set ?rows) (pass_row cfg env (clock w) ?tok ms) (t_outbox (tabs w))"
  proof -
    have mine: "r \<in> set ?rows" if "r \<in> set (t_outbox (tabs w))" "po_ExecutionID r \<in> po_ExecutionID ` set ?rows" for r
    proof -
      from that(2) obtain x where x: "x \<in> set ?rows" "po_ExecutionID x = po_ExecutionID r" by auto
      then have "x \<in> set (t_outbox (tabs w))" unfolding claim_of_def quiet_interfere [OF q] by (auto dest: claimed_rows_ofD)
      from tables_ok_outbox_unique [OF ok this that(1)] x show ?thesis by simp
    qed
    have "(let y = (if r \<in> set ?rows then ?lease r else r) in
           if po_ExecutionID y \<in> po_ExecutionID ` set ?rows \<and> holds_lease ?tok (tabs w) y then ?G y else y) =
        (if r \<in> set ?rows then pass_row cfg env (clock w) ?tok ms r else r)" if r: "r \<in> set (t_outbox (tabs w))" for r
    proof (cases "r \<in> set ?rows")
      case True
      then have "po_ExecutionID (?lease r) \<in> po_ExecutionID ` set ?rows" unfolding leased(2) [OF True] by (rule imageI)
      with True leased(3) [OF True] show ?thesis
        by (simp add: Let_def pass_row_def t0(2) S_def D_def R_def)
    next
      case False
      with mine [OF r] show ?thesis unfolding Let_def if_not_P [OF False] by (metis)
    qed
    then show ?thesis
      unfolding w2_def all L t0(1) o1 by (simp add: apply_where_def o_def Let_def cong: map_cong)
  qed
  show ?thesis
  proof (cases ms)
    case Nil
    then have none: "?rows = []" by (simp add: ms_def claimed_messages_def)
    then have "t_outbox (tabs w1) = t_outbox (tabs w)" by (simp add: o1 apply_where_def map_idI)
    moreover have "DispatchOnce cfg env w = (Inr None, w1)"
      using claim Nil by (simp add: DispatchOnce_def io_bind_def io_try_def relay_dispatch_def io_return_def)
    ultimately show ?thesis using q1 none e1 by (auto simp: apply_where_def map_idI)
  next
    case (Cons m ms')
    have "om_LeaseToken x = ?tok" if "x \<in> set ms" for x using that by (auto simp: ms_def claimed_messages_def lease_row_def)
    then have eqs: "om_LeaseToken m = ?tok" "\<And>x. x \<in> set ms' \<Longrightarrow> om_LeaseToken x = ?tok" using Cons by auto
    define body where "body = relay_finish cfg (re_now env) ?tok ?res
      \<lparr>rs_retry = R, rs_dead = D, rs_records = records, rs_attempt = highest_attempt (message_by_id ms) (FailedIDs ?res) 1\<rparr>"
    have "tx_Do body w1 = (Inr (), w2)" using fin [folded body_def] by (rule quiet_tx [OF q1(1) _ q2])
    moreover have "relay_dispatch cfg env ms = io_bind (io_try (tx_Do body)) (\<lambda>r. io_return (case r of Inl e \<Rightarrow> Some e | Inr _ \<Rightarrow> None))"
      using eqs tok by (simp add: Cons relay_dispatch_def Let_def split_failures_total body_def R_def D_def records_def)
    ultimately have "relay_dispatch cfg env ms w1 = (Inr None, w2)" by (simp add: io_bind_def io_try_def io_return_def)
    then have "DispatchOnce cfg env w = (Inr None, w2)"
      using claim by (simp add: DispatchOnce_def io_bind_def io_try_def)
    moreover have "clock w2 = clock w" "map pe_ExecutionID (t_execs (tabs w2)) = map pe_ExecutionID (t_execs (tabs w))"
      by (simp_all add: w2_def t0)
    ultimately show ?thesis using q2 out by blast
  qed
qed


text \<open>A pass whose publisher confirms everything.\<close>

definition confirms_all :: "(ExecutionTask list \<Rightarrow> BatchResult \<times> goerr option) \<Rightarrow> bool" where
  "confirms_all br \<longleftrightarrow> (\<forall>ts. \<forall>t \<in> set ts. delivered (fst (br ts)) (tk_ExecutionID t))"

text \<open>A pass that can do its work: its random token, and nobody holding row locks.\<close>

definition good_pass :: "relay_env \<Rightarrow> bool" where
  "good_pass env \<longleftrightarrow> (\<exists>bs. re_rand env = Inr bs \<and> bs \<noteq> []) \<and> (\<forall>i. \<not> re_locked env i) \<and> confirms_all (re_batchRun env)"

definition delivered_row :: "relay_env \<Rightarrow> gotime \<Rightarrow> gotime \<Rightarrow> string \<Rightarrow> OutboxMessagePO \<Rightarrow> OutboxMessagePO" where
  "delivered_row env stamp until tok r =
     (published_row (re_now env) ((lease_row until tok r)\<lparr>po_UpdatedAt := stamp\<rparr>))\<lparr>po_UpdatedAt := stamp\<rparr>"

lemma relay_result_all:
  assumes "confirms_all br"
  shows "SuccessIDs (relay_result br ms) = map om_ExecutionID ms" and "FailedIDs (relay_result br ms) = []"
proof -
  have "delivered (fst (br (map Task ms))) (om_ExecutionID m)" if "m \<in> set ms" for m
  proof -
    have "delivered (fst (br (map Task ms))) (tk_ExecutionID (Task m))"
      using assms that unfolding confirms_all_def by auto
    then show ?thesis by (simp add: Task_def)
  qed
  then show "SuccessIDs (relay_result br ms) = map om_ExecutionID ms" "FailedIDs (relay_result br ms) = []"
    by (auto simp: relay_result_sets filter_id_conv filter_empty_conv)
qed

lemma quiet_pass_confirmed:
  assumes q: "quiet w" and good: "good_pass env"
  shows "\<exists>w' until tok. DispatchOnce cfg env w = (Inr None, w') \<and> quiet w' \<and>
    t_outbox (tabs w') = apply_where (\<lambda>r. r \<in> set (claim_of cfg env w)) (delivered_row env (clock w) until tok) (t_outbox (tabs w))"
proof -
  from good obtain bs where rand: "re_rand env = Inr bs" "bs \<noteq> []" by (auto simp: good_pass_def)
  define ms where "ms = claimed_messages cfg env (hex_encode bs) (claim_of cfg env w)"
  have res: "SuccessIDs (relay_result (re_batchRun env) ms) = map om_ExecutionID ms" "FailedIDs (relay_result (re_batchRun env) ms) = []"
    using relay_result_all [of "re_batchRun env" ms] good by (simp_all add: good_pass_def)
  have "pass_row cfg env (clock w) (hex_encode bs) ms r =
      delivered_row env (clock w) (add_time (re_now env) (rc_LeaseDuration cfg)) (hex_encode bs) r" if "r \<in> set (claim_of cfg env w)" for r
  proof -
    have "po_ExecutionID r \<in> set (map om_ExecutionID ms)" using that by (force simp: ms_def claimed_messages_def lease_row_def)
    then show ?thesis by (simp add: pass_row_def delivered_row_def marked_row_def res Let_def lease_row_def)
  qed
  then have "apply_where (\<lambda>r. r \<in> set (claim_of cfg env w)) (pass_row cfg env (clock w) (hex_encode bs) ms) (t_outbox (tabs w)) =
      apply_where (\<lambda>r. r \<in> set (claim_of cfg env w)) (delivered_row env (clock w) (add_time (re_now env) (rc_LeaseDuration cfg)) (hex_encode bs))
        (t_outbox (tabs w))" by (simp add: apply_where_def)
  moreover have "dead_ids (rc_MaxAttempts cfg) (message_by_id ms) [] = []" by (simp add: dead_ids_def)
  ultimately show ?thesis using quiet_pass [OF q rand, of cfg, folded ms_def] unfolding res by (metis empty_set empty_subsetI)
qed

subsection \<open>Draining\<close>

lemma claimed_all_due:
  assumes "\<forall>r \<in> set (unsettled t). claimable now r" and "\<forall>i. \<not> locked i"
  shows "claimed_rows_of locked l now (t_outbox t) = take (nat l) (sort_key po_OutboxID (unsettled t))"
proof -
  have "filter (\<lambda>r. claimable now r \<and> \<not> locked (po_OutboxID r)) (t_outbox t) = unsettled t"
    unfolding unsettled_def
    by (rule filter_cong) (use assms in \<open>auto simp: unsettled_def settled_def dest: claimable_state\<close>)
  then show ?thesis by (simp add: claimed_rows_of_def)
qed

lemma settled_delivered [simp]:
  "settled (po_State (delivered_row env stamp until tok r))"
  "po_State (delivered_row env stamp until tok r) = OutboxPublished"
  "po_ExecutionID (delivered_row env stamp until tok r) = po_ExecutionID r"
  by (simp_all add: delivered_row_def row_defs settled_def)

lemma unsettled_after:
  assumes "t_outbox t' = apply_where (\<lambda>r. r \<in> R) g (t_outbox t)" and "\<And>r. settled (po_State (g r))"
  shows "unsettled t' = filter (\<lambda>r. r \<notin> R) (unsettled t)"
proof -
  have "filter (\<lambda>r. \<not> settled (po_State r)) (map (\<lambda>r. if r \<in> R then g r else r) rs)
      = filter (\<lambda>r. r \<notin> R) (filter (\<lambda>r. \<not> settled (po_State r)) rs)" for rs
    using assms(2) by (induction rs) auto
  then show ?thesis by (simp add: unsettled_def assms(1) apply_where_def)
qed

lemma filter_out_prefix:
  assumes "distinct xs"
  shows "length (filter (\<lambda>x. x \<notin> set (take n (sort_key f xs))) xs) = length xs - n"
proof -
  have "set (filter (\<lambda>x. x \<in> set (take n (sort_key f xs))) xs) = set (take n (sort_key f xs))"
    by (auto dest: in_set_takeD)
  with distinct_card [OF distinct_filter [OF assms], of "\<lambda>x. x \<in> set (take n (sort_key f xs))"]
  have "length (filter (\<lambda>x. x \<in> set (take n (sort_key f xs))) xs) = card (set (take n (sort_key f xs)))"
    by simp
  also have "\<dots> = min (length xs) n"
    using assms by (subst distinct_card) (simp_all add: distinct_take min.commute)
  finally show ?thesis
    using sum_length_filter_compl [of "\<lambda>x. x \<in> set (take n (sort_key f xs))" xs] by (simp add: min_def split: if_splits)
qed

definition progress :: "tables \<Rightarrow> tables \<Rightarrow> bool" where
  "progress t t' \<longleftrightarrow> set (unsettled t') \<subseteq> set (unsettled t) \<and>
     (\<forall>r \<in> set (t_outbox t). \<exists>q \<in> set (t_outbox t'). po_ExecutionID q = po_ExecutionID r \<and>
        (q = r \<or> \<not> settled (po_State r) \<and> po_State q = OutboxPublished))"

lemma quiet_run:
  assumes "quiet w" and "\<forall>env \<in> set envs. good_pass env \<and> (\<forall>r \<in> set (unsettled (tabs w)). claimable (re_now env) r)"
  shows "\<exists>w'. relay_Run cfg envs w = (Inr (), w') \<and> quiet w' \<and> progress (tabs w) (tabs w') \<and>
    length (unsettled (tabs w')) = length (unsettled (tabs w)) - length envs * nat (claim_limit (rc_BatchSize cfg))"
  using assms
proof (induction envs arbitrary: w)
  case Nil
  then show ?case by (auto simp: io_return_def progress_def)
next
  case (Cons env envs)
  let ?n = "nat (claim_limit (rc_BatchSize cfg))"
  obtain w1 until tok where run: "DispatchOnce cfg env w = (Inr None, w1)" and q1: "quiet w1"
    and o1: "t_outbox (tabs w1) = apply_where (\<lambda>r. r \<in> set (claim_of cfg env w)) (delivered_row env (clock w) until tok) (t_outbox (tabs w))"
    using quiet_pass_confirmed [OF Cons.prems(1), of env cfg] Cons.prems(2) by auto
  have rows: "claim_of cfg env w = take ?n (sort_key po_OutboxID (unsettled (tabs w)))"
    unfolding claim_of_def quiet_interfere [OF Cons.prems(1)]
    by (rule claimed_all_due) (use Cons.prems(2) in \<open>auto simp: good_pass_def\<close>)
  have u1: "unsettled (tabs w1) = filter (\<lambda>r. r \<notin> set (claim_of cfg env w)) (unsettled (tabs w))"
    by (rule unsettled_after [OF o1]) (rule settled_delivered)
  have "distinct (map po_ExecutionID (t_outbox (tabs w)))"
    using Cons.prems(1) by (intro tables_ok_distinct_exec) (simp add: quiet_def)
  then have "distinct (unsettled (tabs w))" by (simp add: unsettled_def distinct_map)
  then have len: "length (unsettled (tabs w1)) = length (unsettled (tabs w)) - ?n"
    unfolding u1 rows by (rule filter_out_prefix)
  have sub: "set (unsettled (tabs w1)) \<subseteq> set (unsettled (tabs w))" by (auto simp: u1)
  have open_rows: "\<not> settled (po_State r)" if "r \<in> set (claim_of cfg env w)" for r
    using that by (auto simp: rows unsettled_def dest: in_set_takeD)
  have p1: "progress (tabs w) (tabs w1)"
    unfolding progress_def
  proof (intro conjI ballI sub)
    fix r assume r: "r \<in> set (t_outbox (tabs w))"
    let ?q = "if r \<in> set (claim_of cfg env w) then delivered_row env (clock w) until tok r else r"
    have "?q \<in> set (t_outbox (tabs w1))" unfolding o1 apply_where_def set_map using r by (rule imageI)
    then show "\<exists>q \<in> set (t_outbox (tabs w1)). po_ExecutionID q = po_ExecutionID r \<and>
        (q = r \<or> \<not> settled (po_State r) \<and> po_State q = OutboxPublished)"
      using open_rows by (intro bexI [of _ ?q]) auto
  qed
  from Cons.IH [OF q1] Cons.prems(2) sub obtain w' where w': "relay_Run cfg envs w1 = (Inr (), w')" "quiet w'"
    "progress (tabs w1) (tabs w')" "length (unsettled (tabs w')) = length (unsettled (tabs w1)) - length envs * ?n"
    by (auto simp: subset_iff)
  have "progress (tabs w) (tabs w')"
    using p1 w'(3) unfolding progress_def by (metis subset_trans settled_def)
  moreover have "relay_Run cfg (env # envs) w = (Inr (), w')"
    using run w'(1) by (simp add: io_then_def io_bind_def)
  ultimately show ?case using w'(2,4) len by (auto simp: diff_diff_left)
qed

text \<open>C4: In quiet times the relay drains the outbox. When no statement fails, no other process interferes and
  the publisher confirms what it is given, then passes that can together claim as many messages as there
  are unsettled ones, at times at which all of these are due, end with every message settled, every
  unsettled one PUBLISHED, and the settled ones as they were.\<close>

theorem relay_drains:
  assumes "quiet w" and "\<forall>env \<in> set envs. good_pass env \<and> (\<forall>r \<in> set (unsettled (tabs w)). claimable (re_now env) r)"
    and "length (unsettled (tabs w)) \<le> length envs * nat (claim_limit (rc_BatchSize cfg))"
  shows "\<exists>w'. relay_Run cfg envs w = (Inr (), w') \<and> unsettled (tabs w') = [] \<and>
    (\<forall>r \<in> set (t_outbox (tabs w)). \<exists>q \<in> set (t_outbox (tabs w')). po_ExecutionID q = po_ExecutionID r \<and>
       (if settled (po_State r) then q = r else po_State q = OutboxPublished))"
proof -
  from quiet_run [OF assms(1,2)] assms(3) obtain w' where w': "relay_Run cfg envs w = (Inr (), w')"
    "progress (tabs w) (tabs w')" "unsettled (tabs w') = []" by (metis diff_is_0_eq length_0_conv)
  have "settled (po_State q)" if "q \<in> set (t_outbox (tabs w'))" for q
    using that w'(3) by (auto simp: unsettled_def filter_empty_conv)
  with w' show ?thesis by (intro exI [of _ w']) (auto simp: progress_def)
qed

text \<open>A publisher that confirms everything.\<close>

definition confirming :: "ExecutionTask list \<Rightarrow> BatchResult \<times> goerr option" where
  "confirming ts = (\<lparr>SuccessIDs = map tk_ExecutionID ts, FailedIDs = [], ErrorMessage = ''''\<rparr>, None)"

theorem relay_drains_witness:
  "\<exists>w'. relay_Run (demo_relay\<lparr>rc_BatchSize := 2\<rparr>)
      [(demo_pass [])\<lparr>re_batchRun := confirming\<rparr>, (demo_pass [])\<lparr>re_batchRun := confirming\<rparr>] demo_backlog = (Inr (), w') \<and>
     unsettled (tabs w') = []"
proof -
  let ?env = "(demo_pass [])\<lparr>re_batchRun := confirming\<rparr>"
  have q: "quiet demo_backlog" using sound_backlog by (simp add: quiet_def sound_def demo_backlog_def demo_catalogue_def)
  have g: "good_pass ?env" by (auto simp: good_pass_def demo_pass_def confirms_all_def confirming_def delivered_def)
  have u: "\<forall>r \<in> set (unsettled (tabs demo_backlog)). claimable (re_now ?env) r" "length (unsettled (tabs demo_backlog)) = 3"
    by (simp_all add: unsettled_def demo_backlog_def demo_row_def settled_def claimable_def demo_pass_def)
  have "\<forall>env \<in> set [?env, ?env]. good_pass env \<and> (\<forall>r \<in> set (unsettled (tabs demo_backlog)). claimable (re_now env) r)"
    using g u(1) by simp
  from relay_drains [OF q this, of "demo_relay\<lparr>rc_BatchSize := 2\<rparr>"] u(2) show ?thesis
    by (auto simp: claim_limit_def)
qed

end
