(* ===== verification/System.thy ===== *)
theory System
  imports Pairing Relay_Progress
begin

text \<open>
  The engine as a whole: any number of instances run single-case dispatches, chunks of batches and relay
  passes, each over its own connection that can fail at every statement, on the same tables. A history is
  a sequence of such operations; what happens in between and beside them (other instances, the consumers
  that move executions on) is the interference of the world, which has to keep the same
  relation. Every property of a history follows from the relations each operation guarantees.
\<close>

subsection \<open>Histories\<close>

datatype operation =
    SingleCase DispatchConfig "goerr + byte list" case_times "ExecutionRecord \<Rightarrow> string \<Rightarrow> goerr option"
      string int64 Version string
  | OneChunk DispatchConfig chunk_times "ExecutionTask list \<Rightarrow> BatchResult \<times> goerr option"
      indexedBatch string Version string
  | RelayPass RelayConfig relay_env

primrec op_run :: "operation \<Rightarrow> unit io" where
  "op_run (SingleCase cfg rand ct ex rid i v u) =
     io_then (ExecuteCaseWithRequest cfg True rand ct ex rid i v u) (io_return ())"
| "op_run (OneChunk cfg kt br batch rid v u) = io_then (dispatchOneBatch cfg True kt br batch rid v u) (io_return ())"
| "op_run (RelayPass cfg env) = io_then (DispatchOnce cfg env) (io_return ())"

text \<open>Random bytes come in the length asked for; a chunk has the request id the batch call made sure of.\<close>

primrec op_ok :: "operation \<Rightarrow> bool" where
  "op_ok (SingleCase cfg rand ct ex rid i v u) \<longleftrightarrow> (case rand of Inl _ \<Rightarrow> True | Inr bs \<Rightarrow> length bs = 16)"
| "op_ok (OneChunk cfg kt br batch rid v u) \<longleftrightarrow> rid \<noteq> ''''"
| "op_ok (RelayPass cfg env) \<longleftrightarrow> (case re_rand env of Inl _ \<Rightarrow> True | Inr bs \<Rightarrow> bs \<noteq> [])"

text \<open>The executions an operation's publisher can confirm.\<close>

primrec op_confirmed :: "operation \<Rightarrow> int64 set" where
  "op_confirmed (SingleCase cfg rand ct ex rid i v u) = {er_ExecutionID rec |rec name. ex rec name = None}"
| "op_confirmed (OneChunk cfg kt br batch rid v u) = (\<Union>ts. set (SuccessIDs (fst (br ts))))"
| "op_confirmed (RelayPass cfg env) = (\<Union>ts. set (SuccessIDs (fst (re_batchRun env ts))))"

definition sys_rel :: "int64 set \<Rightarrow> tables \<Rightarrow> tables \<Rightarrow> bool" where
  "sys_rel S t t' \<longleftrightarrow> pair_rel t t' \<and> rows_ok t t' \<and> published_only S t t'"

inductive history :: "int64 set \<Rightarrow> operation list \<Rightarrow> tables \<Rightarrow> tables \<Rightarrow> bool" for S where
  start: "history S [] t t"
| operate: "history S ops t (tabs w) \<Longrightarrow> op_ok op \<Longrightarrow> op_confirmed op \<subseteq> S \<Longrightarrow> rely (sys_rel S) w \<Longrightarrow>
    op_run op w = (r, w') \<Longrightarrow> history S (ops @ [op]) t (tabs w')"
| others: "history S ops t t1 \<Longrightarrow> sys_rel S t1 t2 \<Longrightarrow> history S ops t t2"

inductive_cases history_NilE: "history S [] t t'"

subsection \<open>Every operation keeps the relation\<close>

interpretation sys: table_relation "sys_rel S" for S
proof (unfold_locales, goal_cases)
  case (1 t)
  show ?case by (simp add: sys_rel_def pair.refl rows.refl pub.refl)
next
  case (2 a b c)
  then show ?case unfolding sys_rel_def by (auto intro: pair.trans rows.trans pub.trans)
next
  case (3 t i j)
  show ?case by (simp add: sys_rel_def pair.counters rows.counters pub.counters)
qed

lemma sys_guarantees:
  assumes "guarantees pair_rel m" and "guarantees rows_ok m" and "guarantees (published_only S) m"
  shows "guarantees (sys_rel S) m"
proof (rule guaranteesI)
  fix w r w' assume w: "rely (sys_rel S) w" and run: "m w = (r, w')"
  from w have "rely pair_rel w" "rely rows_ok w" "rely (published_only S) w" by (simp_all add: rely_def sys_rel_def)
  then have "within pair_rel w w'" "within rows_ok w w'" "within (published_only S) w w'"
    using guaranteesD [OF assms(1) _ run] guaranteesD [OF assms(2) _ run] guaranteesD [OF assms(3) _ run] by simp_all
  then show "within (sys_rel S) w w'" by (simp add: within_def sys_rel_def)
qed

lemma op_guarantees:
  assumes "op_ok op" and "op_confirmed op \<subseteq> S"
  shows "guarantees (sys_rel S) (op_run op)"
proof (cases op)
  case (SingleCase cfg rand ct ex rid i v u)
  have "guarantees (sys_rel S) (ExecuteCaseWithRequest cfg True rand ct ex rid i v u)"
  proof (rule sys_guarantees)
    show "guarantees pair_rel (ExecuteCaseWithRequest cfg True rand ct ex rid i v u)"
      by (rule pair_ExecuteCase) (use assms(1) SingleCase in simp)
    show "guarantees rows_ok (ExecuteCaseWithRequest cfg True rand ct ex rid i v u)"
      by (rule rows_store.execute_case_guarantees) simp
    show "guarantees (published_only S) (ExecuteCaseWithRequest cfg True rand ct ex rid i v u)"
      by (rule pub_store.execute_case_guarantees) (use assms(2) SingleCase in auto)
  qed
  then show ?thesis by (simp add: SingleCase sys.andthen sys.return)
next
  case (OneChunk cfg kt br batch rid v u)
  have "guarantees (sys_rel S) (dispatchOneBatch cfg True kt br batch rid v u)"
  proof (rule sys_guarantees)
    show "guarantees pair_rel (dispatchOneBatch cfg True kt br batch rid v u)"
      by (rule pair_chunk) (use assms(1) OneChunk in simp)
    show "guarantees rows_ok (dispatchOneBatch cfg True kt br batch rid v u)"
      by (rule rows_store.chunk_guarantees) simp
    show "guarantees (published_only S) (dispatchOneBatch cfg True kt br batch rid v u)"
      by (rule pub_store.chunk_guarantees) (use assms(2) OneChunk in auto)
  qed
  then show ?thesis by (simp add: OneChunk sys.andthen sys.return)
next
  case (RelayPass cfg env)
  have rand: "re_rand env = Inr bs \<Longrightarrow> bs \<noteq> []" for bs using assms(1) RelayPass by simp
  have "guarantees (sys_rel S) (DispatchOnce cfg env)"
  proof (rule sys_guarantees)
    show "guarantees pair_rel (DispatchOnce cfg env)" by (rule pair_DispatchOnce)
    show "guarantees rows_ok (DispatchOnce cfg env)"
      by (rule rows_store.DispatchOnce_guarantees) (use rand in auto)
    show "guarantees (published_only S) (DispatchOnce cfg env)"
      by (rule pub_store.DispatchOnce_guarantees) (use assms(2) RelayPass rand in auto)
  qed
  then show ?thesis by (simp add: RelayPass sys.andthen sys.return)
qed

lemma history_rel: "history S ops t t' \<Longrightarrow> sys_rel S t t'"
proof (induction rule: history.induct)
  case (start t)
  show ?case by (rule sys.refl)
next
  case (operate ops t w op r w')
  have "within (sys_rel S) w w'"
    by (rule guaranteesD [OF op_guarantees [OF operate.hyps(2,3)] operate.hyps(4,5)])
  with operate.IH show ?case by (auto simp: within_def intro: sys.trans)
next
  case (others ops t t1 t2)
  then show ?case by (auto intro: sys.trans)
qed

subsection \<open>Properties of histories\<close>

definition demo_op :: operation where
  "demo_op = SingleCase demo_config (Inl (ErrorsNew ''no entropy'')) demo_times confirms_first ''req-1'' 3 ''v1'' ''user''"

definition demo_relay_op :: operation where
  "demo_relay_op = RelayPass demo_relay (demo_pass [Confirm 1 True])"

text \<open>A history from three messages left behind: a relay pass and a new dispatch.\<close>

definition demo_after :: world where
  "demo_after = snd (op_run demo_op (snd (op_run demo_relay_op demo_backlog)))"

lemma demo_history: "history UNIV [demo_relay_op, demo_op] (tabs demo_backlog) (tabs demo_after)"
proof -
  let ?w = "snd (op_run demo_relay_op demo_backlog)"
  have f: "foreign demo_backlog = []" by (simp add: demo_backlog_def demo_catalogue_def)
  then have r0: "rely (sys_rel UNIV) demo_backlog" by (simp add: rely_def)
  have g: "guarantees (sys_rel UNIV) (op_run demo_relay_op)"
    by (rule op_guarantees) (simp_all add: demo_relay_op_def demo_pass_def)
  have run: "op_run demo_relay_op demo_backlog = (fst (op_run demo_relay_op demo_backlog), ?w)" by simp
  have r1: "rely (sys_rel UNIV) ?w" by (rule within_rely [OF guaranteesD [OF g r0 run] r0])
  have "history UNIV ([] @ [demo_relay_op]) (tabs demo_backlog) (tabs ?w)"
    by (rule history.operate [OF history.start _ _ r0 run]) (simp_all add: demo_relay_op_def demo_pass_def)
  then have "history UNIV (([] @ [demo_relay_op]) @ [demo_op]) (tabs demo_backlog) (tabs demo_after)"
    unfolding demo_after_def
    by (rule history.operate [OF _ _ _ r1, where r = "fst (op_run demo_op ?w)"]) (simp_all add: demo_op_def)
  then show ?thesis by simp
qed

lemma demo_backlog_inv: "tables_ok (tabs demo_backlog)" "pair_inv (tabs demo_backlog)"
  using sound_backlog by (auto simp: sound_def pair_inv_def demo_backlog_def demo_catalogue_def demo_row_def demo_exec_def)

text \<open>C1: The transactional outbox holds in every history: an execution that was ever created has its message,
  a message has its execution, and a message that was given up as DEAD has an execution that is no longer WAIT, whatever
  statements fail, whichever commits are lost, and however the instances interleave; nothing that
  was created can be forgotten, and nothing that was given up is left looking as if it were on its way.\<close>

theorem transactional_outbox:
  assumes "history S ops t t'" and "tables_ok t" and "pair_inv t"
  shows "tables_ok t' \<and>
    (\<forall>p \<in> set (t_execs t'). \<exists>q \<in> set (t_outbox t'). po_ExecutionID q = pe_ExecutionID p) \<and>
    (\<forall>q \<in> set (t_outbox t'). po_State q = OutboxDead \<longrightarrow>
       (\<exists>p \<in> set (t_execs t'). pe_ExecutionID p = po_ExecutionID q \<and> pe_ExecutionStatus p \<noteq> StatusWait)) \<and>
    (\<forall>q \<in> set (t_outbox t'). \<exists>p \<in> set (t_execs t'). pe_ExecutionID p = po_ExecutionID q)"
  using history_rel [OF assms(1)] assms(2,3)
  by (simp add: sys_rel_def pair_rel_def outbox_advance_def keeps_ok_def pair_inv_def)

theorem transactional_outbox_witness: "pair_inv (tabs demo_after)"
  using transactional_outbox [OF demo_history demo_backlog_inv] by (simp add: pair_inv_def)

text \<open>C8: Nothing is lost and nothing goes back: in every history each execution that was there is still there,
  for the same request, case and version, and its status has stayed, left WAIT, or moved along an edge
  of the status machine; each message is still there with the same contents, its attempts have not
  decreased, and if it was PUBLISHED or DEAD its row has not changed at all.\<close>

theorem history_never_regresses:
  assumes "history S ops t t'" and "tables_ok t"
  shows "(\<forall>p \<in> set (t_execs t). \<exists>p' \<in> set (t_execs t'). exec_same p p' \<and>
        (pe_ExecutionStatus p' = pe_ExecutionStatus p \<or> pe_ExecutionStatus p = StatusWait \<or>
         CanTransitTo (pe_ExecutionStatus p) (pe_ExecutionStatus p'))) \<and>
    (\<forall>q \<in> set (t_outbox t). \<exists>q' \<in> set (t_outbox t'). outbox_adv q q')"
  using history_rel [OF assms(1)] assms(2)
  by (auto simp: sys_rel_def pair_rel_def outbox_advance_def exec_advance_def status_adv_def status_le_def) metis+

theorem history_never_regresses_witness:
  "\<exists>q' \<in> set (t_outbox (tabs demo_after)). outbox_adv (demo_row 1 0) q'"
proof -
  have "demo_row 1 0 \<in> set (t_outbox (tabs demo_backlog))" by (simp add: demo_backlog_def)
  with history_never_regresses [OF demo_history demo_backlog_inv(1)] show ?thesis by blast
qed

text \<open>C9: No message gets stuck: if every stored message is in order at the start, then in every history each
  message that is neither PUBLISHED nor DEAD can be claimed by a relay from a definite time on (the
  time it is due, or the end of its lease), whichever crashes happened between the steps.\<close>

theorem no_message_is_stuck:
  assumes "history S ops t t'" and "\<forall>r \<in> set (t_outbox t). row_ok r"
    and "q \<in> set (t_outbox t')" and "\<not> settled (po_State q)" and "claimable_from q \<le> now"
  shows "claimable now q"
  using history_rel [OF assms(1)] assms(2-5) row_ok_claimable [of q now]
  by (auto simp: sys_rel_def rows_ok_def)

theorem no_message_is_stuck_witness:
  "\<exists>q \<in> set (t_outbox (tabs demo_after)). po_ExecutionID q = 2 \<and> \<not> settled (po_State q) \<and> claimable (10 ^ 12) q"
proof -
  have "list_ex (\<lambda>q. po_ExecutionID q = 2 \<and> \<not> settled (po_State q) \<and> claimable_from q \<le> 10 ^ 12) (t_outbox (tabs demo_after))"
    by code_simp
  then obtain q where q: "q \<in> set (t_outbox (tabs demo_after))" "po_ExecutionID q = 2" "\<not> settled (po_State q)"
    "claimable_from q \<le> 10 ^ 12" by (auto simp: list_ex_iff)
  have "\<forall>r \<in> set (t_outbox (tabs demo_backlog)). row_ok r" by (simp add: demo_backlog_def demo_row_def row_ok_def)
  from no_message_is_stuck [OF demo_history this q(1,3,4)] q show ?thesis by blast
qed

text \<open>C11: In every history a message that is PUBLISHED was so at the start, or its execution is one that the
  publisher of some operation (or of another process) confirmed.\<close>

theorem published_was_confirmed:
  assumes "history S ops t t'" and "q \<in> set (t_outbox t')" and "po_State q = OutboxPublished"
  shows "q \<in> set (t_outbox t) \<or> po_ExecutionID q \<in> S"
  using history_rel [OF assms(1)] assms(2,3) by (auto simp: sys_rel_def published_only_def)

theorem published_was_confirmed_witness:
  "\<exists>t'. history (op_confirmed demo_relay_op) [demo_relay_op] (tabs demo_backlog) t' \<and>
     (\<exists>q \<in> set (t_outbox t'). po_State q = OutboxPublished \<and> po_ExecutionID q \<in> op_confirmed demo_relay_op)"
proof -
  let ?S = "op_confirmed demo_relay_op" and ?w = "snd (op_run demo_relay_op demo_backlog)"
  have "rely (sys_rel ?S) demo_backlog" by (simp add: rely_def demo_backlog_def demo_catalogue_def)
  then have "history ?S ([] @ [demo_relay_op]) (tabs demo_backlog) (tabs ?w)"
    by (rule history.operate [OF history.start, where r = "fst (op_run demo_relay_op demo_backlog)", rotated 2])
      (simp_all add: demo_relay_op_def demo_pass_def)
  then have h: "history ?S [demo_relay_op] (tabs demo_backlog) (tabs ?w)" by simp
  have "list_ex (\<lambda>q. po_State q = OutboxPublished) (t_outbox (tabs ?w))" by code_simp
  then obtain q where q: "q \<in> set (t_outbox (tabs ?w))" "po_State q = OutboxPublished" by (auto simp: list_ex_iff)
  have "q \<notin> set (t_outbox (tabs demo_backlog))" using q(2) by (auto simp: demo_backlog_def demo_row_def)
  with published_was_confirmed [OF h q] q h show ?thesis by blast
qed


text \<open>C10: The rows keep their type: in every history the tables keep their keys unique and assigned by the
  database, and every message is in one of the four states of the outbox, has a lease (a token and an
  expiry) exactly while it is PROCESSING, and a time of publication once it is PUBLISHED.\<close>

theorem rows_keep_their_type:
  assumes "history S ops t t'" and "tables_ok t" and "\<forall>r \<in> set (t_outbox t). row_ok r"
  shows "tables_ok t' \<and>
    (\<forall>r \<in> set (t_outbox t').
       po_State r \<in> {OutboxPending, OutboxProcessing, OutboxPublished, OutboxDead} \<and>
       (po_State r = OutboxProcessing \<longleftrightarrow> po_LeaseUntil r \<noteq> None) \<and>
       (po_State r = OutboxProcessing \<longleftrightarrow> po_LeaseToken r \<noteq> '''') \<and>
       (po_State r = OutboxPublished \<longrightarrow> po_PublishedAt r \<noteq> None))"
proof -
  have "tables_ok t'" "\<forall>r \<in> set (t_outbox t'). row_ok r"
    using history_rel [OF assms(1)] assms(2,3)
    by (simp_all add: sys_rel_def pair_rel_def outbox_advance_def keeps_ok_def rows_ok_def)
  then show ?thesis by (auto simp: row_ok_def split: if_splits)
qed

theorem rows_keep_their_type_witness:
  "tables_ok (tabs demo_after) \<and>
    map po_State (t_outbox (tabs demo_after)) = [OutboxPublished, OutboxPending, OutboxDead, OutboxDead]"
proof
  have "\<forall>r \<in> set (t_outbox (tabs demo_backlog)). row_ok r" by (simp add: demo_backlog_def demo_row_def row_ok_def)
  from rows_keep_their_type [OF demo_history demo_backlog_inv(1) this] show "tables_ok (tabs demo_after)" by blast
  show "map po_State (t_outbox (tabs demo_after)) = [OutboxPublished, OutboxPending, OutboxDead, OutboxDead]"
    by code_simp
qed

end
