(* ===== verification/Delivery_Refinement.thy ===== *)
theory Delivery_Refinement
  imports System
begin

text \<open>
  The contract of the dispatching engine as an abstract machine: every execution id has a fate, and the
  only moves are to accept a message for delivery, to deliver an accepted message that the broker has
  confirmed, and to give an accepted message up. The tables refine this machine: whatever operations
  run, interleave and fail, the fates read off the outbox move along paths of the machine.
\<close>

subsection \<open>The abstract machine\<close>

datatype fate = Unknown | Accepted | Delivered | Abandoned

instantiation fate :: order
begin

definition less_eq_fate :: "fate \<Rightarrow> fate \<Rightarrow> bool" where
  "less_eq_fate a b \<longleftrightarrow> a = Unknown \<or> a = b \<or> (a = Accepted \<and> b \<noteq> Unknown)"

definition less_fate :: "fate \<Rightarrow> fate \<Rightarrow> bool" where
  "less_fate a b \<longleftrightarrow> a \<le> b \<and> a \<noteq> (b :: fate)"

instance
  by standard (auto simp: less_fate_def less_eq_fate_def)

end

inductive deliver_step :: "int64 set \<Rightarrow> (int64 \<Rightarrow> fate) \<Rightarrow> (int64 \<Rightarrow> fate) \<Rightarrow> bool" for S where
  accept: "f i = Unknown \<Longrightarrow> deliver_step S f (f(i := Accepted))"
| deliver: "f i = Accepted \<Longrightarrow> i \<in> S \<Longrightarrow> deliver_step S f (f(i := Delivered))"
| abandon: "f i = Accepted \<Longrightarrow> deliver_step S f (f(i := Abandoned))"

text \<open>The moves of one id, in one go.\<close>

definition fate_path :: "bool \<Rightarrow> fate \<Rightarrow> fate \<Rightarrow> bool" where
  "fate_path confirmed a b \<longleftrightarrow> a \<le> b \<and> (b = Delivered \<longrightarrow> a = Delivered \<or> confirmed)"

lemma fate_steps:
  assumes "fate_path (i \<in> S) (f i) b"
  shows "(deliver_step S)\<^sup>*\<^sup>* f (f(i := b))"
proof (cases "f i = b")
  case True
  then show ?thesis by (metis fun_upd_triv rtranclp.rtrancl_refl)
next
  case False
  have last: "(deliver_step S)\<^sup>*\<^sup>* g (g(i := b))" if "g i = Accepted" "b \<noteq> Accepted" for g
  proof -
    from that(2) False assms consider "b = Delivered" "i \<in> S" | "b = Abandoned"
      by (cases b) (auto simp: fate_path_def less_eq_fate_def)
    then have "deliver_step S g (g(i := b))" using that(1) by cases (auto intro: deliver_step.intros)
    then show ?thesis by blast
  qed
  from False assms consider "f i = Accepted" "b \<noteq> Accepted" | "f i = Unknown"
    by (auto simp: fate_path_def less_eq_fate_def)
  then show ?thesis
  proof cases
    case 1
    then show ?thesis by (rule last)
  next
    case 2
    then have first: "deliver_step S f (f(i := Accepted))" by (rule deliver_step.accept)
    show ?thesis
    proof (cases "b = Accepted")
      case True
      with first show ?thesis by blast
    next
      case False
      with last [of "f(i := Accepted)"] have "(deliver_step S)\<^sup>*\<^sup>* (f(i := Accepted)) (f(i := b))" by simp
      with first show ?thesis by (rule converse_rtranclp_into_rtranclp)
    qed
  qed
qed

text \<open>Finitely many ids that each move along a path make a run of the machine.\<close>

lemma fates_run:
  assumes "finite {i. f i \<noteq> g i}" and "\<And>i. fate_path (i \<in> S) (f i) (g i)"
  shows "(deliver_step S)\<^sup>*\<^sup>* f g"
proof -
  have "(deliver_step S)\<^sup>*\<^sup>* f (\<lambda>i. if i \<in> A then g i else f i)" if "finite A" for A
    using that
  proof (induction A rule: finite_induct)
    case empty
    show ?case by simp
  next
    case (insert a A)
    let ?h = "\<lambda>i. if i \<in> A then g i else f i"
    have "fate_path (a \<in> S) (?h a) (g a)" using insert.hyps(2) assms(2) by simp
    from fate_steps [where f = ?h, OF this] have "(deliver_step S)\<^sup>*\<^sup>* ?h (?h(a := g a))" .
    moreover have "?h(a := g a) = (\<lambda>i. if i \<in> insert a A then g i else f i)" by auto
    ultimately show ?case using insert.IH by simp
  qed
  from this [OF assms(1)] have "(deliver_step S)\<^sup>*\<^sup>* f (\<lambda>i. if f i \<noteq> g i then g i else f i)" by simp
  moreover have "(\<lambda>i. if f i \<noteq> g i then g i else f i) = g" by auto
  ultimately show ?thesis by simp
qed

lemma deliver_step_increases: "deliver_step S f g \<Longrightarrow> f \<le> g"
  by (induction rule: deliver_step.induct) (auto simp: le_fun_def less_eq_fate_def)

lemma deliver_steps_increase: "(deliver_step S)\<^sup>*\<^sup>* f g \<Longrightarrow> f \<le> g"
  by (induction rule: rtranclp_induct) (auto dest: deliver_step_increases)

subsection \<open>The fates the outbox stands for\<close>

definition fate_of :: "OutboxMessagePO \<Rightarrow> fate" where
  "fate_of q = (if po_State q = OutboxPublished then Delivered
     else if po_State q = OutboxDead then Abandoned else Accepted)"

definition fates :: "tables \<Rightarrow> int64 \<Rightarrow> fate" where
  "fates t i = (case List.find (\<lambda>q. po_ExecutionID q = i) (t_outbox t) of
     None \<Rightarrow> Unknown | Some q \<Rightarrow> fate_of q)"

lemma fates_Unknown: "fates t i = Unknown \<longleftrightarrow> i \<notin> po_ExecutionID ` set (t_outbox t)"
proof (cases "List.find (\<lambda>q. po_ExecutionID q = i) (t_outbox t)")
  case (Some q)
  then have "q \<in> set (t_outbox t)" "po_ExecutionID q = i" by (auto simp: find_Some_iff)
  with Some show ?thesis by (auto simp: fates_def fate_of_def)
next
  case None
  then have "i \<notin> po_ExecutionID ` set (t_outbox t)" by (auto simp: find_None_iff)
  with None show ?thesis by (simp add: fates_def)
qed

lemma fates_known:
  assumes "tables_ok t" and "q \<in> set (t_outbox t)"
  shows "fates t (po_ExecutionID q) = fate_of q"
proof (cases "List.find (\<lambda>r. po_ExecutionID r = po_ExecutionID q) (t_outbox t)")
  case None
  with assms(2) show ?thesis by (auto simp: find_None_iff)
next
  case (Some r)
  then have "r \<in> set (t_outbox t)" "po_ExecutionID r = po_ExecutionID q" by (auto simp: find_Some_iff)
  with assms have "r = q" by (blast intro: tables_ok_outbox_unique)
  with Some show ?thesis by (simp add: fates_def)
qed

lemma fate_of_adv: "outbox_adv q q' \<Longrightarrow> fate_of q \<le> fate_of q'"
  by (auto simp: outbox_adv_def settled_def fate_of_def less_eq_fate_def split: if_splits)

lemma fates_path:
  assumes rel: "sys_rel S t t'" and ok: "tables_ok t"
  shows "fate_path (i \<in> S) (fates t i) (fates t' i)"
proof -
  have ok': "tables_ok t'" and adv: "\<And>q. q \<in> set (t_outbox t) \<Longrightarrow> \<exists>q' \<in> set (t_outbox t'). outbox_adv q q'"
    and pub: "\<And>q. q \<in> set (t_outbox t') \<Longrightarrow> po_State q = OutboxPublished \<Longrightarrow> q \<in> set (t_outbox t) \<or> po_ExecutionID q \<in> S"
    using rel ok by (auto simp: sys_rel_def pair_rel_def outbox_advance_def keeps_ok_def published_only_def)
  have "fates t i \<le> fates t' i"
  proof (cases "fates t i = Unknown")
    case False
    then obtain q where q: "q \<in> set (t_outbox t)" "po_ExecutionID q = i" by (auto simp: fates_Unknown)
    from adv [OF q(1)] obtain q' where q': "q' \<in> set (t_outbox t')" "outbox_adv q q'" by blast
    then have "po_ExecutionID q' = i" using q(2) by (simp add: outbox_adv_def)
    with fate_of_adv [OF q'(2)] fates_known [OF ok q(1)] fates_known [OF ok' q'(1)] q(2) show ?thesis by simp
  qed (simp add: less_eq_fate_def)
  moreover have "fates t i = Delivered \<or> i \<in> S" if "fates t' i = Delivered"
  proof -
    from that have "i \<in> po_ExecutionID ` set (t_outbox t')" using fates_Unknown [of t' i] by auto
    then obtain q where q: "q \<in> set (t_outbox t')" "po_ExecutionID q = i" by blast
    with that fates_known [OF ok' q(1)] have st: "po_State q = OutboxPublished" by (auto simp: fate_of_def split: if_splits)
    from pub [OF q(1) st] show ?thesis using fates_known [OF ok] q(2) st by (auto simp: fate_of_def)
  qed
  ultimately show ?thesis by (simp add: fate_path_def)
qed

lemma finite_fates_differ:
  assumes "sys_rel S t t'" and "tables_ok t"
  shows "finite {i. fates t i \<noteq> fates t' i}"
proof (rule finite_subset)
  show "{i. fates t i \<noteq> fates t' i} \<subseteq> po_ExecutionID ` set (t_outbox t')"
  proof
    fix i assume "i \<in> {i. fates t i \<noteq> fates t' i}"
    then show "i \<in> po_ExecutionID ` set (t_outbox t')"
      using fates_path [OF assms, of i] fates_Unknown [of t' i] by (auto simp: fate_path_def less_eq_fate_def)
  qed
qed simp

text \<open>C2: The tables refine the delivery contract: in every history, whatever operations ran, interleaved
  and failed, the fates read off the outbox at the end are reached from those at the start by a run of the
  abstract machine that accepts unknown messages, delivers accepted messages the publisher confirmed
  (the ids in S), and gives accepted messages up, and does nothing else.\<close>

theorem outbox_refines_delivery:
  assumes "history S ops t t'" and "tables_ok t"
  shows "(deliver_step S)\<^sup>*\<^sup>* (fates t) (fates t')"
  using fates_run [OF finite_fates_differ fates_path] history_rel [OF assms(1)] assms(2) by blast

theorem outbox_refines_delivery_witness:
  "(deliver_step UNIV)\<^sup>*\<^sup>* (fates (tabs demo_backlog)) (fates (tabs demo_after)) \<and>
     map (fates (tabs demo_backlog)) [1, 2, 3, 4] = [Accepted, Accepted, Accepted, Unknown] \<and>
     map (fates (tabs demo_after)) [1, 2, 3, 4] = [Delivered, Accepted, Abandoned, Abandoned]"
proof (intro conjI)
  show "(deliver_step UNIV)\<^sup>*\<^sup>* (fates (tabs demo_backlog)) (fates (tabs demo_after))"
    by (rule outbox_refines_delivery [OF demo_history demo_backlog_inv(1)])
qed code_simp+

end
