(* ===== verification/Settlement.thy ===== *)
theory Settlement
  imports Delivery_Refinement
begin

text \<open>
  The end of every execution: whatever a history of operations, failures and crashes has left in the
  tables, and whatever the broker answers from then on, passes of the relay settle every message, because every pass uses
  up an attempt of each message it takes.
\<close>

subsection \<open>The attempts that are left\<close>

definition attempts_left_of :: "RelayConfig \<Rightarrow> OutboxMessagePO \<Rightarrow> nat" where
  "attempts_left_of cfg r = (if settled (po_State r) then 0 else nat (max 1 (rc_MaxAttempts cfg - po_Attempts r)))"

definition attempts_left :: "RelayConfig \<Rightarrow> tables \<Rightarrow> nat" where
  "attempts_left cfg t = sum_list (map (attempts_left_of cfg) (t_outbox t))"

lemma attempts_left_of_0 [simp]: "attempts_left_of cfg r = 0 \<longleftrightarrow> settled (po_State r)"
  by (simp add: attempts_left_of_def)

lemma none_left: "attempts_left cfg t = 0 \<longleftrightarrow> unsettled t = []"
  by (simp add: attempts_left_def unsettled_def filter_empty_conv)

text \<open>A pass that can do its work, and passes that follow each other at a distance.\<close>

definition able_pass :: "relay_env \<Rightarrow> bool" where
  "able_pass env \<longleftrightarrow> (\<exists>bs. re_rand env = Inr bs \<and> bs \<noteq> []) \<and> (\<forall>i. \<not> re_locked env i)"

definition spaced :: "RelayConfig \<Rightarrow> relay_env list \<Rightarrow> bool" where
  "spaced cfg = sorted_wrt (\<lambda>e e'. \<forall>a. add_time (re_now e) (retryBackoff cfg a) \<le> re_now e')"

text \<open>What a pass makes of a claimed row: it is settled, or has used up an attempt and waits for the back-off.\<close>

lemma message_of_claimed:
  fixes tok :: string
  assumes "tables_ok (tabs w)" and "foreign w = []" and "r \<in> set (claim_of cfg env w)"
  defines "ms \<equiv> claimed_messages cfg env tok (claim_of cfg env w)"
  shows "\<exists>m. message_by_id ms (po_ExecutionID r) = Some m \<and> om_Attempts m = po_Attempts r + 1"
    and "po_ExecutionID r \<in> set (map om_ExecutionID ms)"
proof -
  let ?m = "OutboxMessage_ToEntity (lease_row (add_time (re_now env) (rc_LeaseDuration cfg)) tok r)"
  have w: "interfere w = w" using assms(2) by (simp add: interfere_def)
  have d: "distinct (map om_ExecutionID ms)"
    unfolding ms_def claim_of_def w by (rule claimed_distinct [OF assms(1)])
  have m: "?m \<in> set ms" "om_ExecutionID ?m = po_ExecutionID r" "om_Attempts ?m = po_Attempts r + 1"
    using assms(3) by (auto simp: ms_def claimed_messages_def lease_row_def)
  have "find (\<lambda>x. om_ExecutionID x = po_ExecutionID r) ms = Some ?m"
    using d m(1,2) by (induction ms) (auto simp: image_iff)
  then show "\<exists>m. message_by_id ms (po_ExecutionID r) = Some m \<and> om_Attempts m = po_Attempts r + 1"
    using message_by_id_distinct [OF d] m(3) by auto
  show "po_ExecutionID r \<in> set (map om_ExecutionID ms)" using m(1,2) by force
qed

lemma pass_row_cases:
  fixes tok :: string and stamp :: gotime
  assumes "tables_ok (tabs w)" and "foreign w = []" and "r \<in> set (claim_of cfg env w)"
  defines "q \<equiv> pass_row cfg env stamp tok (claimed_messages cfg env tok (claim_of cfg env w)) r"
  shows "po_ExecutionID q = po_ExecutionID r"
    and "settled (po_State q) \<or> po_State q = OutboxPending \<and> po_Attempts q = po_Attempts r + 1 \<and>
      po_Attempts q < rc_MaxAttempts cfg \<and> (\<exists>a. po_AvailableAt q = add_time (re_now env) (retryBackoff cfg a))"
proof -
  let ?ms = "claimed_messages cfg env tok (claim_of cfg env w)"
  from message_of_claimed [OF assms(1-3)] obtain m where m: "message_by_id ?ms (po_ExecutionID r) = Some m"
    "om_Attempts m = po_Attempts r + 1" and i: "po_ExecutionID r \<in> set (map om_ExecutionID ?ms)" by blast
  have lease: "po_ExecutionID ((lease_row u tok r)\<lparr>po_UpdatedAt := stamp\<rparr>) = po_ExecutionID r" for u
    by (simp add: lease_row_def)
  show "po_ExecutionID q = po_ExecutionID r"
    by (simp add: q_def pass_row_def marked_row_def Let_def row_defs)
  show "settled (po_State q) \<or> po_State q = OutboxPending \<and> po_Attempts q = po_Attempts r + 1 \<and>
      po_Attempts q < rc_MaxAttempts cfg \<and> (\<exists>a. po_AvailableAt q = add_time (re_now env) (retryBackoff cfg a))"
    using i m
    by (auto simp: q_def pass_row_def marked_row_def Let_def row_defs settled_def dead_ids_def retried_ids_def relay_result_sets)
qed

subsection \<open>The passes use them up\<close>

lemma claim_due:
  assumes "quiet w" and "able_pass env" and "\<forall>r \<in> set (unsettled (tabs w)). claimable (re_now env) r"
  shows "claim_of cfg env w = take (nat (claim_limit (rc_BatchSize cfg))) (sort_key po_OutboxID (unsettled (tabs w)))"
  unfolding claim_of_def quiet_interfere [OF assms(1)]
  by (rule claimed_all_due) (use assms(2,3) in \<open>simp_all add: able_pass_def\<close>)

lemma claim_open:
  assumes "quiet w" and "able_pass env" and "\<forall>r \<in> set (unsettled (tabs w)). claimable (re_now env) r"
  shows "set (claim_of cfg env w) \<subseteq> set (unsettled (tabs w))"
    and "unsettled (tabs w) \<noteq> [] \<Longrightarrow> claim_of cfg env w \<noteq> []"
proof -
  show "set (claim_of cfg env w) \<subseteq> set (unsettled (tabs w))"
    unfolding claim_due [OF assms] by (auto dest: in_set_takeD)
  show "unsettled (tabs w) \<noteq> [] \<Longrightarrow> claim_of cfg env w \<noteq> []"
    unfolding claim_due [OF assms] by (simp add: claim_limit_def) (metis length_0_conv length_sort)
qed

text \<open>One pass: attempts are used up, and what it leaves open is due at the later passes.\<close>

lemma pass_uses_attempt:
  assumes q: "quiet w" and able: "able_pass env"
    and due: "\<forall>r \<in> set (unsettled (tabs w)). \<forall>e \<in> set (env # envs). claimable (re_now e) r"
    and spaced: "spaced cfg (env # envs)"
    and backed: "po_ExecutionID ` set (t_outbox (tabs w)) \<subseteq> pe_ExecutionID ` set (t_execs (tabs w))"
  shows "\<exists>w'. DispatchOnce cfg env w = (Inr None, w') \<and> quiet w' \<and>
    map pe_ExecutionID (t_execs (tabs w')) = map pe_ExecutionID (t_execs (tabs w)) \<and>
    map po_ExecutionID (t_outbox (tabs w')) = map po_ExecutionID (t_outbox (tabs w)) \<and>
    attempts_left cfg (tabs w') \<le> attempts_left cfg (tabs w) - 1 \<and>
    (\<forall>r \<in> set (unsettled (tabs w')). \<forall>e \<in> set envs. claimable (re_now e) r)"
proof -
  have now: "\<forall>r \<in> set (unsettled (tabs w)). claimable (re_now env) r" using due by simp
  from able obtain bs where rand: "re_rand env = Inr bs" "bs \<noteq> []" by (auto simp: able_pass_def)
  let ?C = "claim_of cfg env w" and ?tok = "hex_encode bs"
  define ms where "ms = claimed_messages cfg env ?tok ?C"
  define h where "h = pass_row cfg env (clock w) ?tok ms"
  have ok: "tables_ok (tabs w)" "foreign w = []" using q by (simp_all add: quiet_def)
  have row: "po_ExecutionID (h r) = po_ExecutionID r"
    "settled (po_State (h r)) \<or> po_State (h r) = OutboxPending \<and> po_Attempts (h r) = po_Attempts r + 1 \<and>
      po_Attempts (h r) < rc_MaxAttempts cfg \<and> (\<exists>a. po_AvailableAt (h r) = add_time (re_now env) (retryBackoff cfg a))"
    if "r \<in> set ?C" for r
    unfolding h_def ms_def using pass_row_cases [OF ok that] by blast+
  have open_rows: "set ?C \<subseteq> set (unsettled (tabs w))" by (rule claim_open(1) [OF q able now])
  then have stored: "set ?C \<subseteq> set (t_outbox (tabs w))" by (auto simp: unsettled_def)
  have "set (dead_ids (rc_MaxAttempts cfg) (message_by_id ms) (FailedIDs (relay_result (re_batchRun env) ms))) \<subseteq> set (map om_ExecutionID ms)"
    by (auto simp: dead_ids_def relay_result_sets)
  also have "\<dots> \<subseteq> po_ExecutionID ` set (t_outbox (tabs w))"
    using stored by (force simp: ms_def claimed_messages_def lease_row_def)
  finally have "set (dead_ids (rc_MaxAttempts cfg) (message_by_id ms) (FailedIDs (relay_result (re_batchRun env) ms))) \<subseteq>
      pe_ExecutionID ` set (t_execs (tabs w))" using backed by blast
  from quiet_pass [OF q rand, of cfg, folded ms_def, OF this, folded h_def]
  obtain w' where run: "DispatchOnce cfg env w = (Inr None, w')" and q': "quiet w'"
    and ex: "map pe_ExecutionID (t_execs (tabs w')) = map pe_ExecutionID (t_execs (tabs w))"
    and out: "t_outbox (tabs w') = apply_where (\<lambda>r. r \<in> set ?C) h (t_outbox (tabs w))" by blast
  have ids: "map po_ExecutionID (t_outbox (tabs w')) = map po_ExecutionID (t_outbox (tabs w))"
    using row(1) by (simp add: out apply_where_def)
  let ?g = "\<lambda>r. attempts_left_of cfg (if r \<in> set ?C then h r else r)"
  have less: "attempts_left_of cfg (h r) < attempts_left_of cfg r" if "r \<in> set ?C" for r
  proof -
    have "\<not> settled (po_State r)" using that open_rows by (auto simp: unsettled_def)
    with row(2) [OF that] show ?thesis by (auto simp: attempts_left_of_def)
  qed
  have sum: "attempts_left cfg (tabs w') = (\<Sum>r\<leftarrow>t_outbox (tabs w). ?g r)"
    by (simp add: attempts_left_def out apply_where_def o_def)
  have mono: "(\<Sum>r\<leftarrow>xs. ?g r) \<le> (\<Sum>r\<leftarrow>xs. attempts_left_of cfg r)" for xs
    by (rule sum_list_mono) (use less in \<open>auto intro: less_imp_le\<close>)
  have le: "attempts_left cfg (tabs w') \<le> attempts_left cfg (tabs w)"
    unfolding sum unfolding attempts_left_def by (rule mono)
  have "attempts_left cfg (tabs w') \<le> attempts_left cfg (tabs w) - 1"
  proof (cases "unsettled (tabs w) = []")
    case True
    then have "attempts_left cfg (tabs w) = 0" by (simp add: none_left)
    with le show ?thesis by simp
  next
    case False
    from claim_open(2) [OF q able now this] obtain r where r: "r \<in> set ?C" by (cases ?C) auto
    then have "r \<in> set (t_outbox (tabs w))" using stored by blast
    then obtain us vs where us: "t_outbox (tabs w) = us @ r # vs" by (auto simp: in_set_conv_decomp)
    from mono [of us] mono [of vs] less [OF r] r have "attempts_left cfg (tabs w') < attempts_left cfg (tabs w)"
      unfolding sum unfolding attempts_left_def us by simp
    then show ?thesis by simp
  qed
  moreover have "\<forall>r \<in> set (unsettled (tabs w')). \<forall>e \<in> set envs. claimable (re_now e) r"
  proof (intro ballI)
    fix q e assume "q \<in> set (unsettled (tabs w'))" and e: "e \<in> set envs"
    then obtain r where r: "r \<in> set (t_outbox (tabs w))" "q = (if r \<in> set ?C then h r else r)" "\<not> settled (po_State q)"
      by (auto simp: unsettled_def out apply_where_def)
    show "claimable (re_now e) q"
    proof (cases "r \<in> set ?C")
      case True
      with row(2) [OF True] r obtain a where "po_State q = OutboxPending" "po_AvailableAt q = add_time (re_now env) (retryBackoff cfg a)"
        by auto
      moreover have "add_time (re_now env) (retryBackoff cfg a) \<le> re_now e" using spaced e by (simp add: spaced_def)
      ultimately show ?thesis by (simp add: claimable_def)
    next
      case False
      with r have "q \<in> set (unsettled (tabs w))" by (simp add: unsettled_def)
      with due e show ?thesis by simp
    qed
  qed
  ultimately show ?thesis using run q' ex ids by blast
qed

lemma passes_use_attempts:
  assumes "quiet w" and "\<forall>env \<in> set envs. able_pass env" and "spaced cfg envs"
    and "\<forall>r \<in> set (unsettled (tabs w)). \<forall>env \<in> set envs. claimable (re_now env) r"
    and "po_ExecutionID ` set (t_outbox (tabs w)) \<subseteq> pe_ExecutionID ` set (t_execs (tabs w))"
  shows "\<exists>w'. relay_Run cfg envs w = (Inr (), w') \<and> attempts_left cfg (tabs w') \<le> attempts_left cfg (tabs w) - length envs \<and>
    map pe_ExecutionID (t_execs (tabs w')) = map pe_ExecutionID (t_execs (tabs w)) \<and>
    map po_ExecutionID (t_outbox (tabs w')) = map po_ExecutionID (t_outbox (tabs w))"
  using assms
proof (induction envs arbitrary: w)
  case Nil
  show ?case by (simp add: io_return_def)
next
  case (Cons env envs)
  have "able_pass env" using Cons.prems(2) by simp
  from pass_uses_attempt [OF Cons.prems(1) this Cons.prems(4,3,5)]
  obtain w1 where run: "DispatchOnce cfg env w = (Inr None, w1)" and q1: "quiet w1"
    and ids: "map pe_ExecutionID (t_execs (tabs w1)) = map pe_ExecutionID (t_execs (tabs w))"
      "map po_ExecutionID (t_outbox (tabs w1)) = map po_ExecutionID (t_outbox (tabs w))"
    and less: "attempts_left cfg (tabs w1) \<le> attempts_left cfg (tabs w) - 1"
    and due: "\<forall>r \<in> set (unsettled (tabs w1)). \<forall>e \<in> set envs. claimable (re_now e) r" by blast
  have "po_ExecutionID ` set (t_outbox (tabs w1)) \<subseteq> pe_ExecutionID ` set (t_execs (tabs w1))"
    using Cons.prems(5) ids by (metis list.set_map)
  with Cons.IH [OF q1 _ _ due] Cons.prems(2,3)
  obtain w' where "relay_Run cfg envs w1 = (Inr (), w')" "attempts_left cfg (tabs w') \<le> attempts_left cfg (tabs w1) - length envs"
    "map pe_ExecutionID (t_execs (tabs w')) = map pe_ExecutionID (t_execs (tabs w1))"
    "map po_ExecutionID (t_outbox (tabs w')) = map po_ExecutionID (t_outbox (tabs w1))"
    by (auto simp: spaced_def)
  with run ids less show ?case by (intro exI [of _ w']) (auto simp: io_then_def io_bind_def)
qed

subsection \<open>Nothing is forgotten\<close>

lemma sys_relay_Run:
  assumes "\<forall>env \<in> set envs. \<forall>ts. set (SuccessIDs (fst (re_batchRun env ts))) \<subseteq> S"
    and "\<forall>env \<in> set envs. \<forall>bs. re_rand env = Inr bs \<longrightarrow> bs \<noteq> []"
  shows "guarantees (sys_rel S) (relay_Run cfg envs)"
proof -
  have "guarantees pair_rel (relay_Run cfg envs)"
    by (induction envs) (auto intro: pair.return pair.andthen pair_DispatchOnce)
  moreover have "guarantees rows_ok (relay_Run cfg envs)"
    by (rule rows_store.relay_Run_guarantees) (use assms in auto)
  moreover have "guarantees (published_only S) (relay_Run cfg envs)"
    by (rule pub_store.relay_Run_guarantees) (use assms in auto)
  ultimately show ?thesis by (rule sys_guarantees)
qed

text \<open>C5: No execution is forgotten, whatever the broker does. Take the tables as any history of operations, failed
  statements, lost commits and other instances has left them. If from then on no statement fails and nobody else
  writes, then as many passes of the relay as there are attempts left, each so late that what is open is due,
  settle everything: every execution is delivered or given up, delivered only if it was so before or some pass's
  publisher confirmed it, and given up only with an execution that is no longer WAIT.\<close>

theorem nothing_is_forgotten:
  assumes "history S ops t (tabs w)" and "tables_ok t" and "pair_inv t" and "\<forall>r \<in> set (t_outbox t). row_ok r"
    and "outcomes w = []" and "foreign w = []"
    and "\<forall>env \<in> set envs. able_pass env" and "spaced cfg envs"
    and "\<forall>r \<in> set (unsettled (tabs w)). \<forall>env \<in> set envs. claimable_from r \<le> re_now env"
    and "attempts_left cfg (tabs w) \<le> length envs"
  shows "\<exists>w'. relay_Run cfg envs w = (Inr (), w') \<and>
    map pe_ExecutionID (t_execs (tabs w')) = map pe_ExecutionID (t_execs (tabs w)) \<and>
    (\<forall>p \<in> set (t_execs (tabs w')).
       fates (tabs w') (pe_ExecutionID p) = Delivered \<and>
         (fates (tabs w) (pe_ExecutionID p) = Delivered \<or>
          (\<exists>env \<in> set envs. \<exists>ts. pe_ExecutionID p \<in> set (SuccessIDs (fst (re_batchRun env ts))))) \<or>
       fates (tabs w') (pe_ExecutionID p) = Abandoned \<and> pe_ExecutionStatus p \<noteq> StatusWait)"
proof -
  have rel: "sys_rel S t (tabs w)" using assms(1) by (rule history_rel)
  then have ok: "tables_ok (tabs w)" and inv: "pair_inv (tabs w)" and rows: "\<forall>r \<in> set (t_outbox (tabs w)). row_ok r"
    using assms(2-4) by (simp_all add: sys_rel_def pair_rel_def outbox_advance_def keeps_ok_def rows_ok_def)
  have q: "quiet w" using assms(5,6) ok by (simp add: quiet_def)
  have due: "\<forall>r \<in> set (unsettled (tabs w)). \<forall>env \<in> set envs. claimable (re_now env) r"
    using assms(9) rows by (auto simp: unsettled_def intro: row_ok_claimable)
  have backed: "po_ExecutionID ` set (t_outbox (tabs w)) \<subseteq> pe_ExecutionID ` set (t_execs (tabs w))"
  proof
    fix i assume "i \<in> po_ExecutionID ` set (t_outbox (tabs w))"
    then obtain m where "m \<in> set (t_outbox (tabs w))" "po_ExecutionID m = i" by blast
    with inv obtain p where "p \<in> set (t_execs (tabs w))" "pe_ExecutionID p = i" unfolding pair_inv_def by metis
    then show "i \<in> pe_ExecutionID ` set (t_execs (tabs w))" by blast
  qed
  from passes_use_attempts [OF q assms(7,8) due backed] obtain w' where run: "relay_Run cfg envs w = (Inr (), w')"
    and left: "attempts_left cfg (tabs w') \<le> attempts_left cfg (tabs w) - length envs"
    and ids: "map pe_ExecutionID (t_execs (tabs w')) = map pe_ExecutionID (t_execs (tabs w))" by blast
  have none: "unsettled (tabs w') = []" using left assms(10) none_left [of cfg "tabs w'"] by simp
  define S' where "S' = (\<Union>env \<in> set envs. \<Union>ts. set (SuccessIDs (fst (re_batchRun env ts))))"
  have "rely (sys_rel S') w" using assms(6) by (simp add: rely_def)
  moreover have "guarantees (sys_rel S') (relay_Run cfg envs)"
    by (rule sys_relay_Run) (use assms(7) in \<open>auto simp: S'_def able_pass_def\<close>)
  ultimately have rel': "sys_rel S' (tabs w) (tabs w')" using run by (auto dest: guaranteesD simp: within_def)
  then have ok': "tables_ok (tabs w')" and inv': "pair_inv (tabs w')"
    using ok inv by (simp_all add: sys_rel_def pair_rel_def outbox_advance_def keeps_ok_def)
  have "fates (tabs w') (pe_ExecutionID p) = Delivered \<and>
         (fates (tabs w) (pe_ExecutionID p) = Delivered \<or>
          (\<exists>env \<in> set envs. \<exists>ts. pe_ExecutionID p \<in> set (SuccessIDs (fst (re_batchRun env ts))))) \<or>
       fates (tabs w') (pe_ExecutionID p) = Abandoned \<and> pe_ExecutionStatus p \<noteq> StatusWait"
    if p: "p \<in> set (t_execs (tabs w'))" for p
  proof -
    from inv' p obtain m where m: "m \<in> set (t_outbox (tabs w'))" "po_ExecutionID m = pe_ExecutionID p"
      unfolding pair_inv_def by blast
    then have fate: "fates (tabs w') (pe_ExecutionID p) = fate_of m" using fates_known [OF ok' m(1)] by simp
    have "settled (po_State m)" using none m(1) by (auto simp: unsettled_def filter_empty_conv)
    then consider "po_State m = OutboxPublished" | "po_State m = OutboxDead" by (auto simp: settled_def)
    then show ?thesis
    proof cases
      case 1
      then have d: "fates (tabs w') (pe_ExecutionID p) = Delivered" using fate by (simp add: fate_of_def)
      with fates_path [OF rel' ok, of "pe_ExecutionID p"] show ?thesis by (auto simp: fate_path_def S'_def)
    next
      case 2
      then have "fates (tabs w') (pe_ExecutionID p) = Abandoned" using fate by (simp add: fate_of_def)
      moreover from inv' m(1) 2 obtain p' where "p' \<in> set (t_execs (tabs w'))" "pe_ExecutionID p' = po_ExecutionID m"
        "pe_ExecutionStatus p' \<noteq> StatusWait" unfolding pair_inv_def by blast
      moreover from this p m(2) ok' have "p' = p" by (auto simp: tables_ok_def keyed_ok_def distinct_map inj_on_def)
      ultimately show ?thesis by simp
    qed
  qed
  with run ids show ?thesis by blast
qed

text \<open>A broker that refuses everything, and a pass every two minutes.\<close>

definition refusing :: "ExecutionTask list \<Rightarrow> BatchResult \<times> goerr option" where
  "refusing ts = (\<lparr>SuccessIDs = [], FailedIDs = map tk_ExecutionID ts, ErrorMessage = ''refused''\<rparr>, None)"

definition late_pass :: "nat \<Rightarrow> relay_env" where
  "late_pass i = \<lparr>re_now = 1000000000000 + 120000000000 * int i, re_locked = (\<lambda>_. False), re_rand = Inr [1, 2], re_fail = (\<lambda>_. 0),
     re_batchRun = refusing\<rparr>"

lemma demo_backoff: "sint (retryBackoff demo_relay a) \<le> 60000000000"
proof -
  have c: "rc_MaxBackoff demo_relay = Minute" "rc_InitialBackoff demo_relay = Second" by code_simp+
  have "sint Second = 1000000000" "sint Minute = 60000000000" by code_simp+
  then show ?thesis
    unfolding retryBackoff_def c Let_def using backoff_loop_exact [of Second Minute] by simp
qed

lemma late_passes: "spaced demo_relay (map late_pass [0..<n])"
proof -
  have "add_time (re_now (late_pass i)) (retryBackoff demo_relay a) \<le> re_now (late_pass j)" if "i < j" for i j a
    using that demo_backoff [of a] by (simp add: late_pass_def add_time_def)
  then show ?thesis by (simp add: spaced_def sorted_wrt_map sorted_wrt_upt [THEN sorted_wrt_mono_rel [rotated]])
qed

theorem nothing_is_forgotten_witness:
  "\<exists>w'. relay_Run demo_relay (map late_pass [0..<6]) demo_after = (Inr (), w') \<and> fates (tabs demo_after) 2 = Accepted \<and>
     fates (tabs w') 2 = Abandoned"
proof -
  let ?envs = "map late_pass [0..<6]"
  have rows: "\<forall>r \<in> set (t_outbox (tabs demo_backlog)). row_ok r" by (simp add: demo_backlog_def demo_row_def row_ok_def)
  have calm: "outcomes demo_after = []" "foreign demo_after = []" by code_simp+
  have able: "\<forall>env \<in> set ?envs. able_pass env" by (auto simp: able_pass_def late_pass_def)
  have "list_all (\<lambda>r. claimable_from r \<le> 1000000000000) (unsettled (tabs demo_after))" by code_simp
  then have due: "\<forall>r \<in> set (unsettled (tabs demo_after)). \<forall>env \<in> set ?envs. claimable_from r \<le> re_now env"
    by (fastforce simp: list_all_iff late_pass_def)
  have "attempts_left demo_relay (tabs demo_after) = 6" by code_simp
  then have n: "attempts_left demo_relay (tabs demo_after) \<le> length ?envs" by simp
  have before: "fates (tabs demo_after) 2 = Accepted" by code_simp
  from nothing_is_forgotten [OF demo_history demo_backlog_inv rows calm able late_passes due n] obtain w' where
    run: "relay_Run demo_relay ?envs demo_after = (Inr (), w')"
    and ids: "map pe_ExecutionID (t_execs (tabs w')) = map pe_ExecutionID (t_execs (tabs demo_after))"
    and all: "\<forall>p \<in> set (t_execs (tabs w')).
       fates (tabs w') (pe_ExecutionID p) = Delivered \<and>
         (fates (tabs demo_after) (pe_ExecutionID p) = Delivered \<or>
          (\<exists>env \<in> set ?envs. \<exists>ts. pe_ExecutionID p \<in> set (SuccessIDs (fst (re_batchRun env ts))))) \<or>
       fates (tabs w') (pe_ExecutionID p) = Abandoned \<and> pe_ExecutionStatus p \<noteq> StatusWait" by blast
  have "2 \<in> set (map pe_ExecutionID (t_execs (tabs demo_after)))" by code_simp
  then have "2 \<in> set (map pe_ExecutionID (t_execs (tabs w')))" by (simp only: ids)
  then obtain p where p: "p \<in> set (t_execs (tabs w'))" "pe_ExecutionID p = 2" by auto
  have "\<not> (\<exists>env \<in> set ?envs. \<exists>ts. (2 :: int) \<in> set (SuccessIDs (fst (re_batchRun env ts))))"
    by (auto simp: late_pass_def refusing_def)
  with all p before have "fates (tabs w') 2 = Abandoned" by auto
  with run before show ?thesis by blast
qed

end
