(* ===== verification/Dispatch_Stream.thy ===== *)
theory Dispatch_Stream
  imports Chunk_Dispatch
begin

text \<open>
  The pipeline of a batch dispatch (\<open>dispatchStream\<close> in \<open>usecase/dispatch_app_service.go\<close>): a producer
  that pages through the catalogue, workers that dispatch one page each, a closer, and an aggregator
  that calls the progress callback, all under one \<open>errgroup\<close>. Every communication on a Go channel is a
  step; a run is a list of actions, so that it can be evaluated. What a worker does with a
  page is \<open>dispatchOneBatch\<close> from any world; the database is not part of the pipeline's state, because the
  concurrent transactions of other workers are among the foreign changes of that world.
\<close>

subsection \<open>The state\<close>

datatype producer =
    Scanning
  | Offering "UtCase list"
  | Produced

datatype stream_worker =
    Receiving
  | Emitting Progress
  | Exited

text \<open>
  \<open>sm_pages\<close> and \<open>sm_scan\<close> are the pages the scan has left and the error it ends with; \<open>sm_gctx\<close> the error
  of the group's context, once it is done; \<open>sm_err\<close> the group's first error; \<open>sm_called\<close> what the callback was
  called with.
\<close>

record stream =
  sm_pages :: "UtCase list list"
  sm_scan :: "goerr option"
  sm_idx :: int32
  sm_producer :: producer
  sm_batchCh :: "indexedBatch list"
  sm_batchClosed :: bool
  sm_workers :: "stream_worker list"
  sm_progressCh :: "Progress list"
  sm_progressClosed :: bool
  sm_aggregating :: bool
  sm_totalDispatched :: int32
  sm_total :: int
  sm_called :: "Progress list"
  sm_gctx :: "goerr option"
  sm_err :: "goerr option"

text \<open>A function of the group returns; the first error cancels the group's context.\<close>

definition group_return :: "goerr option \<Rightarrow> stream \<Rightarrow> stream" where
  "group_return r s =
     (case r of
        None \<Rightarrow> s
      | Some e \<Rightarrow> (if sm_err s \<noteq> None then s
                   else s\<lparr>sm_err := Some e,
                          sm_gctx := (case sm_gctx s of None \<Rightarrow> Some (Sentinel Canceled) | Some g \<Rightarrow> Some g)\<rparr>))"

subsection \<open>The producer\<close>

text \<open>What the producer makes of the error of the scan.\<close>

definition scan_result :: "goerr option \<Rightarrow> goerr option" where
  "scan_result err =
     (case err of
        Some e \<Rightarrow> (if \<not> errors_Is e Canceled \<and> \<not> errors_Is e DeadlineExceeded
                   then Some (wrap_prefix ''scan cases: '' e) else None)
      | None \<Rightarrow> None)"

definition produced :: "goerr option \<Rightarrow> stream \<Rightarrow> stream" where
  "produced err s = group_return (scan_result err) (s\<lparr>sm_producer := Produced, sm_batchClosed := True\<rparr>)"

text \<open>The callback of the scan is called with a copy of the next page, or the scan ends.\<close>

definition producer_next :: "stream \<Rightarrow> stream option" where
  "producer_next s =
     (if sm_producer s \<noteq> Scanning then None
      else Some (case sm_pages s of
                   [] \<Rightarrow> produced (sm_scan s) s
                 | b # bs \<Rightarrow> s\<lparr>sm_producer := Offering b, sm_pages := bs\<rparr>))"

definition producer_send :: "stream \<Rightarrow> stream option" where
  "producer_send s =
     (case sm_producer s of
        Offering b \<Rightarrow>
          (if length (sm_batchCh s) < 2 * length (sm_workers s)
           then Some (s\<lparr>sm_batchCh := sm_batchCh s @ [\<lparr>ib_Index = sm_idx s, ib_Cases = b\<rparr>],
                        sm_idx := sm_idx s + 1, sm_producer := Scanning\<rparr>)
           else None)
      | _ \<Rightarrow> None)"

text \<open>The context is done, in the callback or in a statement of the scan; the scan wraps the error.\<close>

definition producer_cancel :: "stream \<Rightarrow> stream option" where
  "producer_cancel s =
     (case sm_gctx s of
        None \<Rightarrow> None
      | Some e \<Rightarrow> (if sm_producer s = Produced then None
                   else Some (produced (Some (wrap_prefix ''scan ut_case: '' e)) s)))"

subsection \<open>Workers, closer, aggregator\<close>

definition set_worker :: "nat \<Rightarrow> stream_worker \<Rightarrow> stream \<Rightarrow> stream" where
  "set_worker i w s = s\<lparr>sm_workers := (sm_workers s)[i := w]\<rparr>"

text \<open>A worker receives a page and dispatches it; \<open>handle_page\<close> is \<open>dispatchOneBatch\<close> up to the sending.\<close>

definition worker_receive :: "(indexedBatch \<Rightarrow> goerr + Progress) \<Rightarrow> nat \<Rightarrow> stream \<Rightarrow> stream option" where
  "worker_receive handle_page i s =
     (if i < length (sm_workers s) \<and> sm_workers s ! i = Receiving
      then (case sm_batchCh s of
              [] \<Rightarrow> (if sm_batchClosed s then Some (set_worker i Exited s) else None)
            | b # bs \<Rightarrow>
                Some (case handle_page b of
                        Inl e \<Rightarrow> group_return (Some e) (set_worker i Exited (s\<lparr>sm_batchCh := bs\<rparr>))
                      | Inr p \<Rightarrow> set_worker i (Emitting p) (s\<lparr>sm_batchCh := bs\<rparr>)))
      else None)"

definition emitProgress :: "nat \<Rightarrow> stream \<Rightarrow> stream option" where
  "emitProgress i s =
     (if i < length (sm_workers s)
      then (case sm_workers s ! i of
              Emitting p \<Rightarrow>
                (if length (sm_progressCh s) < length (sm_workers s)
                 then Some (set_worker i Receiving (s\<lparr>sm_progressCh := sm_progressCh s @ [p]\<rparr>))
                 else None)
            | _ \<Rightarrow> None)
      else None)"

text \<open>The context is done, while the worker waits for a page or for room for its progress.\<close>

definition worker_cancel :: "nat \<Rightarrow> stream \<Rightarrow> stream option" where
  "worker_cancel i s =
     (case sm_gctx s of
        None \<Rightarrow> None
      | Some e \<Rightarrow> (if i < length (sm_workers s) \<and> sm_workers s ! i \<noteq> Exited
                   then Some (group_return (Some e) (set_worker i Exited s)) else None))"

definition stream_close :: "stream \<Rightarrow> stream option" where
  "stream_close s =
     (if list_all (\<lambda>w. w = Exited) (sm_workers s) \<and> \<not> sm_progressClosed s
      then Some (s\<lparr>sm_progressClosed := True\<rparr>) else None)"

definition announce :: "Progress \<Rightarrow> stream \<Rightarrow> Progress" where
  "announce p s =
     p\<lparr>pg_TotalDispatched := sm_totalDispatched s + word_of_nat (length (pg_SuccessIDs p)),
       pg_TotalPlanned := word_of_int (sm_total s)\<rparr>"

text \<open>The aggregator; \<open>cbErr\<close> is what the callback returns, if it is called.\<close>

definition aggregate :: "goerr option \<Rightarrow> stream \<Rightarrow> stream option" where
  "aggregate cbErr s =
     (if \<not> sm_aggregating s then None
      else case sm_progressCh s of
             [] \<Rightarrow> (if sm_progressClosed s then Some (s\<lparr>sm_aggregating := False\<rparr>) else None)
           | p # ps \<Rightarrow>
               (let s' = s\<lparr>sm_progressCh := ps, sm_called := sm_called s @ [announce p s],
                           sm_totalDispatched := sm_totalDispatched s + word_of_nat (length (pg_SuccessIDs p))\<rparr>
                in Some (case cbErr of
                           None \<Rightarrow> s'
                         | Some e \<Rightarrow> group_return (Some (wrap_prefix ''progress callback: '' e))
                                       (s'\<lparr>sm_aggregating := False\<rparr>))))"

subsection \<open>Runs\<close>

text \<open>What a worker needs of its surroundings: the clock, the publisher and the world.\<close>

record chunk_env =
  ce_times :: chunk_times
  ce_batchRun :: "ExecutionTask list \<Rightarrow> BatchResult \<times> goerr option"
  ce_world :: world

record stream_args =
  sa_cfg :: DispatchConfig
  sa_outbox :: bool
  sa_requestID :: string
  sa_version :: Version
  sa_user :: string

definition handle_page :: "stream_args \<Rightarrow> chunk_env \<Rightarrow> indexedBatch \<Rightarrow> goerr + Progress" where
  "handle_page a e b =
     fst (dispatchOneBatch (sa_cfg a) (sa_outbox a) (ce_times e) (ce_batchRun e) b (sa_requestID a)
            (sa_version a) (sa_user a) (ce_world e))"

datatype stream_action =
    ProducerNext
  | ProducerSend
  | ProducerCancel
  | WorkerReceive nat chunk_env
  | WorkerEmit nat
  | WorkerCancel nat
  | CloseProgress
  | Aggregate "goerr option"
  | CtxEnds goerr       \<comment> \<open>the context of the caller\<close>

fun stream_act :: "stream_args \<Rightarrow> stream_action \<Rightarrow> stream \<Rightarrow> stream option" where
  "stream_act a ProducerNext s = producer_next s"
| "stream_act a ProducerSend s = producer_send s"
| "stream_act a ProducerCancel s = producer_cancel s"
| "stream_act a (WorkerReceive i e) s = worker_receive (handle_page a e) i s"
| "stream_act a (WorkerEmit i) s = emitProgress i s"
| "stream_act a (WorkerCancel i) s = worker_cancel i s"
| "stream_act a CloseProgress s = stream_close s"
| "stream_act a (Aggregate cbErr) s = aggregate cbErr s"
| "stream_act a (CtxEnds e) s = (if sm_gctx s = None then Some (s\<lparr>sm_gctx := Some e\<rparr>) else None)"

fun stream_run :: "stream_args \<Rightarrow> stream_action list \<Rightarrow> stream \<Rightarrow> stream option" where
  "stream_run a [] s = Some s"
| "stream_run a (x # xs) s = (case stream_act a x s of None \<Rightarrow> None | Some s' \<Rightarrow> stream_run a xs s')"

text \<open>All functions of the group have returned, so \<open>g.Wait\<close> returns.\<close>

definition finished :: "stream \<Rightarrow> bool" where
  "finished s \<longleftrightarrow> sm_producer s = Produced \<and> list_all (\<lambda>w. w = Exited) (sm_workers s) \<and>
     sm_progressClosed s \<and> \<not> sm_aggregating s"

definition stream_start :: "nat \<Rightarrow> int \<Rightarrow> UtCase list list \<Rightarrow> goerr option \<Rightarrow> stream" where
  "stream_start workers n pages scanErr =
     \<lparr>sm_pages = pages, sm_scan = scanErr, sm_idx = 0, sm_producer = Scanning, sm_batchCh = [],
      sm_batchClosed = False, sm_workers = replicate workers Receiving, sm_progressCh = [],
      sm_progressClosed = False, sm_aggregating = True, sm_totalDispatched = 0, sm_total = n,
      sm_called = [], sm_gctx = None, sm_err = None\<rparr>"

text \<open>The pages a scan hands out, and the error it ends with.\<close>

type_synonym scanFn =
  "int \<Rightarrow> (UtCase list list \<Rightarrow> goerr option) \<Rightarrow> (UtCase list list \<Rightarrow> UtCase list \<Rightarrow> goerr option \<times> UtCase list list)
     \<Rightarrow> UtCase list list \<Rightarrow> world \<Rightarrow> (goerr option \<times> UtCase list list) \<times> world"

definition scanned :: "scanFn \<Rightarrow> int \<Rightarrow> world \<Rightarrow> goerr option \<times> UtCase list list" where
  "scanned scan size' w = fst (scan size' (\<lambda>_. None) (\<lambda>pages b. (None, pages @ [b])) [] w)"

text \<open>
  \<open>slot\<close> is the error of the context if it ends before a batch slot is free; \<open>w1\<close> the world of the count,
  \<open>w2\<close> that of the scan. The result is the error and the calls of the callback, or \<open>None\<close> if the actions
  do not make a complete run.
\<close>

definition dispatchStream ::
  "stream_args \<Rightarrow> goerr option \<Rightarrow> int io \<Rightarrow> scanFn \<Rightarrow> world \<Rightarrow> world \<Rightarrow> stream_action list
     \<Rightarrow> (goerr option \<times> Progress list) option" where
  "dispatchStream a slot count' scan w1 w2 acts =
     (case slot of
        Some e \<Rightarrow> Some (Some e, [])
      | None \<Rightarrow>
          (case fst (count' w1) of
             Inl err \<Rightarrow> Some (Some (wrap_prefix ''count cases: '' err), [])
           | Inr n \<Rightarrow>
               (if n = 0 then Some (None, [])
                else let (scanErr, pages) = scanned scan (dc_BatchSize (sa_cfg a)) w2 in
                     case stream_run a acts (stream_start (nat (dc_WorkerCount (sa_cfg a))) n pages scanErr) of
                       None \<Rightarrow> None
                     | Some s \<Rightarrow> if finished s then Some (sm_err s, sm_called s) else None)))"

text \<open>The two batch calls.\<close>

definition ExecuteAllCasesWithRequest ::
  "DispatchConfig \<Rightarrow> bool \<Rightarrow> goerr + byte list \<Rightarrow> goerr option \<Rightarrow> string \<Rightarrow> Version \<Rightarrow> string \<Rightarrow> world \<Rightarrow> world
     \<Rightarrow> stream_action list \<Rightarrow> (goerr option \<times> Progress list) option" where
  "ExecuteAllCasesWithRequest cfg outbox rand slot requestID v user w1 w2 acts =
     (if Version_IsEmpty v then Some (Some (NewInvalidArgument ''version is required''), [])
      else case NormalizeRequestID rand requestID of
             Inl err \<Rightarrow> Some (Some err, [])
           | Inr requestID \<Rightarrow>
               dispatchStream \<lparr>sa_cfg = cfg, sa_outbox = outbox, sa_requestID = requestID, sa_version = v, sa_user = user\<rparr>
                 slot (UtCaseRepository_CountByVersion v) (UtCaseRepository_ScanByVersion v) w1 w2 acts)"

definition ExecuteAllCases where
  "ExecuteAllCases cfg outbox rand slot v user = ExecuteAllCasesWithRequest cfg outbox rand slot '''' v user"

definition ExecuteChannelCasesWithRequest ::
  "DispatchConfig \<Rightarrow> bool \<Rightarrow> goerr + byte list \<Rightarrow> goerr option \<Rightarrow> string \<Rightarrow> Channel \<Rightarrow> Version \<Rightarrow> string \<Rightarrow> world \<Rightarrow> world
     \<Rightarrow> stream_action list \<Rightarrow> (goerr option \<times> Progress list) option" where
  "ExecuteChannelCasesWithRequest cfg outbox rand slot requestID ch v user w1 w2 acts =
     (if Version_IsEmpty v then Some (Some (NewInvalidArgument ''version is required''), [])
      else if Channel_IsEmpty ch then Some (Some (NewInvalidArgument ''channel is required''), [])
      else case NormalizeRequestID rand requestID of
             Inl err \<Rightarrow> Some (Some err, [])
           | Inr requestID \<Rightarrow>
               dispatchStream \<lparr>sa_cfg = cfg, sa_outbox = outbox, sa_requestID = requestID, sa_version = v, sa_user = user\<rparr>
                 slot (UtCaseRepository_CountByChannelVersion ch v) (UtCaseRepository_ScanByChannelVersion ch v) w1 w2 acts)"

definition ExecuteChannelCases where
  "ExecuteChannelCases cfg outbox rand slot ch v user = ExecuteChannelCasesWithRequest cfg outbox rand slot '''' ch v user"

subsection \<open>What a step leaves alone\<close>

lemma group_return_frame [simp]:
  "sm_pages (group_return r s) = sm_pages s" "sm_scan (group_return r s) = sm_scan s" "sm_idx (group_return r s) = sm_idx s"
  "sm_producer (group_return r s) = sm_producer s" "sm_batchCh (group_return r s) = sm_batchCh s"
  "sm_batchClosed (group_return r s) = sm_batchClosed s" "sm_workers (group_return r s) = sm_workers s"
  "sm_progressCh (group_return r s) = sm_progressCh s" "sm_progressClosed (group_return r s) = sm_progressClosed s"
  "sm_aggregating (group_return r s) = sm_aggregating s" "sm_totalDispatched (group_return r s) = sm_totalDispatched s"
  "sm_total (group_return r s) = sm_total s" "sm_called (group_return r s) = sm_called s"
  by (simp_all add: group_return_def split: option.splits)

lemma set_worker_frame [simp]:
  "sm_pages (set_worker i w s) = sm_pages s" "sm_scan (set_worker i w s) = sm_scan s" "sm_idx (set_worker i w s) = sm_idx s"
  "sm_producer (set_worker i w s) = sm_producer s" "sm_batchCh (set_worker i w s) = sm_batchCh s"
  "sm_batchClosed (set_worker i w s) = sm_batchClosed s" "sm_workers (set_worker i w s) = (sm_workers s)[i := w]"
  "sm_progressCh (set_worker i w s) = sm_progressCh s" "sm_progressClosed (set_worker i w s) = sm_progressClosed s"
  "sm_aggregating (set_worker i w s) = sm_aggregating s" "sm_totalDispatched (set_worker i w s) = sm_totalDispatched s"
  "sm_total (set_worker i w s) = sm_total s" "sm_called (set_worker i w s) = sm_called s"
  "sm_gctx (set_worker i w s) = sm_gctx s" "sm_err (set_worker i w s) = sm_err s"
  by (simp_all add: set_worker_def)

lemma group_return_None [simp]: "group_return None s = s"
  by (simp add: group_return_def)

text \<open>A context that is done stays done; an error of the group means that it is done.\<close>

lemma group_return_gctx: "sm_gctx s \<noteq> None \<Longrightarrow> sm_gctx (group_return r s) \<noteq> None"
  by (auto simp: group_return_def split: option.splits)

lemma group_return_Some:
  "sm_err s \<noteq> None \<longrightarrow> sm_gctx s \<noteq> None \<Longrightarrow> sm_gctx (group_return (Some e) s) \<noteq> None"
  "sm_err (group_return (Some e) s) \<noteq> None"
  by (auto simp: group_return_def split: option.splits)

lemma group_return_none_iff:
  "sm_err (group_return r s) = None \<longleftrightarrow> r = None \<and> sm_err s = None"
  by (auto simp: group_return_def split: option.splits)

subsection \<open>Which page is where\<close>

type_synonym page_key = "int32 \<times> int32"

definition batch_key :: "indexedBatch \<Rightarrow> page_key" where
  "batch_key b = (ib_Index b, word_of_nat (length (ib_Cases b)))"

definition progress_key :: "Progress \<Rightarrow> page_key" where
  "progress_key p = (pg_ChunkIndex p, pg_ChunkSize p)"

primrec worker_keys :: "stream_worker \<Rightarrow> page_key list" where
  "worker_keys Receiving = []"
| "worker_keys (Emitting p) = [progress_key p]"
| "worker_keys Exited = []"

definition workers_keys :: "stream \<Rightarrow> page_key multiset" where
  "workers_keys s = mset (concat (map worker_keys (sm_workers s)))"

definition keys :: "stream \<Rightarrow> page_key multiset" where
  "keys s = mset (map batch_key (sm_batchCh s)) + workers_keys s + mset (map progress_key (sm_progressCh s)) +
     mset (map progress_key (sm_called s))"

text \<open>The keys of the first \<open>k\<close> pages.\<close>

definition page_keys :: "UtCase list list \<Rightarrow> nat \<Rightarrow> page_key multiset" where
  "page_keys pages k = mset (map (\<lambda>i. (word_of_nat i, word_of_nat (length (pages ! i)))) [0..<k])"

lemma page_keys_Suc: "page_keys pages (Suc k) = add_mset (word_of_nat k, word_of_nat (length (pages ! k))) (page_keys pages k)"
  by (simp add: page_keys_def)

lemma workers_keys_update:
  assumes "i < length (sm_workers s)"
  shows "workers_keys (set_worker i w s) + mset (worker_keys (sm_workers s ! i)) = workers_keys s + mset (worker_keys w)"
proof -
  let ?ws = "sm_workers s"
  have "?ws = take i ?ws @ ?ws ! i # drop (Suc i) ?ws" using assms by (rule id_take_nth_drop)
  then have "workers_keys s = mset (concat (map worker_keys (take i ?ws @ ?ws ! i # drop (Suc i) ?ws)))"
    by (simp add: workers_keys_def)
  with assms show ?thesis by (simp add: workers_keys_def upd_conv_take_nth_drop)
qed

lemma workers_keys_cong: "sm_workers s = sm_workers t \<Longrightarrow> workers_keys s = workers_keys t"
  by (simp add: workers_keys_def)

lemma handle_key:
  obtains p where "handle_page a e b = Inr p" and "progress_key p = batch_key b"
proof -
  have "\<exists>p w'. dispatchOneBatch c o' t r b q v u w = (Inr p, w') \<and> progress_key p = batch_key b" for c o' t r q v u w
    by (auto simp: dispatchOneBatch_def io_bind_def io_try_def io_return_def Let_def chunk_error_def progress_key_def
        batch_key_def split: prod.splits sum.splits option.splits)
  then show ?thesis using that unfolding handle_page_def by (metis fst_conv)
qed

primrec producer_at :: "UtCase list list \<Rightarrow> nat \<Rightarrow> stream \<Rightarrow> producer \<Rightarrow> bool" where
  "producer_at pages k s Scanning = (sm_pages s = drop k pages)"
| "producer_at pages k s (Offering b) = (k < length pages \<and> b = pages ! k \<and> sm_pages s = drop (Suc k) pages)"
| "producer_at pages k s Produced = (sm_gctx s = None \<longrightarrow> k = length pages \<and> scan_result (sm_scan s) = None)"

text \<open>The first \<open>k\<close> pages were sent. No page is in two places, and as long as the context is not done none
  is lost.\<close>

definition pages_ok :: "UtCase list list \<Rightarrow> stream \<Rightarrow> bool" where
  "pages_ok pages s \<longleftrightarrow>
     (\<exists>k \<le> length pages. sm_idx s = word_of_nat k \<and> producer_at pages k s (sm_producer s) \<and>
        keys s \<subseteq># page_keys pages k \<and> (sm_gctx s = None \<longrightarrow> keys s = page_keys pages k))"

definition flags_ok :: "stream \<Rightarrow> bool" where
  "flags_ok s \<longleftrightarrow>
     (sm_batchClosed s \<longleftrightarrow> sm_producer s = Produced) \<and>
     (sm_progressClosed s \<longrightarrow> list_all (\<lambda>w. w = Exited) (sm_workers s)) \<and>
     (\<not> sm_aggregating s \<longrightarrow> sm_gctx s \<noteq> None \<or> sm_progressClosed s \<and> sm_progressCh s = []) \<and>
     (Exited \<in> set (sm_workers s) \<longrightarrow> sm_gctx s \<noteq> None \<or> sm_batchClosed s \<and> sm_batchCh s = []) \<and>
     (sm_err s \<noteq> None \<longrightarrow> sm_gctx s \<noteq> None) \<and>
     length (sm_progressCh s) \<le> length (sm_workers s) \<and> length (sm_batchCh s) \<le> 2 * length (sm_workers s)"

text \<open>The totals are running sums.\<close>

definition totals_ok :: "int \<Rightarrow> stream \<Rightarrow> bool" where
  "totals_ok n s \<longleftrightarrow>
     sm_total s = n \<and>
     sm_totalDispatched s = word_of_nat (sum_list (map (\<lambda>p. length (pg_SuccessIDs p)) (sm_called s))) \<and>
     (\<forall>j < length (sm_called s). pg_TotalPlanned (sm_called s ! j) = word_of_int n \<and>
        pg_TotalDispatched (sm_called s ! j) =
          word_of_nat (sum_list (map (\<lambda>p. length (pg_SuccessIDs p)) (take (Suc j) (sm_called s)))))"

lemma flags_group_return: "flags_ok s \<Longrightarrow> flags_ok (group_return r s)"
  by (cases r; cases "sm_err s"; cases "sm_gctx s") (auto simp: flags_ok_def group_return_def)

lemma flags_produced: "flags_ok s \<Longrightarrow> sm_producer s \<noteq> Produced \<Longrightarrow> flags_ok (produced r s)"
  unfolding produced_def by (rule flags_group_return) (auto simp: flags_ok_def)

lemma flags_producer:
  assumes "flags_ok s" and "producer_next s = Some s' \<or> producer_send s = Some s' \<or> producer_cancel s = Some s'"
  shows "flags_ok s'"
  using assms(2)
proof (elim disjE)
  assume "producer_next s = Some s'"
  with assms(1) show ?thesis
    by (cases "sm_pages s") (auto simp: producer_next_def flags_ok_def [of "_\<lparr>sm_producer := _, sm_pages := _\<rparr>"]
        flags_ok_def [of s] intro: flags_produced split: if_splits)
next
  assume "producer_send s = Some s'"
  with assms(1) show ?thesis
    by (cases "sm_producer s") (auto simp: producer_send_def flags_ok_def split: if_splits)
next
  assume "producer_cancel s = Some s'"
  with assms(1) show ?thesis
    by (cases "sm_gctx s") (auto simp: producer_cancel_def intro: flags_produced split: if_splits)
qed

lemma flags_closing:
  assumes "flags_ok s" and "stream_close s = Some s' \<or> aggregate e s = Some s'"
  shows "flags_ok s'"
  using assms(2)
proof (elim disjE)
  assume "stream_close s = Some s'"
  with assms(1) show ?thesis by (auto simp: stream_close_def flags_ok_def split: if_splits)
next
  assume g: "aggregate e s = Some s'"
  show ?thesis
  proof (cases "sm_progressCh s")
    case Nil
    with g assms(1) show ?thesis by (auto simp: aggregate_def flags_ok_def split: if_splits)
  next
    case (Cons p ps)
    define t where "t = s\<lparr>sm_progressCh := ps, sm_called := sm_called s @ [announce p s],
                           sm_totalDispatched := sm_totalDispatched s + word_of_nat (length (pg_SuccessIDs p))\<rparr>"
    have ag: "sm_aggregating s" using g by (auto simp: aggregate_def split: if_splits)
    then have t: "flags_ok t" using assms(1) Cons by (auto simp: flags_ok_def t_def)
    show ?thesis
    proof (cases e)
      case None
      with g Cons ag t show ?thesis by (simp add: aggregate_def t_def Let_def)
    next
      case (Some err)
      define u where "u = group_return (Some (wrap_prefix ''progress callback: '' err)) t"
      have "s' = u\<lparr>sm_aggregating := False\<rparr>"
        using g Cons ag Some by (auto simp: aggregate_def t_def u_def Let_def group_return_def)
      moreover have "flags_ok u" unfolding u_def using t by (rule flags_group_return)
      moreover have "sm_gctx u \<noteq> None"
        unfolding u_def using t by (intro group_return_Some) (simp add: flags_ok_def)
      ultimately show ?thesis by (auto simp: flags_ok_def)
    qed
  qed
qed

lemma set_update_Exited: "i < length ws \<Longrightarrow> w \<noteq> Exited \<Longrightarrow> Exited \<in> set (ws[i := w]) \<Longrightarrow> Exited \<in> set ws"
  by (auto dest!: set_update_subset_insert [THEN subsetD])

lemma all_Exited_update: "list_all (\<lambda>w. w = Exited) ws \<Longrightarrow> list_all (\<lambda>w. w = Exited) (ws[i := Exited])"
  by (auto simp: list_all_iff dest!: set_update_subset_insert [THEN subsetD])

lemma flags_worker:
  assumes "flags_ok s" and "worker_receive (handle_page a e) i s = Some s' \<or> emitProgress i s = Some s' \<or> worker_cancel i s = Some s'"
  shows "flags_ok s'"
  using assms(2)
proof (elim disjE)
  assume r: "worker_receive (handle_page a e) i s = Some s'"
  then have i: "i < length (sm_workers s)" "sm_workers s ! i = Receiving"
    by (auto simp: worker_receive_def split: if_splits)
  then have "\<not> list_all (\<lambda>w. w = Exited) (sm_workers s)" by (auto simp: list_all_length)
  with assms(1) have o: "\<not> sm_progressClosed s" by (auto simp: flags_ok_def)
  show ?thesis
  proof (cases "sm_batchCh s")
    case Nil
    with r i o assms(1) show ?thesis by (auto simp: worker_receive_def flags_ok_def split: if_splits)
  next
    case (Cons b bs)
    obtain p where "handle_page a e b = Inr p" using handle_key by blast
    with r i o Cons assms(1) show ?thesis
      by (auto simp: worker_receive_def flags_ok_def dest: set_update_Exited)
  qed
next
  assume r: "emitProgress i s = Some s'"
  then obtain p where i: "i < length (sm_workers s)" "sm_workers s ! i = Emitting p"
    by (auto simp: emitProgress_def split: if_splits stream_worker.splits)
  then have "\<not> list_all (\<lambda>w. w = Exited) (sm_workers s)" by (auto simp: list_all_length)
  with assms(1) r i show ?thesis
    by (auto simp: emitProgress_def flags_ok_def split: if_splits dest: set_update_Exited)
next
  assume r: "worker_cancel i s = Some s'"
  with assms(1) show ?thesis
    by (auto simp: worker_cancel_def flags_ok_def group_return_def all_Exited_update split: option.splits if_splits)
qed

lemma flags_act:
  assumes "flags_ok s" and "stream_act a x s = Some s'"
  shows "flags_ok s'"
proof (cases x)
  case (CtxEnds e)
  with assms show ?thesis by (auto simp: flags_ok_def split: if_splits)
qed (use assms flags_producer [of s s'] flags_closing [of s s'] flags_worker [of s a _ _ s'] in auto)

lemma pages_ok_gctx:
  assumes "pages_ok pages s" and "sm_gctx s' \<noteq> None" and "keys s' \<subseteq># keys s"
    and "sm_idx s' = sm_idx s" and "sm_pages s' = sm_pages s" and "sm_producer s' = sm_producer s \<or> sm_producer s' = Produced"
  shows "pages_ok pages s'"
proof -
  from assms(1) obtain k where k: "k \<le> length pages" "sm_idx s = word_of_nat k" "producer_at pages k s (sm_producer s)"
    "keys s \<subseteq># page_keys pages k" by (auto simp: pages_ok_def)
  have "producer_at pages k s' (sm_producer s')"
    using k(3) assms(2,5,6) by (cases "sm_producer s") auto
  with k assms(2,3,4) show ?thesis
    unfolding pages_ok_def by (intro exI [of _ k]) (auto intro: subset_mset.order_trans)
qed

lemma pages_ok_keep:
  assumes "pages_ok pages s" and "sm_gctx s' = sm_gctx s" and "keys s' = keys s"
    and "sm_idx s' = sm_idx s" and "sm_pages s' = sm_pages s" and "sm_producer s' = sm_producer s" and "sm_scan s' = sm_scan s"
  shows "pages_ok pages s'"
proof -
  from assms(1) obtain k where k: "k \<le> length pages" "sm_idx s = word_of_nat k" "producer_at pages k s (sm_producer s)"
    "keys s \<subseteq># page_keys pages k" "sm_gctx s = None \<longrightarrow> keys s = page_keys pages k" by (auto simp: pages_ok_def)
  have "producer_at pages k s' (sm_producer s')"
    using k(3) assms by (cases "sm_producer s") auto
  with k assms(2,3,4) show ?thesis unfolding pages_ok_def by (intro exI [of _ k]) simp
qed

lemma group_return_cases:
  assumes "sm_err s \<noteq> None \<longrightarrow> sm_gctx s \<noteq> None"
  obtains "r = None" "group_return r s = s" | "sm_gctx (group_return r s) \<noteq> None"
  using assms group_return_Some(1) [of s] by (cases r) auto

lemma keys_group_return [simp]: "keys (group_return r s) = keys s"
  by (simp add: keys_def workers_keys_def)

lemma pages_produced:
  assumes "pages_ok pages s" and "flags_ok s" and "sm_producer s = Scanning \<or> sm_gctx s \<noteq> None"
    and "sm_gctx s = None \<Longrightarrow> sm_pages s = [] \<and> r = sm_scan s"
  shows "pages_ok pages (produced r s)"
proof -
  define t where "t = s\<lparr>sm_producer := Produced, sm_batchClosed := True\<rparr>"
  have kt: "keys t = keys s" by (simp add: t_def keys_def workers_keys_def)
  have te: "sm_err t \<noteq> None \<longrightarrow> sm_gctx t \<noteq> None" using assms(2) by (simp add: t_def flags_ok_def)
  show ?thesis
  proof (cases "sm_gctx (group_return (scan_result r) t) = None")
    case False
    have "sm_idx t = sm_idx s" "sm_pages t = sm_pages s" "sm_producer t = Produced" by (simp_all add: t_def)
    with assms(1) False kt show ?thesis unfolding produced_def t_def [symmetric]
      by (intro pages_ok_gctx [OF assms(1)]) simp_all
  next
    case True
    from te have eq: "scan_result r = None \<and> group_return (scan_result r) t = t"
      by (rule group_return_cases [of t "scan_result r"]) (use True in simp_all)
    then have g: "sm_gctx s = None" using True by (simp add: t_def)
    with assms(1,3) obtain k where k: "k \<le> length pages" "sm_idx s = word_of_nat k" "sm_pages s = drop k pages"
      "keys s = page_keys pages k" by (auto simp: pages_ok_def)
    with assms(4) g have "k = length pages" by simp
    moreover have "sm_idx t = sm_idx s" "sm_producer t = Produced" "sm_scan t = sm_scan s" by (simp_all add: t_def)
    moreover have "produced r s = t" using eq unfolding produced_def t_def by blast
    moreover have "scan_result (sm_scan s) = None" using eq assms(4) [OF g] by simp
    ultimately show ?thesis using k(2,4) kt unfolding pages_ok_def by (intro exI [of _ k]) simp
  qed
qed

lemma pages_producer:
  assumes ok: "pages_ok pages s" "flags_ok s"
    and step: "producer_next s = Some s' \<or> producer_send s = Some s' \<or> producer_cancel s = Some s'"
  shows "pages_ok pages s'"
  using step
proof (elim disjE)
  assume r: "producer_next s = Some s'"
  then have sc: "sm_producer s = Scanning" by (auto simp: producer_next_def split: if_splits)
  show ?thesis
  proof (cases "sm_pages s")
    case Nil
    with r sc ok show ?thesis by (auto simp: producer_next_def intro: pages_produced)
  next
    case (Cons b bs)
    from ok(1) sc obtain k where k: "k \<le> length pages" "sm_idx s = word_of_nat k" "sm_pages s = drop k pages"
      "keys s \<subseteq># page_keys pages k" "sm_gctx s = None \<longrightarrow> keys s = page_keys pages k" by (auto simp: pages_ok_def)
    from k(3) Cons have "k < length pages" by (metis drop_all leI list.distinct(1))
    moreover from this k(3) Cons have "b = pages ! k" "bs = drop (Suc k) pages" by (simp_all add: Cons_nth_drop_Suc [symmetric])
    moreover have "s' = s\<lparr>sm_producer := Offering b, sm_pages := bs\<rparr>" using r sc Cons by (simp add: producer_next_def)
    moreover from this have "keys s' = keys s" by (simp add: keys_def workers_keys_def)
    ultimately show ?thesis using k unfolding pages_ok_def by (intro exI [of _ k]) simp
  qed
next
  assume r: "producer_send s = Some s'"
  then obtain b where b: "sm_producer s = Offering b" by (auto simp: producer_send_def split: producer.splits)
  with ok(1) obtain k where k: "k < length pages" "sm_idx s = word_of_nat k" "b = pages ! k" "sm_pages s = drop (Suc k) pages"
      "keys s \<subseteq># page_keys pages k" "sm_gctx s = None \<longrightarrow> keys s = page_keys pages k" by (auto simp: pages_ok_def)
  have s': "s' = s\<lparr>sm_batchCh := sm_batchCh s @ [\<lparr>ib_Index = sm_idx s, ib_Cases = b\<rparr>], sm_idx := sm_idx s + 1, sm_producer := Scanning\<rparr>"
    using r b by (auto simp: producer_send_def split: if_splits)
  then have "keys s' = add_mset (word_of_nat k, word_of_nat (length b)) (keys s)"
    by (simp add: keys_def workers_keys_def batch_key_def k(2))
  with k s' show ?thesis unfolding pages_ok_def
    by (intro exI [of _ "Suc k"]) (simp add: page_keys_Suc add.commute)
next
  assume r: "producer_cancel s = Some s'"
  then obtain e where e: "sm_gctx s = Some e" "s' = produced (Some (wrap_prefix ''scan ut_case: '' e)) s"
    by (auto simp: producer_cancel_def split: option.splits if_splits)
  with ok show ?thesis by (auto intro: pages_produced)
qed

lemma pages_ok_group_return:
  assumes "pages_ok pages s" and "flags_ok s"
  shows "pages_ok pages (group_return r s)"
proof -
  have "sm_err s \<noteq> None \<longrightarrow> sm_gctx s \<noteq> None" using assms(2) by (simp add: flags_ok_def)
  then show ?thesis
  proof (rule group_return_cases [of s r])
    assume "group_return r s = s"
    with assms(1) show ?thesis by simp
  next
    assume "sm_gctx (group_return r s) \<noteq> None"
    then show ?thesis by (intro pages_ok_gctx [OF assms(1)]) simp_all
  qed
qed

text \<open>A worker that gives up drops the progress it has; the context is done then.\<close>

lemma keys_exit: "i < length (sm_workers s) \<Longrightarrow> keys (set_worker i Exited s) \<subseteq># keys s"
  using workers_keys_update [of i s Exited] by (simp add: keys_def subset_mset.add_increasing2)
    (metis mset_subset_eq_add_left mset_subset_eq_mono_add_right_cancel union_commute union_assoc)

lemma pages_worker:
  assumes ok: "pages_ok pages s" "flags_ok s"
    and step: "worker_receive (handle_page a e) i s = Some s' \<or> emitProgress i s = Some s' \<or> worker_cancel i s = Some s'"
  shows "pages_ok pages s'"
  using step
proof (elim disjE)
  assume r: "worker_receive (handle_page a e) i s = Some s'"
  then have i: "i < length (sm_workers s)" "sm_workers s ! i = Receiving" by (auto simp: worker_receive_def split: if_splits)
  show ?thesis
  proof (cases "sm_batchCh s")
    case Nil
    with r i have s': "s' = set_worker i Exited s" by (auto simp: worker_receive_def split: if_splits)
    with i workers_keys_update [of i s Exited] have "keys s' = keys s" by (simp add: keys_def)
    with s' show ?thesis by (intro pages_ok_keep [OF ok(1)]) simp_all
  next
    case (Cons b bs)
    obtain p where p: "handle_page a e b = Inr p" "progress_key p = batch_key b" by (rule handle_key)
    with r i Cons have s': "s' = set_worker i (Emitting p) (s\<lparr>sm_batchCh := bs\<rparr>)" by (simp add: worker_receive_def)
    have "workers_keys s' = add_mset (batch_key b) (workers_keys s)"
      using workers_keys_update [of i "s\<lparr>sm_batchCh := bs\<rparr>" "Emitting p"] i p(2) s'
      by (simp add: workers_keys_def)
    with s' Cons have "keys s' = keys s" by (simp add: keys_def)
    with s' show ?thesis by (intro pages_ok_keep [OF ok(1)]) simp_all
  qed
next
  assume r: "emitProgress i s = Some s'"
  then obtain p where i: "i < length (sm_workers s)" "sm_workers s ! i = Emitting p"
    by (auto simp: emitProgress_def split: if_splits stream_worker.splits)
  with r have s': "s' = set_worker i Receiving (s\<lparr>sm_progressCh := sm_progressCh s @ [p]\<rparr>)"
    by (auto simp: emitProgress_def split: if_splits)
  have "add_mset (progress_key p) (workers_keys s') = workers_keys s"
    using workers_keys_update [of i "s\<lparr>sm_progressCh := sm_progressCh s @ [p]\<rparr>" Receiving] i s'
    by (simp add: workers_keys_def)
  with s' have "keys s' = keys s" by (simp add: keys_def flip: \<open>add_mset (progress_key p) (workers_keys s') = workers_keys s\<close>)
  with s' show ?thesis by (intro pages_ok_keep [OF ok(1)]) simp_all
next
  assume r: "worker_cancel i s = Some s'"
  then obtain e where e: "sm_gctx s = Some e" "i < length (sm_workers s)"
    and s': "s' = group_return (Some e) (set_worker i Exited s)"
    by (auto simp: worker_cancel_def split: option.splits if_splits)
  have "sm_gctx s' \<noteq> None" unfolding s' by (rule group_return_gctx) (simp add: e)
  moreover have "keys s' \<subseteq># keys s" unfolding s' using keys_exit [OF e(2)] by simp
  ultimately show ?thesis by (intro pages_ok_gctx [OF ok(1)]) (simp_all add: s')
qed

text \<open>The aggregator, up to what it does with an error of the callback.\<close>

lemma aggregate_cases:
  assumes "aggregate e s = Some s'"
  obtains "sm_progressCh s = []" "s' = s\<lparr>sm_aggregating := False\<rparr>"
  | p ps where "sm_progressCh s = p # ps"
      "sm_called s' = sm_called s @ [announce p s]" "sm_progressCh s' = ps"
      "sm_totalDispatched s' = sm_totalDispatched s + word_of_nat (length (pg_SuccessIDs p))"
      "sm_gctx s' = sm_gctx s \<or> sm_gctx s' \<noteq> None" "sm_total s' = sm_total s"
      "sm_idx s' = sm_idx s" "sm_pages s' = sm_pages s" "sm_producer s' = sm_producer s" "sm_scan s' = sm_scan s"
      "sm_workers s' = sm_workers s" "sm_batchCh s' = sm_batchCh s"
proof (cases "sm_progressCh s")
  case Nil
  with assms that(1) show thesis by (auto simp: aggregate_def split: if_splits)
next
  case (Cons p ps)
  with assms show thesis
    by (intro that(2) [OF Cons]; cases e)
       (auto simp: aggregate_def Let_def group_return_def split: if_splits option.splits)
qed

lemma pages_closing:
  assumes ok: "pages_ok pages s" and step: "stream_close s = Some s' \<or> aggregate e s = Some s'"
  shows "pages_ok pages s'"
  using step
proof (elim disjE)
  assume "stream_close s = Some s'"
  then have s': "s' = s\<lparr>sm_progressClosed := True\<rparr>" by (auto simp: stream_close_def split: if_splits)
  then have "keys s' = keys s" by (simp add: keys_def workers_keys_def)
  then show ?thesis by (intro pages_ok_keep [OF ok]) (simp_all add: s')
next
  assume "aggregate e s = Some s'"
  then show ?thesis
  proof (cases rule: aggregate_cases)
    case 1
    then have "keys s' = keys s" by (simp add: keys_def workers_keys_def)
    then show ?thesis by (intro pages_ok_keep [OF ok]) (simp_all add: 1)
  next
    case (2 p ps)
    have "progress_key (announce p s) = progress_key p" by (simp add: progress_key_def announce_def)
    with 2 have k: "keys s' = keys s" by (simp add: keys_def workers_keys_def)
    show ?thesis
    proof (cases "sm_gctx s' = sm_gctx s")
      case True
      with k 2 show ?thesis by (intro pages_ok_keep [OF ok])
    next
      case False
      with 2 have "sm_gctx s' \<noteq> None" by simp
      with k 2 show ?thesis by (intro pages_ok_gctx [OF ok]) simp_all
    qed
  qed
qed

lemma pages_act:
  assumes "pages_ok pages s" and "flags_ok s" and "stream_act a x s = Some s'"
  shows "pages_ok pages s'"
proof (cases x)
  case (CtxEnds e)
  with assms(3) have s': "s' = s\<lparr>sm_gctx := Some e\<rparr>" by (auto split: if_splits)
  then have "keys s' = keys s" by (simp add: keys_def workers_keys_def)
  then show ?thesis by (intro pages_ok_gctx [OF assms(1)]) (simp_all add: s')
qed (use assms pages_producer [of pages s s'] pages_closing [of pages s s'] pages_worker [of pages s a _ _ s'] in auto)

lemma totals_aggregate:
  assumes "totals_ok n s" and "aggregate e s = Some s'"
  shows "totals_ok n s'"
  using assms(2)
proof (cases rule: aggregate_cases)
  case 1
  with assms(1) show ?thesis by (simp add: totals_ok_def)
next
  case (2 p ps)
  have succ: "pg_SuccessIDs (announce p s) = pg_SuccessIDs p" by (simp add: announce_def)
  show ?thesis unfolding totals_ok_def
  proof (intro conjI allI impI)
    show "sm_total s' = n" using assms(1) 2 by (simp add: totals_ok_def)
    show "sm_totalDispatched s' = word_of_nat (sum_list (map (\<lambda>p. length (pg_SuccessIDs p)) (sm_called s')))"
      using assms(1) 2 succ by (simp add: totals_ok_def)
    fix j assume "j < length (sm_called s')"
    then have j: "j < length (sm_called s) \<or> j = length (sm_called s)" using 2 by auto
    then show "pg_TotalPlanned (sm_called s' ! j) = word_of_int n"
      using assms(1) 2 by (auto simp: totals_ok_def nth_append announce_def)
    show "pg_TotalDispatched (sm_called s' ! j) =
        word_of_nat (sum_list (map (\<lambda>p. length (pg_SuccessIDs p)) (take (Suc j) (sm_called s'))))"
      using assms(1) 2 j succ by (auto simp: totals_ok_def nth_append announce_def)
  qed
qed

lemma totals_act:
  assumes "totals_ok n s" and "stream_act a x s = Some s'"
  shows "totals_ok n s'"
proof (cases "\<exists>e. x = Aggregate e")
  case True
  with assms totals_aggregate [of n s _ s'] show ?thesis by auto
next
  case False
  with assms(2) have "sm_total s' = sm_total s \<and> sm_totalDispatched s' = sm_totalDispatched s \<and> sm_called s' = sm_called s"
    by (cases x)
       (auto simp: producer_next_def producer_send_def producer_cancel_def produced_def worker_receive_def emitProgress_def
          worker_cancel_def stream_close_def split: if_splits list.splits producer.splits option.splits sum.splits stream_worker.splits)
  with assms(1) show ?thesis by (simp add: totals_ok_def)
qed

subsection \<open>Every run\<close>

definition stream_ok :: "UtCase list list \<Rightarrow> int \<Rightarrow> stream \<Rightarrow> bool" where
  "stream_ok pages n s \<longleftrightarrow> pages_ok pages s \<and> flags_ok s \<and> totals_ok n s"

lemma stream_start_ok: "0 < k \<Longrightarrow> stream_ok pages n (stream_start k n pages e)"
  by (auto simp: stream_ok_def pages_ok_def flags_ok_def totals_ok_def stream_start_def keys_def workers_keys_def
      page_keys_def intro!: exI [of _ 0])

lemma stream_act_ok: "stream_ok pages n s \<Longrightarrow> stream_act a x s = Some s' \<Longrightarrow> stream_ok pages n s'"
  by (auto simp: stream_ok_def intro: pages_act flags_act totals_act)

lemma stream_run_ok: "stream_ok pages n s \<Longrightarrow> stream_run a xs s = Some s' \<Longrightarrow> stream_ok pages n s'"
  by (induction xs arbitrary: s) (auto split: option.splits dest: stream_act_ok)

text \<open>What never changes.\<close>

lemma act_scan_workers:
  "stream_act a x s = Some s' \<Longrightarrow> sm_scan s' = sm_scan s \<and> length (sm_workers s') = length (sm_workers s)"
  by (cases x)
     (auto simp: producer_next_def producer_send_def producer_cancel_def produced_def worker_receive_def emitProgress_def
        worker_cancel_def stream_close_def aggregate_def Let_def
        split: if_splits list.splits producer.splits option.splits sum.splits stream_worker.splits)

lemma run_scan_workers:
  "stream_run a xs s = Some s' \<Longrightarrow> sm_scan s' = sm_scan s \<and> length (sm_workers s') = length (sm_workers s)"
  by (induction xs arbitrary: s) (fastforce split: option.splits dest: act_scan_workers)+

text \<open>Unless the caller's context ends, the context of the group is done only with an error of the group.\<close>

lemma group_return_blamed:
  "(sm_gctx s \<noteq> None \<longrightarrow> sm_err s \<noteq> None) \<Longrightarrow> sm_gctx (group_return r s) \<noteq> None \<longrightarrow> sm_err (group_return r s) \<noteq> None"
  by (auto simp: group_return_def split: option.splits)

lemma act_blamed:
  assumes "stream_act a x s = Some s'" and "\<forall>e. x \<noteq> CtxEnds e" and "sm_gctx s \<noteq> None \<longrightarrow> sm_err s \<noteq> None"
  shows "sm_gctx s' \<noteq> None \<longrightarrow> sm_err s' \<noteq> None"
  using assms
  by (cases x)
     (auto simp: producer_next_def producer_send_def producer_cancel_def produced_def worker_receive_def emitProgress_def
        worker_cancel_def stream_close_def aggregate_def Let_def group_return_def
        split: if_splits list.splits producer.splits option.splits sum.splits stream_worker.splits)

lemma run_blamed:
  "stream_run a xs s = Some s' \<Longrightarrow> \<forall>e. CtxEnds e \<notin> set xs \<Longrightarrow> sm_gctx s \<noteq> None \<longrightarrow> sm_err s \<noteq> None \<Longrightarrow>
     sm_gctx s' \<noteq> None \<longrightarrow> sm_err s' \<noteq> None"
proof (induction xs arbitrary: s)
  case (Cons x xs)
  then obtain t where t: "stream_act a x s = Some t" "stream_run a xs t = Some s'" by (auto split: option.splits)
  have "sm_gctx t \<noteq> None \<longrightarrow> sm_err t \<noteq> None" by (rule act_blamed [OF t(1)]) (use Cons.prems in auto)
  with Cons.IH [OF t(2)] Cons.prems(2) show ?case by simp
qed simp

text \<open>What is true of the calls of the callback at the end of a run without an error.\<close>

lemma finished_pages:
  assumes "stream_ok pages n s" and "finished s" and "sm_gctx s = None" and "sm_workers s \<noteq> []"
  shows "mset (map progress_key (sm_called s)) = page_keys pages (length pages)" and "scan_result (sm_scan s) = None"
proof -
  from assms(2,4) have "Exited \<in> set (sm_workers s)" by (cases "sm_workers s") (auto simp: finished_def)
  with assms have e: "sm_batchCh s = []" "sm_progressCh s = []"
    by (auto simp: stream_ok_def flags_ok_def finished_def)
  have "concat (map worker_keys (sm_workers s)) = []"
    using assms(2) by (auto simp: finished_def list_all_iff)
  with e have k: "keys s = mset (map progress_key (sm_called s))" by (simp add: keys_def workers_keys_def)
  from assms(1,2,3) show "scan_result (sm_scan s) = None"
    by (auto simp: stream_ok_def pages_ok_def finished_def)
  from assms(1,2,3) have "keys s = page_keys pages (length pages)"
    by (auto simp: stream_ok_def pages_ok_def finished_def)
  with k show "mset (map progress_key (sm_called s)) = page_keys pages (length pages)" by simp
qed

definition succeeded :: "Progress list \<Rightarrow> nat" where
  "succeeded ps = sum_list (map (\<lambda>p. length (pg_SuccessIDs p)) ps)"

lemma dispatchStream_keys:
  assumes "dispatchStream a None count' scan w1 w2 acts = Some (None, called)"
    and "fst (count' w1) = Inr n" and "n \<noteq> 0" and "0 < dc_WorkerCount (sa_cfg a)"
    and "\<forall>e. CtxEnds e \<notin> set acts"
    and "scanned scan (dc_BatchSize (sa_cfg a)) w2 = (scanErr, pages)"
  shows "(\<forall>e. scanErr = Some e \<longrightarrow> errors_Is e Canceled \<or> errors_Is e DeadlineExceeded) \<and>
    mset (map (\<lambda>p. (pg_ChunkIndex p, pg_ChunkSize p)) called) =
      mset (map (\<lambda>i. (word_of_nat i, word_of_nat (length (pages ! i)))) [0..<length pages]) \<and>
    (\<forall>j < length called. pg_TotalPlanned (called ! j) = word_of_int n \<and>
       pg_TotalDispatched (called ! j) = word_of_nat (succeeded (take (Suc j) called)))"
proof -
  let ?s0 = "stream_start (nat (dc_WorkerCount (sa_cfg a))) n pages scanErr"
  obtain s where run: "stream_run a acts ?s0 = Some s" and s: "finished s" "sm_err s = None" "called = sm_called s"
    using assms(1,2,3,6) by (auto simp: dispatchStream_def split: option.splits if_splits)
  have k: "0 < nat (dc_WorkerCount (sa_cfg a))" using assms(4) by simp
  have ok: "stream_ok pages n s" using stream_run_ok [OF stream_start_ok [OF k] run] .
  have g: "sm_gctx s = None" using run_blamed [OF run assms(5)] s(2) by (simp add: stream_start_def)
  have w: "sm_workers s \<noteq> []" "sm_scan s = scanErr"
    using run_scan_workers [OF run] k by (auto simp: stream_start_def)
  have "errors_Is e Canceled \<or> errors_Is e DeadlineExceeded" if "scanErr = Some e" for e
    using finished_pages(2) [OF ok s(1) g w(1)] w(2) that by (auto simp: scan_result_def split: if_splits)
  with finished_pages(1) [OF ok s(1) g w(1)] ok s(3) show ?thesis
    by (simp add: stream_ok_def totals_ok_def succeeded_def page_keys_def progress_key_def [abs_def])
qed

text \<open>C21: If the caller's context does not end and \<open>dispatchStream\<close> reports no error for a total that is
  not 0, then the scan ended without an error (or with that of a context), and the progress callback was called exactly once for
  every page the scan handed out, with the index and the size of that page (in some order); every call
  announces the same total, the one that was counted, and as \<open>TotalDispatched\<close> the number of successes up to
  and including this call, both cut to 32 bits.\<close>
theorem dispatchStream_complete:
  assumes "dispatchStream a None count' scan w1 w2 acts = Some (None, called)"
    and "fst (count' w1) = Inr n" and "n \<noteq> 0" and "0 < dc_WorkerCount (sa_cfg a)"
    and "\<forall>e. CtxEnds e \<notin> set acts"
    and "scanned scan (dc_BatchSize (sa_cfg a)) w2 = (scanErr, pages)"
  shows "(\<forall>e. scanErr = Some e \<longrightarrow> errors_Is e Canceled \<or> errors_Is e DeadlineExceeded) \<and>
    mset (map (\<lambda>p. (pg_ChunkIndex p, pg_ChunkSize p)) called) =
      mset (map (\<lambda>i. (word_of_nat i, word_of_nat (length (pages ! i)))) [0..<length pages]) \<and>
    (\<forall>j < length called. pg_TotalPlanned (called ! j) = word_of_int n \<and>
       pg_TotalDispatched (called ! j) = word_of_nat (succeeded (take (Suc j) called)))"
  by (rule dispatchStream_keys [OF assms])

subsection \<open>The batch calls cover the catalogue\<close>

lemma scanned_calm:
  "calm w \<Longrightarrow> scanned (UtCaseRepository_ScanByVersion v) size' w =
     (None, chunks (page_size size') (matching_cases (version_is v) (tabs w)))"
  "calm w \<Longrightarrow> scanned (UtCaseRepository_ScanByChannelVersion ch v) size' w =
     (None, chunks (page_size size') (matching_cases (channel_version_is ch v) (tabs w)))"
  unfolding scanned_def UtCaseRepository_ScanByVersion_def UtCaseRepository_ScanByChannelVersion_def
  by (simp_all add: scan_chunks run_batches_collect)

lemma counted_calm:
  "calm w \<Longrightarrow> fst (UtCaseRepository_CountByVersion v w) = Inr (int (length (matching_cases (version_is v) (tabs w))))"
  "calm w \<Longrightarrow> fst (UtCaseRepository_CountByChannelVersion ch v w) =
     Inr (int (length (matching_cases (channel_version_is ch v) (tabs w))))"
  unfolding UtCaseRepository_CountByVersion_def UtCaseRepository_CountByChannelVersion_def io_wrap_def
  by (simp_all add: count_calm)

lemma sum_keys:
  assumes "mset (map progress_key called) = page_keys pages (length pages)" and "length (concat pages) < 2 ^ 32"
  shows "sum_list (map (\<lambda>p. unat (pg_ChunkSize p)) called) = length (concat pages)"
proof -
  have small: "length (pages ! i) < 2 ^ 32" if "i < length pages" for i
  proof -
    have "length (pages ! i) \<le> length (concat pages)"
      unfolding length_concat using that by (intro member_le_sum_list) auto
    with assms(2) show ?thesis by simp
  qed
  have "sum_list (map (\<lambda>p. unat (pg_ChunkSize p)) called) = sum_mset (image_mset (unat \<circ> snd) (mset (map progress_key called)))"
    by (simp add: sum_mset_sum_list progress_key_def comp_def flip: mset_map)
  also have "\<dots> = sum_list (map (\<lambda>i. unat (word_of_nat (length (pages ! i)) :: int32)) [0..<length pages])"
    unfolding assms(1) page_keys_def by (simp add: sum_mset_sum_list comp_def flip: mset_map)
  also have "\<dots> = sum_list (map (\<lambda>i. length (pages ! i)) [0..<length pages])"
    using small by (intro arg_cong [where f = sum_list] map_cong refl) (simp add: unat_of_nat take_bit_nat_eq_self)
  also have "\<dots> = sum_list (map length pages)"
    by (metis (no_types, lifting) map_nth map_map comp_def map_eq_conv)
  finally show ?thesis by (simp add: length_concat)
qed

lemma dispatchStream_covers:
  assumes run: "dispatchStream a slot count' scan w1 w2 acts = Some (None, called)"
    and cnt: "fst (count' w1) = Inr (int (length (cases :: UtCase list)))" and k: "0 < dc_WorkerCount (sa_cfg a)"
    and ctx: "\<forall>e. CtxEnds e \<notin> set acts"
    and pages: "scanned scan (dc_BatchSize (sa_cfg a)) w2 = (scanErr, pages)" "concat pages = cases"
    and small: "length cases < 2 ^ 31"
  shows "sum_list (map (\<lambda>p. unat (pg_ChunkSize p)) called) = length cases \<and>
    (\<forall>p \<in> set called. pg_TotalPlanned p = word_of_nat (length cases))"
proof (cases "cases = []")
  case True
  with run cnt have "called = []" by (auto simp: dispatchStream_def split: option.splits)
  with True show ?thesis by simp
next
  case False
  from run have slot: "slot = None" by (auto simp: dispatchStream_def split: option.splits)
  have n: "int (length cases) \<noteq> 0" using False by simp
  note c = dispatchStream_keys [OF run [unfolded slot] cnt n k ctx pages(1)]
  have "mset (map progress_key called) = page_keys pages (length pages)"
    using c by (simp add: page_keys_def progress_key_def [abs_def])
  moreover have "length (concat pages) < 2 ^ 32" using pages(2) small by simp
  ultimately have "sum_list (map (\<lambda>p. unat (pg_ChunkSize p)) called) = length cases"
    using sum_keys pages(2) by blast
  moreover have "pg_TotalPlanned p = word_of_nat (length cases)" if "p \<in> set called" for p
  proof -
    from that obtain j where j: "j < length called" "p = called ! j" by (metis in_set_conv_nth)
    with c have "pg_TotalPlanned p = word_of_int (int (length cases))" by blast
    then show ?thesis by simp
  qed
  ultimately show ?thesis by blast
qed

text \<open>When the catalogue is the same for the count and for the scan, the database answers without
  errors, the caller's context does not end and \<open>ExecuteAllCases\<close> returns without an error, then the sizes of
  the reported chunks add up to the number of cases of that version, and every report announces exactly
  this number as planned: the call accounts for every case, whatever the order in which the workers finish.\<close>
theorem ExecuteAllCases_accounts_for_all:
  assumes "ExecuteAllCasesWithRequest cfg outbox rand slot requestID v user w1 w2 acts = Some (None, called)"
    and "calm w1" and "calm w2" and "t_cases (tabs w2) = t_cases (tabs w1)" and "t_coll (tabs w2) = t_coll (tabs w1)"
    and "length (matching_cases (version_is v) (tabs w1)) < 2 ^ 31" and "0 < dc_WorkerCount cfg"
    and "\<forall>e. CtxEnds e \<notin> set acts"
  shows "sum_list (map (\<lambda>p. unat (pg_ChunkSize p)) called) = length (matching_cases (version_is v) (tabs w1)) \<and>
    (\<forall>p \<in> set called. unat (pg_TotalPlanned p) = length (matching_cases (version_is v) (tabs w1)))"
proof -
  let ?cases = "matching_cases (version_is v) (tabs w1)"
  from assms(1) obtain rid where run: "dispatchStream \<lparr>sa_cfg = cfg, sa_outbox = outbox, sa_requestID = rid, sa_version = v, sa_user = user\<rparr>
      slot (UtCaseRepository_CountByVersion v) (UtCaseRepository_ScanByVersion v) w1 w2 acts = Some (None, called)"
    by (auto simp: ExecuteAllCasesWithRequest_def split: if_splits sum.splits)
  have same: "matching_cases (version_is v) (tabs w2) = ?cases"
    using assms(4,5) by (simp add: matching_cases_def version_is_def [abs_def])
  have "concat (chunks (page_size (dc_BatchSize cfg)) ?cases) = ?cases" by simp
  with dispatchStream_covers [OF run counted_calm(1) [OF assms(2)] _ assms(8) scanned_calm(1) [OF assms(3)]] assms(6,7)
  have "sum_list (map (\<lambda>p. unat (pg_ChunkSize p)) called) = length ?cases \<and>
      (\<forall>p \<in> set called. pg_TotalPlanned p = word_of_nat (length ?cases))" by (simp add: same)
  moreover have "unat (word_of_nat (length ?cases) :: int32) = length ?cases"
    using assms(6) by (simp add: unat_of_nat take_bit_nat_eq_self)
  ultimately show ?thesis by simp
qed

subsection \<open>The pipeline ends\<close>

primrec producer_weight :: "producer \<Rightarrow> nat" where
  "producer_weight Scanning = 1"
| "producer_weight (Offering b) = 7"
| "producer_weight Produced = 0"

primrec worker_weight :: "stream_worker \<Rightarrow> nat" where
  "worker_weight Receiving = 1"
| "worker_weight (Emitting p) = 4"
| "worker_weight Exited = 0"

definition work_left :: "stream \<Rightarrow> nat" where
  "work_left s = 8 * length (sm_pages s) + producer_weight (sm_producer s) + 5 * length (sm_batchCh s) +
     sum_list (map worker_weight (sm_workers s)) + 2 * length (sm_progressCh s) +
     (if sm_progressClosed s then 0 else 1) + (if sm_aggregating s then 1 else 0) + (if sm_gctx s = None then 1 else 0)"

lemma work_group_return: "work_left (group_return r s) \<le> work_left s"
  by (cases r; cases "sm_err s"; cases "sm_gctx s") (simp_all add: work_left_def group_return_def)

lemma work_set_worker:
  assumes "i < length (sm_workers s)"
  shows "work_left (set_worker i w s) + worker_weight (sm_workers s ! i) = work_left s + worker_weight w"
proof -
  let ?ws = "sm_workers s"
  have "?ws = take i ?ws @ ?ws ! i # drop (Suc i) ?ws" using assms by (rule id_take_nth_drop)
  then have "sum_list (map worker_weight ?ws) = sum_list (map worker_weight (take i ?ws @ ?ws ! i # drop (Suc i) ?ws))"
    by simp
  with assms show ?thesis by (simp add: work_left_def upd_conv_take_nth_drop)
qed

lemma work_produced: "sm_producer s \<noteq> Produced \<Longrightarrow> work_left (produced r s) < work_left s"
  unfolding produced_def
  by (rule le_less_trans [OF work_group_return]) (cases "sm_producer s"; simp add: work_left_def)

lemma work_worker_receive:
  assumes "worker_receive (handle_page a e) i s = Some s'"
  shows "work_left s' < work_left s"
proof -
  from assms have i: "i < length (sm_workers s)" "sm_workers s ! i = Receiving"
    by (auto simp: worker_receive_def split: if_splits)
  show ?thesis
  proof (cases "sm_batchCh s")
    case Nil
    with assms i have "s' = set_worker i Exited s" by (auto simp: worker_receive_def split: if_splits)
    with work_set_worker [OF i(1), of Exited] i show ?thesis by simp
  next
    case (Cons b bs)
    obtain p where p: "handle_page a e b = Inr p" by (rule handle_key)
    with assms i Cons have "s' = set_worker i (Emitting p) (s\<lparr>sm_batchCh := bs\<rparr>)" by (simp add: worker_receive_def)
    moreover have "work_left s = work_left (s\<lparr>sm_batchCh := bs\<rparr>) + 5" using Cons by (simp add: work_left_def)
    ultimately show ?thesis using work_set_worker [of i "s\<lparr>sm_batchCh := bs\<rparr>" "Emitting p"] i by simp
  qed
qed

lemma work_emit:
  assumes "emitProgress i s = Some s'"
  shows "work_left s' < work_left s"
proof -
  from assms obtain p where i: "i < length (sm_workers s)" "sm_workers s ! i = Emitting p"
    and s': "s' = set_worker i Receiving (s\<lparr>sm_progressCh := sm_progressCh s @ [p]\<rparr>)"
    by (auto simp: emitProgress_def split: if_splits stream_worker.splits)
  have "work_left (s\<lparr>sm_progressCh := sm_progressCh s @ [p]\<rparr>) = work_left s + 2" by (simp add: work_left_def)
  with work_set_worker [of i "s\<lparr>sm_progressCh := sm_progressCh s @ [p]\<rparr>" Receiving] i s' show ?thesis by simp
qed

lemma work_cancel:
  assumes "worker_cancel i s = Some s'"
  shows "work_left s' < work_left s"
proof -
  from assms obtain e where i: "i < length (sm_workers s)" "sm_workers s ! i \<noteq> Exited"
    and s': "s' = group_return (Some e) (set_worker i Exited s)"
    by (auto simp: worker_cancel_def split: if_splits option.splits)
  from i(2) have "0 < worker_weight (sm_workers s ! i)" by (cases "sm_workers s ! i") auto
  with work_set_worker [OF i(1), of Exited] work_group_return [of "Some e" "set_worker i Exited s"] s' show ?thesis by simp
qed

lemma work_aggregate:
  assumes "aggregate e s = Some s'"
  shows "work_left s' < work_left s"
proof -
  have ag: "sm_aggregating s" using assms by (auto simp: aggregate_def split: if_splits)
  show ?thesis
  proof (cases "sm_progressCh s")
    case Nil
    with assms ag show ?thesis by (auto simp: aggregate_def work_left_def split: if_splits)
  next
    case (Cons p ps)
    define t where "t = s\<lparr>sm_progressCh := ps, sm_called := sm_called s @ [announce p s],
                           sm_totalDispatched := sm_totalDispatched s + word_of_nat (length (pg_SuccessIDs p))\<rparr>"
    have t: "work_left t + 2 = work_left s" "work_left (t\<lparr>sm_aggregating := False\<rparr>) \<le> work_left t"
      using Cons by (simp_all add: t_def work_left_def)
    show ?thesis
    proof (cases e)
      case None
      with assms Cons ag t show ?thesis by (simp add: aggregate_def t_def Let_def)
    next
      case (Some err)
      with assms Cons ag have "s' = group_return (Some (wrap_prefix ''progress callback: '' err)) (t\<lparr>sm_aggregating := False\<rparr>)"
        by (simp add: aggregate_def t_def Let_def)
      with t work_group_return [of "Some (wrap_prefix ''progress callback: '' err)" "t\<lparr>sm_aggregating := False\<rparr>"]
      show ?thesis by simp
    qed
  qed
qed

lemma work_act:
  assumes "stream_act a x s = Some s'"
  shows "work_left s' < work_left s"
proof (cases x)
  case ProducerNext
  show ?thesis
  proof (cases "sm_pages s")
    case Nil
    with assms ProducerNext show ?thesis by (auto simp: producer_next_def work_produced split: if_splits)
  next
    case (Cons b bs)
    with assms ProducerNext show ?thesis by (auto simp: producer_next_def work_left_def split: if_splits)
  qed
next
  case ProducerSend
  with assms show ?thesis
    by (cases "sm_producer s") (auto simp: producer_send_def work_left_def split: if_splits)
next
  case ProducerCancel
  with assms show ?thesis by (auto simp: producer_cancel_def work_produced split: if_splits option.splits)
next
  case CloseProgress
  with assms show ?thesis by (auto simp: stream_close_def work_left_def split: if_splits)
next
  case (CtxEnds e)
  with assms show ?thesis by (auto simp: work_left_def split: if_splits)
qed (use assms work_worker_receive work_emit work_cancel work_aggregate in auto)

lemma work_run: "stream_run a xs s = Some s' \<Longrightarrow> length xs + work_left s' \<le> work_left s"
proof (induction xs arbitrary: s)
  case (Cons x xs)
  then obtain t where "stream_act a x s = Some t" "stream_run a xs t = Some s'" by (auto split: option.splits)
  with Cons.IH [of t] work_act [of a x s t] show ?case by simp
qed simp

text \<open>A step the pipeline can take by itself.\<close>

definition internal_step :: "stream_args \<Rightarrow> stream \<Rightarrow> bool" where
  "internal_step a s \<longleftrightarrow> (\<exists>x s'. (\<forall>e. x \<noteq> CtxEnds e) \<and> stream_act a x s = Some s')"

lemma no_internal_step: "\<not> internal_step a s \<Longrightarrow> \<forall>e. x \<noteq> CtxEnds e \<Longrightarrow> stream_act a x s = None"
  by (cases "stream_act a x s") (auto simp: internal_step_def)

text \<open>The producer is done or can move, unless the channel for the pages is full and the context runs.\<close>

lemma producer_moves:
  assumes "\<not> internal_step a s" and "sm_producer s \<noteq> Produced"
  shows "sm_gctx s = None \<and> sm_batchCh s \<noteq> [] \<or> sm_workers s = []"
proof (cases "sm_producer s")
  case Scanning
  then have "stream_act a ProducerNext s \<noteq> None" by (simp add: producer_next_def)
  with assms(1) show ?thesis using no_internal_step [of a s "ProducerNext"] by simp
next
  case (Offering b)
  have "sm_gctx s = None"
  proof (rule ccontr)
    assume "sm_gctx s \<noteq> None"
    then have "stream_act a ProducerCancel s \<noteq> None" using Offering by (auto simp: producer_cancel_def)
    with assms(1) show False using no_internal_step [of a s "ProducerCancel"] by simp
  qed
  moreover have "sm_batchCh s \<noteq> [] \<or> sm_workers s = []"
  proof (rule ccontr)
    assume "\<not> (sm_batchCh s \<noteq> [] \<or> sm_workers s = [])"
    then have "stream_act a ProducerSend s \<noteq> None" using Offering by (simp add: producer_send_def)
    with assms(1) show False using no_internal_step [of a s "ProducerSend"] by simp
  qed
  ultimately show ?thesis by blast
qed (use assms in simp)

lemma receiver_moves:
  assumes "\<not> internal_step a s" and "i < length (sm_workers s)" and "sm_workers s ! i = Receiving"
  shows "sm_batchCh s = [] \<and> \<not> sm_batchClosed s"
proof (rule ccontr)
  assume "\<not> (sm_batchCh s = [] \<and> \<not> sm_batchClosed s)"
  then have "stream_act a (WorkerReceive i undefined) s \<noteq> None"
    using assms(2,3) by (auto simp: worker_receive_def split: list.splits)
  with assms(1) show False using no_internal_step [of a s "WorkerReceive i undefined"] by simp
qed

lemma emitter_moves:
  assumes "\<not> internal_step a s" and "i < length (sm_workers s)" and "sm_workers s ! i = Emitting p"
  shows "sm_progressCh s \<noteq> [] \<and> sm_gctx s = None"
proof -
  have "sm_gctx s = None"
  proof (rule ccontr)
    assume "sm_gctx s \<noteq> None"
    then have "stream_act a (WorkerCancel i) s \<noteq> None" using assms(2,3) by (auto simp: worker_cancel_def)
    with assms(1) show False using no_internal_step [of a s "WorkerCancel i"] by simp
  qed
  moreover have "sm_progressCh s \<noteq> []"
  proof
    assume "sm_progressCh s = []"
    then have "stream_act a (WorkerEmit i) s \<noteq> None" using assms(2,3) by (auto simp: emitProgress_def)
    with assms(1) show False using no_internal_step [of a s "WorkerEmit i"] by simp
  qed
  ultimately show ?thesis by blast
qed

lemma aggregator_moves:
  assumes "\<not> internal_step a s" and "sm_aggregating s"
  shows "sm_progressCh s = [] \<and> \<not> sm_progressClosed s"
proof (rule ccontr)
  assume "\<not> (sm_progressCh s = [] \<and> \<not> sm_progressClosed s)"
  then have "stream_act a (Aggregate None) s \<noteq> None"
    using assms(2) by (auto simp: aggregate_def Let_def split: list.splits)
  with assms(1) show False using no_internal_step [of a s "Aggregate None"] by simp
qed

lemma closer_moves:
  assumes "\<not> internal_step a s" and "list_all (\<lambda>w. w = Exited) (sm_workers s)"
  shows "sm_progressClosed s"
proof (rule ccontr)
  assume "\<not> sm_progressClosed s"
  then have "stream_act a CloseProgress s \<noteq> None" using assms(2) by (simp add: stream_close_def)
  with assms(1) show False using no_internal_step [of a s "CloseProgress"] by simp
qed

lemma stuck_finished:
  assumes ok: "flags_ok s" and w: "sm_workers s \<noteq> []" and stuck: "\<not> internal_step a s"
  shows "finished s"
proof -
  have no_emitter: "sm_workers s ! i \<noteq> Emitting p" if i: "i < length (sm_workers s)" for i p
  proof
    assume e: "sm_workers s ! i = Emitting p"
    from emitter_moves [OF stuck i e] have pr: "sm_progressCh s \<noteq> []" "sm_gctx s = None" by auto
    then have "\<not> sm_aggregating s" using aggregator_moves [OF stuck] by blast
    with pr ok show False by (auto simp: flags_ok_def)
  qed
  have produced: "sm_producer s = Produced"
  proof (rule ccontr)
    assume p: "sm_producer s \<noteq> Produced"
    from producer_moves [OF stuck p] w have g: "sm_gctx s = None" "sm_batchCh s \<noteq> []" by auto
    from g ok have "Exited \<notin> set (sm_workers s)" by (auto simp: flags_ok_def)
    then have "sm_workers s ! 0 = Receiving" using w no_emitter [of 0]
      by (cases "sm_workers s ! 0") (auto simp: in_set_conv_nth)
    with receiver_moves [OF stuck, of 0] w g show False by auto
  qed
  have all: "list_all (\<lambda>w. w = Exited) (sm_workers s)"
  proof (unfold list_all_length, intro allI impI)
    fix i assume i: "i < length (sm_workers s)"
    have "sm_workers s ! i \<noteq> Receiving" using receiver_moves [OF stuck i] produced ok by (auto simp: flags_ok_def)
    with no_emitter [OF i] show "sm_workers s ! i = Exited" by (cases "sm_workers s ! i") auto
  qed
  from closer_moves [OF stuck all] have "sm_progressClosed s" .
  moreover from this have "\<not> sm_aggregating s" using aggregator_moves [OF stuck] by blast
  ultimately show ?thesis using produced all by (simp add: finished_def)
qed

text \<open>C25: The pipeline of a batch dispatch never hangs: whatever the order of its steps, whenever the caller's
  context ends and whatever the callback returns, a run from the start with \<open>k\<close> workers over some pages has at most
  \<open>8\<close> times as many steps as pages, plus \<open>k + 4\<close>, and in each state either all its functions have returned, so that
  \<open>dispatchStream\<close> returns, or one of them can go on by itself.\<close>
theorem pipeline_ends:
  assumes "0 < k" and "stream_run a acts (stream_start k n pages scanErr) = Some s"
  shows "length acts \<le> 8 * length pages + k + 4 \<and>
    (finished s \<or> (\<exists>x s'. (\<forall>e. x \<noteq> CtxEnds e) \<and> stream_act a x s = Some s'))"
proof -
  have "stream_ok pages n s" using stream_run_ok [OF stream_start_ok [OF assms(1)] assms(2)] .
  then have ok: "flags_ok s" by (simp add: stream_ok_def)
  have w: "sm_workers s \<noteq> []" using run_scan_workers [OF assms(2)] assms(1) by (auto simp: stream_start_def)
  have "work_left (stream_start k n pages scanErr) = 8 * length pages + k + 4"
    by (simp add: work_left_def stream_start_def sum_list_replicate)
  with work_run [OF assms(2)] stuck_finished [OF ok w] show ?thesis
    unfolding internal_step_def by auto
qed

subsection \<open>Runs of the pipeline\<close>

text \<open>Two cases of version v1, one per page, and a publisher that confirms everything.\<close>

definition demo_args :: stream_args where
  "demo_args = \<lparr>sa_cfg = demo_config\<lparr>dc_BatchSize := 1, dc_WorkerCount := 1\<rparr>, sa_outbox = True,
     sa_requestID = ''req'', sa_version = ''v1'', sa_user = ''amy''\<rparr>"

definition all_confirmed :: "ExecutionTask list \<Rightarrow> BatchResult \<times> goerr option" where
  "all_confirmed ts = (empty_result\<lparr>SuccessIDs := map tk_ExecutionID ts\<rparr>, None)"

definition demo_chunk_env :: chunk_env where
  "demo_chunk_env = \<lparr>ce_times = demo_chunk_times, ce_batchRun = all_confirmed, ce_world = demo_catalogue\<rparr>"

definition smooth_run :: "stream_action list" where
  "smooth_run = [ProducerNext, ProducerSend, WorkerReceive 0 demo_chunk_env, ProducerNext, WorkerEmit 0, ProducerSend,
     Aggregate None, WorkerReceive 0 demo_chunk_env, ProducerNext, WorkerEmit 0, WorkerReceive 0 demo_chunk_env,
     Aggregate None, CloseProgress, Aggregate None]"

definition cancelled_run :: "stream_action list" where
  "cancelled_run = [CtxEnds (Sentinel Canceled), ProducerCancel, WorkerReceive 0 demo_chunk_env, CloseProgress, Aggregate None]"

definition demo_batch :: "stream_action list \<Rightarrow> (goerr option \<times> Progress list) option" where
  "demo_batch acts = ExecuteAllCasesWithRequest (sa_cfg demo_args) True (Inl (ErrorsNew ''no entropy'')) None ''req'' ''v1'' ''amy''
     demo_catalogue demo_catalogue acts"

definition demo_called :: "Progress list" where
  "demo_called = (case demo_batch smooth_run of Some (None, called) \<Rightarrow> called | _ \<Rightarrow> [])"

lemma demo_smooth: "demo_batch smooth_run = Some (None, demo_called)"
  by code_simp

lemma demo_reports: "map (\<lambda>p. (pg_ChunkIndex p, pg_ChunkSize p, pg_TotalDispatched p, pg_TotalPlanned p)) demo_called
    = [(0, 1, 1, 2), (1, 1, 2, 2)]"
  by code_simp

lemma smooth_ctx: "\<forall>e. CtxEnds e \<notin> set smooth_run"
  by (simp add: smooth_run_def)

theorem ExecuteAllCases_accounts_for_all_witness:
  "sum_list (map (\<lambda>p. unat (pg_ChunkSize p)) demo_called) = 2"
proof -
  have "length (matching_cases (version_is ''v1'') (tabs demo_catalogue)) = 2" by code_simp
  moreover have "0 < dc_WorkerCount (sa_cfg demo_args)" by code_simp
  ultimately show ?thesis
    using ExecuteAllCases_accounts_for_all [OF demo_smooth [unfolded demo_batch_def] calm_demo calm_demo refl refl _ _ smooth_ctx]
    by simp
qed

theorem dispatchStream_complete_witness:
  "mset (map (\<lambda>p. (pg_ChunkIndex p, pg_ChunkSize p)) demo_called) = {#(0, 1), (1, 1)#}"
proof -
  let ?count = "UtCaseRepository_CountByVersion ''v1''" and ?scan = "UtCaseRepository_ScanByVersion ''v1''"
  let ?pages = "chunks 1 (matching_cases (version_is ''v1'') (tabs demo_catalogue))"
  have run: "dispatchStream demo_args None ?count ?scan demo_catalogue demo_catalogue smooth_run = Some (None, demo_called)"
    by code_simp
  have n: "fst (?count demo_catalogue) = Inr 2" by code_simp
  have w: "0 < dc_WorkerCount (sa_cfg demo_args)" by code_simp
  have "dc_BatchSize (sa_cfg demo_args) = 1" by code_simp
  then have sc: "scanned ?scan (dc_BatchSize (sa_cfg demo_args)) demo_catalogue = (None, ?pages)"
    by (simp add: scanned_calm [OF calm_demo] page_size_def)
  have l: "map (\<lambda>i. (word_of_nat i :: int32, word_of_nat (length (?pages ! i)) :: int32)) [0..<length ?pages] = [(0, 1), (1, 1)]"
    by code_simp
  from dispatchStream_complete [OF run n _ w smooth_ctx sc]
  have "mset (map (\<lambda>p. (pg_ChunkIndex p, pg_ChunkSize p)) demo_called) =
      mset (map (\<lambda>i. (word_of_nat i, word_of_nat (length (?pages ! i)))) [0..<length ?pages])" by simp
  then show ?thesis unfolding l by simp
qed

theorem pipeline_ends_witness:
  "length smooth_run \<le> 8 * 2 + 1 + 4"
proof -
  let ?pages = "chunks 1 (matching_cases (version_is ''v1'') (tabs demo_catalogue))"
  have "length ?pages = 2" by code_simp
  moreover have "stream_run demo_args smooth_run (stream_start 1 2 ?pages None) \<noteq> None" by code_simp
  ultimately show ?thesis using pipeline_ends [of 1 demo_args smooth_run 2 ?pages None] by auto
qed

text \<open>C26: A batch call can report success although it dispatched nothing. The producer keeps the error of a
  context that is done to itself, on the ground that the group records it; but a group made with
  \<open>errgroup.WithContext\<close> records only what its functions return. So if the caller's context ends, the producer
  returns no error and closes its channel; a worker whose \<open>select\<close> then takes the closed channel, not
  the context that is done as well, returns no error either; and \<open>ExecuteAllCases\<close> reports none. In this run two
  cases were waiting and the callback was never called.\<close>
theorem cancelled_dispatch_reports_success:
  "demo_batch cancelled_run = Some (None, []) \<and>
   length (matching_cases (version_is ''v1'') (tabs demo_catalogue)) = 2"
  by code_simp

end

