(* ===== verification/Machines.thy ===== *)
theory Machines
  imports Main
begin

text \<open>
  What the interleaved parts of the engine share: actions that are possible or not, runs of such actions, an
  invariant, and an abstract machine that the runs simulate. The run functions of the
  components are instances.
\<close>

locale machine =
  fixes act :: "'a \<Rightarrow> 's \<Rightarrow> 's option" and run :: "'a list \<Rightarrow> 's \<Rightarrow> 's option" and ok :: "'s \<Rightarrow> bool"
  assumes run_Nil: "run [] s = Some s"
    and run_Cons: "run (x # xs) s = (case act x s of None \<Rightarrow> None | Some s' \<Rightarrow> run xs s')"
    and keeps: "ok s \<Longrightarrow> act x s = Some s' \<Longrightarrow> ok s'"
begin

lemma run_keeps: "ok s \<Longrightarrow> run xs s = Some s' \<Longrightarrow> ok s'"
  by (induction xs arbitrary: s) (auto simp: run_Nil run_Cons split: option.splits dest: keeps)

lemma run_append: "run xs s = Some t \<Longrightarrow> run (xs @ ys) s = run ys t"
  by (induction xs arbitrary: s) (auto simp: run_Nil run_Cons split: option.splits)

end

locale simulation = machine act run ok
  for act :: "'a \<Rightarrow> 's \<Rightarrow> 's option" and run :: "'a list \<Rightarrow> 's \<Rightarrow> 's option" and ok :: "'s \<Rightarrow> bool" +
  fixes abs :: "'s \<Rightarrow> 'b" and step :: "'b \<Rightarrow> 'b \<Rightarrow> bool"
  assumes simulates: "ok s \<Longrightarrow> act x s = Some s' \<Longrightarrow> abs s' = abs s \<or> step (abs s) (abs s')"
begin

lemma run_simulates: "ok s \<Longrightarrow> run xs s = Some s' \<Longrightarrow> step\<^sup>*\<^sup>* (abs s) (abs s')"
proof (induction xs arbitrary: s)
  case (Cons x xs)
  then obtain t where t: "act x s = Some t" "run xs t = Some s'" by (auto simp: run_Cons split: option.splits)
  from Cons.IH [OF keeps [OF Cons.prems(1) t(1)] t(2)] simulates [OF Cons.prems(1) t(1)]
  show ?case by (auto intro: converse_rtranclp_into_rtranclp)
qed (simp add: run_Nil)

end

end
