(* ===== verification/Stream_Refinement.thy ===== *)
theory Stream_Refinement
  imports Dispatch_Stream Machines
begin

text \<open>
  The pipeline of producer, workers and aggregator refines a sequential reporter that has a bag of pages to
  report and reports them one at a time. The simulation holds for every interleaving and also for runs that end
  early: with the caller's context, with an error of the scan, of a worker or of the callback.
\<close>

subsection \<open>The sequential reporter\<close>

text \<open>Its state: the pages (index and size) that are still to be reported, and the reports made so far.\<close>

type_synonym reporter = "page_key multiset \<times> Progress list"

inductive report_step :: "int \<Rightarrow> reporter \<Rightarrow> reporter \<Rightarrow> bool" for n where
  report: "progress_key p \<in># todo \<Longrightarrow> pg_TotalPlanned p = word_of_int n \<Longrightarrow>
    pg_TotalDispatched p = word_of_nat (succeeded (ps @ [p])) \<Longrightarrow>
    report_step n (todo, ps) (todo - {#progress_key p#}, ps @ [p])"


definition abs_stream :: "UtCase list list \<Rightarrow> stream \<Rightarrow> reporter" where
  "abs_stream pages s =
     (page_keys pages (length pages) - mset (map progress_key (sm_called s)), sm_called s)"

lemma abs_start: "abs_stream pages (stream_start k n pages e) = (page_keys pages (length pages), [])"
  by (simp add: abs_stream_def stream_start_def)

subsection \<open>The simulation\<close>

lemma page_keys_mono: "k \<le> k' \<Longrightarrow> page_keys pages k \<subseteq># page_keys pages k'"
  by (induction k' rule: dec_induct) (auto simp: page_keys_Suc intro: subset_mset.order_trans)

lemma called_keys:
  assumes "pages_ok pages s"
  shows "mset (map progress_key (sm_called s)) \<subseteq># page_keys pages (length pages)"
proof -
  from assms obtain k where k: "k \<le> length pages" "keys s \<subseteq># page_keys pages k" by (auto simp: pages_ok_def)
  have "mset (map progress_key (sm_called s)) \<subseteq># keys s" by (simp add: keys_def)
  also note k(2)
  also have "page_keys pages k \<subseteq># page_keys pages (length pages)" using k(1) by (rule page_keys_mono)
  finally show ?thesis .
qed

text \<open>Only the aggregator calls the callback.\<close>

lemma act_called:
  assumes "stream_act a x s = Some s'"
  obtains "sm_called s' = sm_called s" | p where "sm_called s' = sm_called s @ [p]"
proof (cases "\<exists>e. x = Aggregate e")
  case True
  with assms obtain e where "aggregate e s = Some s'" by auto
  then show thesis by (cases rule: aggregate_cases) (use that in auto)
next
  case False
  with assms have "sm_called s' = sm_called s"
    by (cases x)
       (auto simp: producer_next_def producer_send_def producer_cancel_def produced_def worker_receive_def emitProgress_def
          worker_cancel_def stream_close_def split: if_splits list.splits producer.splits option.splits sum.splits stream_worker.splits)
  then show thesis by (rule that(1))
qed

lemma stream_simulation:
  assumes ok: "stream_ok pages n s" and act: "stream_act a x s = Some s'"
  shows "abs_stream pages s' = abs_stream pages s \<or> report_step n (abs_stream pages s) (abs_stream pages s')"
  using act
proof (cases rule: act_called)
  case 1
  then show ?thesis by (simp add: abs_stream_def)
next
  case (2 p)
  let ?all = "page_keys pages (length pages)" and ?called = "mset (map progress_key (sm_called s))"
  have ok': "stream_ok pages n s'" by (rule stream_act_ok [OF ok act])
  then have "add_mset (progress_key p) ?called \<subseteq># ?all"
    using called_keys [of pages s'] 2 by (simp add: stream_ok_def)
  from mset_subset_eq_count [OF this, of "progress_key p"]
  have todo: "progress_key p \<in># ?all - ?called" unfolding in_diff_count by simp
  have len: "length (sm_called s) < length (sm_called s')" "sm_called s' ! length (sm_called s) = p" using 2 by simp_all
  have totals: "pg_TotalPlanned p = word_of_int n" "pg_TotalDispatched p = word_of_nat (succeeded (sm_called s @ [p]))"
    using ok' len 2 by (auto simp: stream_ok_def totals_ok_def succeeded_def)
  have "report_step n (?all - ?called, sm_called s) (?all - ?called - {#progress_key p#}, sm_called s @ [p])"
    by (rule report_step.report [OF todo totals])
  then show ?thesis using 2 by (simp add: abs_stream_def)
qed

interpretation pipeline: simulation "stream_act a" "stream_run a" "stream_ok pages n" "abs_stream pages" "report_step n" for a pages n
  by unfold_locales (simp, simp, erule (1) stream_act_ok, erule (1) stream_simulation)

text \<open>The state behind a result of \<open>dispatchStream\<close>, if the pipeline was started at all.\<close>

lemma dispatchStream_state:
  assumes "dispatchStream a slot count' scan w1 w2 acts = Some (err, called)"
    and "fst (count' w1) = Inr n" and "0 < dc_WorkerCount (sa_cfg a)"
  obtains "called = []" | s pages where "stream_ok pages n s" "called = sm_called s"
proof (cases "slot = None \<and> n \<noteq> 0")
  case False
  with assms(1,2) have "called = []" by (auto simp: dispatchStream_def split: option.splits)
  then show thesis by (rule that(1))
next
  case True
  obtain scanErr pages where sc: "scanned scan (dc_BatchSize (sa_cfg a)) w2 = (scanErr, pages)" by fastforce
  let ?s0 = "stream_start (nat (dc_WorkerCount (sa_cfg a))) n pages scanErr"
  obtain s where run: "stream_run a acts ?s0 = Some s" and s: "called = sm_called s"
    using assms(1,2) sc True by (auto simp: dispatchStream_def split: option.splits if_splits)
  have k: "0 < nat (dc_WorkerCount (sa_cfg a))" using assms(3) by simp
  show thesis by (rule that(2) [OF stream_run_ok [OF stream_start_ok [OF k] run] s])
qed

text \<open>The totals the last report carries.\<close>

lemma dispatchStream_last:
  assumes "dispatchStream a slot count' scan w1 w2 acts = Some (err, called)"
    and "fst (count' w1) = Inr n" and "0 < dc_WorkerCount (sa_cfg a)" and "called \<noteq> []"
  shows "pg_TotalPlanned (last called) = word_of_int n" and "pg_TotalDispatched (last called) = word_of_nat (succeeded called)"
proof -
  obtain s pages where ok: "stream_ok pages n s" and s: "called = sm_called s"
    by (rule dispatchStream_state [OF assms(1-3)]) (use assms(4) in auto)
  from assms(4) have j: "length called - 1 < length called" "last called = called ! (length called - 1)"
    "take (Suc (length called - 1)) called = called" by (simp_all add: last_conv_nth)
  show "pg_TotalPlanned (last called) = word_of_int n" "pg_TotalDispatched (last called) = word_of_nat (succeeded called)"
    using ok j unfolding s stream_ok_def totals_ok_def succeeded_def by metis+
qed

text \<open>C22: The concurrent pipeline refines the sequential reporter: whatever the interleaving, and also when the
  caller's context ends or the scan, a worker or the callback fails, the calls of the progress callback are
  those of a run of the reporter over the pages of the scan: no page is reported that was not handed
  out, none is reported twice, and every report carries the right running totals.\<close>

theorem dispatchStream_refines_reporter:
  assumes "dispatchStream a None count' scan w1 w2 acts = Some (err, called)"
    and "fst (count' w1) = Inr n" and "0 < dc_WorkerCount (sa_cfg a)"
    and "scanned scan (dc_BatchSize (sa_cfg a)) w2 = (scanErr, pages)"
  shows "(report_step n)\<^sup>*\<^sup>* (page_keys pages (length pages), [])
    (page_keys pages (length pages) - mset (map progress_key called), called)"
proof (cases "n = 0")
  case True
  with assms(1,2) have "called = []" by (auto simp: dispatchStream_def)
  then show ?thesis by simp
next
  case False
  let ?s0 = "stream_start (nat (dc_WorkerCount (sa_cfg a))) n pages scanErr"
  obtain s where run: "stream_run a acts ?s0 = Some s" and s: "called = sm_called s"
    using assms(1,2,4) False by (auto simp: dispatchStream_def split: option.splits if_splits)
  have k: "0 < nat (dc_WorkerCount (sa_cfg a))" using assms(3) by simp
  from pipeline.run_simulates [OF stream_start_ok [OF k] run]
  show ?thesis unfolding abs_start by (simp add: abs_stream_def s)
qed

theorem dispatchStream_refines_reporter_witness:
  "(report_step 2)\<^sup>*\<^sup>* ({#(0, 1), (1, 1)#}, []) ({#}, demo_called)"
proof -
  let ?count = "UtCaseRepository_CountByVersion ''v1''" and ?scan = "UtCaseRepository_ScanByVersion ''v1''"
  let ?pages = "chunks 1 (matching_cases (version_is ''v1'') (tabs demo_catalogue))"
  have run: "dispatchStream demo_args None ?count ?scan demo_catalogue demo_catalogue smooth_run = Some (None, demo_called)"
    by code_simp
  have n: "fst (?count demo_catalogue) = Inr 2" by code_simp
  have w: "0 < dc_WorkerCount (sa_cfg demo_args)" by code_simp
  have "dc_BatchSize (sa_cfg demo_args) = 1" by code_simp
  then have sc: "scanned ?scan (dc_BatchSize (sa_cfg demo_args)) demo_catalogue = (None, ?pages)"
    by (simp add: scanned_calm [OF calm_demo] page_size_def)
  have "map (\<lambda>i. (word_of_nat i :: int32, word_of_nat (length (?pages ! i)) :: int32)) [0..<length ?pages] = [(0, 1), (1, 1)]"
    by code_simp
  then have all: "page_keys ?pages (length ?pages) = {#(0, 1), (1, 1)#}" unfolding page_keys_def by simp
  have "map progress_key demo_called = [(0, 1), (1, 1)]" by code_simp
  with dispatchStream_refines_reporter [OF run n w sc] all show ?thesis by simp
qed

end
