(* ===== verification/Stream_Accounts.thy ===== *)
theory Stream_Accounts
  imports Stream_Refinement
begin

text \<open>
  From chunks to batches: what every chunk promises about its cases carries over to the whole of a batch call,
  through the channels and goroutines of the pipeline.
\<close>

subsection \<open>From pages to reports\<close>

text \<open>The chunks a run dispatches: for each page a worker takes, its surroundings and the page.\<close>

fun chunk_runs :: "stream_args \<Rightarrow> stream_action list \<Rightarrow> stream \<Rightarrow> (chunk_env \<times> indexedBatch) list" where
  "chunk_runs a [] s = []"
| "chunk_runs a (x # xs) s =
     (case stream_act a x s of
        None \<Rightarrow> []
      | Some s' \<Rightarrow>
          (case (x, sm_batchCh s) of (WorkerReceive i e, b # bs) \<Rightarrow> [(e, b)] | _ \<Rightarrow> []) @ chunk_runs a xs s')"

text \<open>\<open>Q\<close> holds of the pages on their way to the workers, \<open>P\<close> of the reports on their way from them.\<close>

primrec producer_all :: "(UtCase list \<Rightarrow> bool) \<Rightarrow> producer \<Rightarrow> bool" where
  "producer_all Q Scanning = True"
| "producer_all Q (Offering b) = Q b"
| "producer_all Q Produced = True"

primrec worker_all :: "(Progress \<Rightarrow> bool) \<Rightarrow> stream_worker \<Rightarrow> bool" where
  "worker_all P Receiving = True"
| "worker_all P (Emitting p) = P p"
| "worker_all P Exited = True"

definition flow_ok :: "(UtCase list \<Rightarrow> bool) \<Rightarrow> (Progress \<Rightarrow> bool) \<Rightarrow> stream \<Rightarrow> bool" where
  "flow_ok Q P s \<longleftrightarrow>
     list_all Q (sm_pages s) \<and> producer_all Q (sm_producer s) \<and> list_all (\<lambda>b. Q (ib_Cases b)) (sm_batchCh s) \<and>
     list_all (worker_all P) (sm_workers s) \<and> list_all P (sm_progressCh s) \<and> list_all P (sm_called s)"

lemma flow_group_return [simp]: "flow_ok Q P (group_return r s) = flow_ok Q P s"
  by (simp add: flow_ok_def group_return_def split: option.split)

lemma flow_set_worker: "flow_ok Q P s \<Longrightarrow> worker_all P w \<Longrightarrow> flow_ok Q P (set_worker i w s)"
  by (auto simp: flow_ok_def set_worker_def list_all_iff dest!: set_update_subset_insert [THEN subsetD])

lemma flow_produced: "flow_ok Q P s \<Longrightarrow> flow_ok Q P (produced r s)"
  unfolding produced_def by (simp add: flow_ok_def)

lemma flow_start: "\<forall>b \<in> set pages. Q b \<Longrightarrow> flow_ok Q P (stream_start k n pages e)"
  by (auto simp: flow_ok_def stream_start_def list_all_iff)

text \<open>
  The contract between the pages, the chunks and the reports: what the dispatch of a page \<open>Q\<close> promises is \<open>P\<close>, which does
  not depend on the totals the aggregator fills in. Then all calls of the callback have it.
\<close>

locale page_flow =
  fixes a :: stream_args and R :: "(chunk_env \<times> indexedBatch) set" and Q :: "UtCase list \<Rightarrow> bool"
    and P :: "Progress \<Rightarrow> bool"
  assumes handled: "(e, b) \<in> R \<Longrightarrow> Q (ib_Cases b) \<Longrightarrow> handle_page a e b = Inr p \<Longrightarrow> P p"
    and announced: "P p \<Longrightarrow> P (announce p s)"
begin

lemma flow_act:
  assumes ok: "flow_ok Q P s" and act: "stream_act a x s = Some s'"
    and R: "\<And>i e b bs. x = WorkerReceive i e \<Longrightarrow> sm_batchCh s = b # bs \<Longrightarrow> (e, b) \<in> R"
  shows "flow_ok Q P s'"
proof (cases x)
  case ProducerNext
  with act ok show ?thesis
    by (auto simp: producer_next_def flow_produced split: if_splits list.splits) (auto simp: flow_ok_def)
next
  case ProducerSend
  with act ok show ?thesis by (auto simp: producer_send_def flow_ok_def split: if_splits producer.splits)
next
  case ProducerCancel
  with act ok show ?thesis by (auto simp: producer_cancel_def flow_produced split: if_splits option.splits)
next
  case (WorkerReceive i e)
  have tl: "sm_batchCh s = b # bs \<Longrightarrow> flow_ok Q P (s\<lparr>sm_batchCh := bs\<rparr>) \<and> Q (ib_Cases b)" for b bs
    using ok by (simp add: flow_ok_def)
  have "P p" if "sm_batchCh s = b # bs" "handle_page a e b = Inr p" for b bs p
    using handled [OF R [OF WorkerReceive that(1)] _ that(2)] tl [OF that(1)] by blast
  with WorkerReceive act ok tl show ?thesis
    by (auto simp: worker_receive_def intro!: flow_set_worker split: if_splits list.splits sum.splits)
next
  case (WorkerEmit i)
  with act obtain p where i: "i < length (sm_workers s)" "sm_workers s ! i = Emitting p"
    and s': "s' = set_worker i Receiving (s\<lparr>sm_progressCh := sm_progressCh s @ [p]\<rparr>)"
    by (auto simp: emitProgress_def split: if_splits stream_worker.splits)
  have "worker_all P (sm_workers s ! i)" using ok i(1) by (simp add: flow_ok_def list_all_length)
  then have "flow_ok Q P (s\<lparr>sm_progressCh := sm_progressCh s @ [p]\<rparr>)" using ok i(2) by (simp add: flow_ok_def)
  then show ?thesis unfolding s' by (rule flow_set_worker) simp
next
  case (WorkerCancel i)
  with act ok show ?thesis
    by (auto simp: worker_cancel_def intro!: flow_set_worker split: if_splits option.splits)
next
  case CloseProgress
  with act ok show ?thesis by (auto simp: stream_close_def flow_ok_def split: if_splits)
next
  case (Aggregate e)
  with act have "aggregate e s = Some s'" by simp
  then show ?thesis
  proof (cases rule: aggregate_cases)
    case 1
    with ok show ?thesis by (simp add: flow_ok_def)
  next
    case (2 p ps)
    with ok announced [of p s] show ?thesis by (simp add: flow_ok_def)
  qed
next
  case (CtxEnds e)
  with act ok show ?thesis by (auto simp: flow_ok_def split: if_splits)
qed

lemma flow_run:
  "flow_ok Q P s \<Longrightarrow> stream_run a xs s = Some s' \<Longrightarrow> set (chunk_runs a xs s) \<subseteq> R \<Longrightarrow> flow_ok Q P s'"
proof (induction xs arbitrary: s)
  case (Cons x xs)
  then obtain t where t: "stream_act a x s = Some t" "stream_run a xs t = Some s'" by (auto split: option.splits)
  have "flow_ok Q P t" by (rule flow_act [OF Cons.prems(1) t(1)]) (use Cons.prems(3) t(1) in auto)
  with Cons.IH t(2) Cons.prems(3) t(1) show ?case by simp
qed simp

lemma flow_called:
  assumes "stream_run a xs (stream_start k n pages e) = Some s" and "set (chunk_runs a xs (stream_start k n pages e)) \<subseteq> R"
    and "\<forall>b \<in> set pages. Q b"
  shows "list_all P (sm_called s)"
  using flow_run [OF flow_start [OF assms(3)] assms(1,2)] by (simp add: flow_ok_def)

end

subsection \<open>Which page a chunk is\<close>

text \<open>The pages in the channel are those of the scan, under their numbers.\<close>

definition page_at :: "UtCase list list \<Rightarrow> indexedBatch \<Rightarrow> bool" where
  "page_at pages b \<longleftrightarrow> (\<exists>k < length pages. ib_Index b = word_of_nat k \<and> ib_Cases b = pages ! k)"

lemma batches_act:
  assumes ok: "pages_ok pages s" and ch: "list_all (page_at pages) (sm_batchCh s)" and act: "stream_act a x s = Some s'"
  shows "list_all (page_at pages) (sm_batchCh s')"
proof (cases "x = ProducerSend")
  case True
  with act obtain b where b: "sm_producer s = Offering b"
    and s': "sm_batchCh s' = sm_batchCh s @ [\<lparr>ib_Index = sm_idx s, ib_Cases = b\<rparr>]"
    by (auto simp: producer_send_def split: producer.splits if_splits)
  from ok b obtain k where "k < length pages" "sm_idx s = word_of_nat k" "b = pages ! k" by (auto simp: pages_ok_def)
  with ch s' show ?thesis by (auto simp: page_at_def)
next
  case False
  with act have "sm_batchCh s' = sm_batchCh s \<or> sm_batchCh s' = tl (sm_batchCh s)"
    by (cases x)
       (auto simp: producer_next_def producer_cancel_def produced_def worker_receive_def emitProgress_def worker_cancel_def
          stream_close_def aggregate_def Let_def
          split: if_splits list.splits option.splits sum.splits stream_worker.splits)
  with ch show ?thesis by (cases "sm_batchCh s") auto
qed

lemma chunk_runs_pages:
  "stream_ok pages n s \<Longrightarrow> list_all (page_at pages) (sm_batchCh s) \<Longrightarrow> (e, b) \<in> set (chunk_runs a xs s) \<Longrightarrow> page_at pages b"
proof (induction xs arbitrary: s)
  case (Cons x xs)
  from Cons.prems(3) obtain t where t: "stream_act a x s = Some t" by (cases "stream_act a x s") auto
  with Cons.prems(3) consider bs where "sm_batchCh s = b # bs" | "(e, b) \<in> set (chunk_runs a xs t)"
    by (cases "sm_batchCh s") (auto split: stream_action.splits)
  then show ?case
  proof cases
    case 2
    have "pages_ok pages s" using Cons.prems(1) by (simp add: stream_ok_def)
    then show ?thesis
      using Cons.IH [OF stream_act_ok [OF Cons.prems(1) t] batches_act [OF _ Cons.prems(2) t] 2] by blast
  qed (use Cons.prems(2) in auto)
qed simp

subsection \<open>Putting the reports in the order of their pages\<close>

lemma reports_by_index:
  fixes idx :: "'p \<Rightarrow> int32"
  assumes "mset (map idx ps) = mset (map word_of_nat [0..<n])" and "n \<le> 2 ^ 32"
    and "\<forall>p \<in> set ps. \<exists>k < n. idx p = word_of_nat k \<and> R k p"
  obtains qs where "mset qs = mset ps" and "length qs = n" and "\<And>k. k < n \<Longrightarrow> R k (qs ! k)"
proof -
  have "list_all2 (\<lambda>i p. i = idx p) (map idx ps) ps" by (simp add: list_all2_conv_all_nth)
  from list_all2_reorder_left_invariance [OF this assms(1) [symmetric]] obtain qs where
      qs: "list_all2 (\<lambda>i p. i = idx p) (map word_of_nat [0..<n]) qs" "mset qs = mset ps" by blast
  have len: "length qs = n" using qs(1) by (simp add: list_all2_lengthD [symmetric])
  have "R k (qs ! k)" if k: "k < n" for k
  proof -
    have idx: "idx (qs ! k) = word_of_nat k" using qs(1) k by (simp add: list_all2_conv_all_nth)
    have "qs ! k \<in> set ps" using nth_mem [of k qs] k len qs(2) by (metis mset_eq_setD)
    with assms(3) obtain j where j: "j < n" "idx (qs ! k) = word_of_nat j" "R j (qs ! k)" by blast
    have unat: "unat (word_of_nat i :: int32) = i" if "i < 2 ^ 32" for i
      using that by (simp add: unat_of_nat take_bit_nat_eq_self)
    have "j < 2 ^ 32" "k < 2 ^ 32" using less_le_trans [OF _ assms(2)] j(1) k by blast+
    then have "j = k" using idx j(2) unat by metis
    with j(3) show ?thesis by simp
  qed
  with qs(2) len that show thesis by blast
qed

lemma collect_pieces:
  "list_all2 (\<lambda>xs q. \<exists>ys. mset ys = mset (f q) \<and> list_all2 R xs ys) xss qs \<Longrightarrow>
     \<exists>ys. mset ys = mset (concat (map f qs)) \<and> list_all2 R (concat xss) ys"
proof (induction rule: list_all2_induct)
  case (Cons xs xss q qs)
  then obtain us vs where "mset us = mset (f q)" "list_all2 R xs us"
    "mset vs = mset (concat (map f qs))" "list_all2 R (concat xss) vs" by blast
  then show ?case by (intro exI [of _ "us @ vs"]) (simp add: list_all2_appendI)
qed simp

lemma mset_concat_reorder: "mset qs = mset ps \<Longrightarrow> mset (concat (map f qs)) = mset (concat (map f ps))"
proof -
  have "mset (concat (map f xs)) = sum_mset (image_mset (mset \<circ> f) (mset xs))" for xs
    by (induction xs) simp_all
  then show "mset qs = mset ps \<Longrightarrow> ?thesis" by simp
qed

subsection \<open>The reports are true of the tables\<close>

text \<open>The tables in which a chunk finds the messages of its cases, and those it leaves; and what it is for tables
  \<open>t'\<close> to be those of a later time.\<close>

definition after_insert :: "stream_args \<Rightarrow> chunk_env \<Rightarrow> indexedBatch \<Rightarrow> tables" where
  "after_insert a e b =
     chunk_stored (sa_cfg a) (sa_outbox a) (ce_times e) b (sa_requestID a) (sa_version a) (sa_user a) (ce_world e)"

definition after_chunk :: "stream_args \<Rightarrow> chunk_env \<Rightarrow> indexedBatch \<Rightarrow> tables" where
  "after_chunk a e b =
     tabs (snd (dispatchOneBatch (sa_cfg a) (sa_outbox a) (ce_times e) (ce_batchRun e) b (sa_requestID a)
       (sa_version a) (sa_user a) (ce_world e)))"

definition precedes :: "stream_args \<Rightarrow> chunk_env \<times> indexedBatch \<Rightarrow> tables \<Rightarrow> bool" where
  "precedes a c t' \<longleftrightarrow> sound (ce_world (fst c)) \<and> exec_advance (after_chunk a (fst c) (snd c)) t' \<and>
     outbox_advance (after_chunk a (fst c) (snd c)) t'"

definition row_in :: "OutboxState \<Rightarrow> int64 \<Rightarrow> tables \<Rightarrow> bool" where
  "row_in st i t \<longleftrightarrow> list_ex (\<lambda>q. po_ExecutionID q = i \<and> po_State q = st) (t_outbox t)"

text \<open>What the report \<open>p\<close> of chunk \<open>c\<close> says of \<open>t'\<close>: the ids are those of the executions of the page's cases; a
  failed id is DEAD; a successful one is PUBLISHED, because it was confirmed or had been PUBLISHED when the
  chunk found it, or it was in the hands of a relay then.\<close>

definition report_ids :: "stream_args \<Rightarrow> tables \<Rightarrow> UtCase list \<Rightarrow> Progress \<Rightarrow> bool" where
  "report_ids a t' cs p \<longleftrightarrow> (\<exists>ids. mset ids = mset (pg_SuccessIDs p @ pg_FailedIDs p) \<and>
     list_all2 (case_execution t' (sa_requestID a) (sa_version a)) cs ids)"

definition report_rows :: "stream_args \<Rightarrow> tables \<Rightarrow> chunk_env \<times> indexedBatch \<Rightarrow> Progress \<Rightarrow> bool" where
  "report_rows a t' c p \<longleftrightarrow>
     (\<forall>i \<in> set (pg_FailedIDs p). row_in OutboxDead i t') \<and>
     (\<forall>i \<in> set (pg_SuccessIDs p).
        row_in OutboxPublished i t' \<and>
          ((\<exists>ts. delivered (fst (ce_batchRun (fst c) ts)) i) \<or> row_in OutboxPublished i (after_insert a (fst c) (snd c))) \<or>
        row_in OutboxProcessing i (after_insert a (fst c) (snd c)))"

definition report_true :: "stream_args \<Rightarrow> tables \<Rightarrow> chunk_env \<times> indexedBatch \<Rightarrow> Progress \<Rightarrow> bool" where
  "report_true a t' c p \<longleftrightarrow> pg_ChunkIndex p = ib_Index (snd c) \<and>
     (pg_ChunkError p = '''' \<longrightarrow>
        report_ids a t' (ib_Cases (snd c)) p \<and> (sa_outbox a \<longrightarrow> report_rows a t' c p))"

lemma row_in_stays:
  assumes "tables_ok t" and "outbox_advance t t'" and "row_in st i t" and "settled st"
  shows "row_in st i t'"
  using assms settled_stays [OF assms(1,2)] by (fastforce simp: row_in_def list_ex_iff)

lemma chunk_tables:
  assumes "precedes a (e, b) t'"
  shows "tables_ok (after_chunk a e b)" and "tables_ok t'"
proof -
  have s: "sound (ce_world e)" using assms by (simp add: precedes_def)
  show "tables_ok (after_chunk a e b)"
    using sound_step [OF s exec_store.chunk_guarantees outbox_store.chunk_guarantees prod.collapse [symmetric]]
    by (auto simp: sound_def after_chunk_def)
  with assms show "tables_ok t'" by (simp add: precedes_def outbox_advance_def keeps_ok_def)
qed

lemma handle_ids:
  assumes "sa_requestID a \<noteq> ''''" and "precedes a (e, b) t'" and "handle_page a e b = Inr p" and "pg_ChunkError p = ''''"
  shows "report_ids a t' (ib_Cases b) p"
proof -
  let ?m = "dispatchOneBatch (sa_cfg a) (sa_outbox a) (ce_times e) (ce_batchRun e) b (sa_requestID a) (sa_version a) (sa_user a)"
  obtain w' where run: "?m (ce_world e) = (Inr p, w')"
    using assms(3) by (cases "?m (ce_world e)") (simp add: handle_page_def)
  then have t: "tabs w' = after_chunk a e b" by (simp add: after_chunk_def)
  have s: "sound (ce_world e)" and l: "exec_advance (tabs w') t'" "t_coll t' = t_coll (tabs w')"
    using assms(2) by (simp_all add: precedes_def t outbox_advance_def keeps_ok_def)
  from dispatch_chunk_answers [OF run s assms(1)] assms(4) obtain ids where
      "mset ids = mset (pg_SuccessIDs p @ pg_FailedIDs p)"
      "list_all2 (case_execution (tabs w') (sa_requestID a) (sa_version a)) (ib_Cases b) ids" by auto
  moreover from this(2) have "list_all2 (case_execution t' (sa_requestID a) (sa_version a)) (ib_Cases b) ids"
    by (rule list_all2_mono) (rule case_execution_stays [OF _ l])
  ultimately show ?thesis by (auto simp: report_ids_def)
qed

lemma handle_rows:
  assumes "sa_outbox a" and "sa_requestID a \<noteq> ''''" and "precedes a (e, b) t'"
    and "handle_page a e b = Inr p" and clean: "pg_ChunkError p = ''''"
  shows "report_rows a t' (e, b) p"
proof -
  let ?m = "dispatchOneBatch (sa_cfg a) True (ce_times e) (ce_batchRun e) b (sa_requestID a) (sa_version a) (sa_user a)"
  obtain w' where run: "?m (ce_world e) = (Inr p, w')"
    using assms(1,4) by (cases "?m (ce_world e)") (simp add: handle_page_def)
  then have t: "tabs w' = after_chunk a e b" using assms(1) by (simp add: after_chunk_def)
  have s: "sound (ce_world e)" and l: "outbox_advance (tabs w') t'" using assms(3) by (simp_all add: precedes_def t)
  note c = dispatch_chunk_clean [OF run s assms(2) clean]
  have i: "after_insert a e b = chunk_stored (sa_cfg a) True (ce_times e) b (sa_requestID a) (sa_version a) (sa_user a) (ce_world e)"
    using assms(1) by (simp add: after_insert_def)
  have ok: "tables_ok (tabs w')" "tables_ok (after_insert a e b)"
    using chunk_tables(1) [OF assms(3)] c s by (simp_all add: t i outbox_advance_def keeps_ok_def sound_def)
  have adv: "outbox_advance (after_insert a e b) t'"
    using c outbox_advance_trans [OF _ l] by (auto simp: i)
  have later: "row_in st j t'" if "settled st" "row_in st j (tabs w')" for st j
    by (rule row_in_stays [OF ok(1) l that(2,1)])
  have stays: "row_in OutboxPublished j t'" if "row_in OutboxPublished j (after_insert a e b)" for j
    by (rule row_in_stays [OF ok(2) adv that]) (simp add: settled_def)
  have "row_in OutboxDead j t'" if "j \<in> set (pg_FailedIDs p)" for j
    by (rule later) (use c that in \<open>auto simp: row_in_def list_ex_iff settled_def\<close>)
  moreover have "row_in OutboxPublished j t' \<and>
      ((\<exists>ts. delivered (fst (ce_batchRun e ts)) j) \<or> row_in OutboxPublished j (after_insert a e b)) \<or>
      row_in OutboxProcessing j (after_insert a e b)" if "j \<in> set (pg_SuccessIDs p)" for j
  proof -
    from c that consider "\<exists>ts. delivered (fst (ce_batchRun e ts)) j" "row_in OutboxPublished j (tabs w')"
      | "row_in OutboxPublished j (after_insert a e b)" | "row_in OutboxProcessing j (after_insert a e b)"
      unfolding row_in_def list_ex_iff i by blast
    then show ?thesis using later [of OutboxPublished j] stays [of j] by cases (auto simp: settled_def)
  qed
  ultimately show ?thesis by (simp add: report_rows_def)
qed

interpretation truth: page_flow a "C \<inter> {c. sa_requestID a \<noteq> '''' \<and> precedes a c t'}" "\<lambda>_. True"
  "\<lambda>p. \<exists>c \<in> C. report_true a t' c p" for a C t'
proof (unfold_locales, goal_cases)
  case (1 e b p)
  obtain p' where "handle_page a e b = Inr p'" "progress_key p' = batch_key b" by (rule handle_key)
  with 1(3) have "pg_ChunkIndex p = ib_Index b" by (simp add: progress_key_def batch_key_def)
  with 1 have "report_true a t' (e, b) p" by (auto simp: report_true_def intro: handle_ids handle_rows)
  with 1(1) show ?case by blast
next
  case (2 p s)
  then show ?case by (simp add: report_true_def report_ids_def report_rows_def announce_def)
qed

text \<open>The chunks of a call, and what its reports are.\<close>

definition stream_chunks :: "stream_args \<Rightarrow> int \<Rightarrow> UtCase list list \<Rightarrow> goerr option \<Rightarrow> stream_action list \<Rightarrow> (chunk_env \<times> indexedBatch) list" where
  "stream_chunks a n pages scanErr acts = chunk_runs a acts (stream_start (nat (dc_WorkerCount (sa_cfg a))) n pages scanErr)"

lemma dispatchStream_true:
  assumes "dispatchStream a slot count' scan w1 w2 acts = Some (err, called)"
    and "fst (count' w1) = Inr n" and "scanned scan (dc_BatchSize (sa_cfg a)) w2 = (scanErr, pages)"
    and "sa_requestID a \<noteq> ''''"
    and "\<forall>c \<in> set (stream_chunks a n pages scanErr acts). precedes a c t'"
    and "p \<in> set called"
  shows "\<exists>c \<in> set (stream_chunks a n pages scanErr acts). report_true a t' c p"
proof -
  let ?s0 = "stream_start (nat (dc_WorkerCount (sa_cfg a))) n pages scanErr"
  from assms(1,2,3,6) obtain s where run: "stream_run a acts ?s0 = Some s" and called: "called = sm_called s"
    by (auto simp: dispatchStream_def split: option.splits if_splits)
  have "set (chunk_runs a acts ?s0) \<subseteq> set (stream_chunks a n pages scanErr acts) \<inter> {c. sa_requestID a \<noteq> '''' \<and> precedes a c t'}"
    using assms(4,5) by (auto simp: stream_chunks_def)
  then have "list_all (\<lambda>p. \<exists>c \<in> set (stream_chunks a n pages scanErr acts). report_true a t' c p) (sm_called s)"
    by (intro truth.flow_called [OF run]) auto
  with assms(6) show ?thesis by (simp add: called list_all_iff)
qed

text \<open>C14: What a batch call reports is true when it is over: let the chunks of the call run on tables in order, each
  from whatever the tables were at that time, with anything in between and beside them that loses no executions and no
  messages, and let \<open>t'\<close> be any later tables. Then every report without an error that the callback was given is that of
  one of these chunks, and for it each failed id has a DEAD message in \<open>t'\<close>; and for each successful id either
  the message is PUBLISHED in \<open>t'\<close>, and the publisher confirmed it for this chunk or it was PUBLISHED already
  when the chunk found it, or when the chunk found it the message was in the hands of a relay; even if
  the call itself was cancelled or failed.\<close>

theorem batch_reports_are_true:
  assumes "dispatchStream a slot count' scan w1 w2 acts = Some (err, called)"
    and "fst (count' w1) = Inr n" and "scanned scan (dc_BatchSize (sa_cfg a)) w2 = (scanErr, pages)"
    and "sa_outbox a" and "sa_requestID a \<noteq> ''''"
    and "\<forall>c \<in> set (stream_chunks a n pages scanErr acts). precedes a c t'"
    and "p \<in> set called" and "pg_ChunkError p = ''''"
  shows "\<exists>(e, b) \<in> set (stream_chunks a n pages scanErr acts).
    pg_ChunkIndex p = ib_Index b \<and>
    (\<forall>i \<in> set (pg_FailedIDs p). \<exists>q \<in> set (t_outbox t'). po_ExecutionID q = i \<and> po_State q = OutboxDead) \<and>
    (\<forall>i \<in> set (pg_SuccessIDs p).
       (\<exists>q \<in> set (t_outbox t'). po_ExecutionID q = i \<and> po_State q = OutboxPublished) \<and>
         ((\<exists>ts. delivered (fst (ce_batchRun e ts)) i) \<or>
          (\<exists>q \<in> set (t_outbox (after_insert a e b)). po_ExecutionID q = i \<and> po_State q = OutboxPublished)) \<or>
       (\<exists>q \<in> set (t_outbox (after_insert a e b)). po_ExecutionID q = i \<and> po_State q = OutboxProcessing))"
proof -
  from dispatchStream_true [OF assms(1-3,5-7)] obtain e b where c: "(e, b) \<in> set (stream_chunks a n pages scanErr acts)"
    and "report_true a t' (e, b) p" by auto
  with assms(4,8) have "pg_ChunkIndex p = ib_Index b" "report_rows a t' (e, b) p" by (simp_all add: report_true_def)
  with c show ?thesis by (intro bexI [of _ "(e, b)"]) (simp_all add: report_rows_def row_in_def list_ex_iff)
qed

text \<open>Two chunks one after the other on the same tables.\<close>

definition demo_page :: "nat \<Rightarrow> indexedBatch" where
  "demo_page i = \<lparr>ib_Index = word_of_nat i,
     ib_Cases = chunks 1 (matching_cases (version_is ''v1'') (tabs demo_catalogue)) ! i\<rparr>"

definition demo_between :: world where
  "demo_between = snd (dispatchOneBatch (sa_cfg demo_args) (sa_outbox demo_args) (ce_times demo_chunk_env)
     (ce_batchRun demo_chunk_env) (demo_page 0) (sa_requestID demo_args) (sa_version demo_args) (sa_user demo_args) demo_catalogue)"

definition demo_chunk_env2 :: chunk_env where
  "demo_chunk_env2 = demo_chunk_env\<lparr>ce_world := demo_between\<rparr>"

definition consecutive_run :: "stream_action list" where
  "consecutive_run = [ProducerNext, ProducerSend, WorkerReceive 0 demo_chunk_env, ProducerNext, WorkerEmit 0, ProducerSend,
     Aggregate None, WorkerReceive 0 demo_chunk_env2, ProducerNext, WorkerEmit 0, WorkerReceive 0 demo_chunk_env,
     Aggregate None, CloseProgress, Aggregate None]"

definition demo_end :: tables where
  "demo_end = after_chunk demo_args demo_chunk_env2 (demo_page 1)"

lemma consecutive_chunks:
  "chunk_runs demo_args consecutive_run
     (stream_start 1 n (chunks 1 (matching_cases (version_is ''v1'') (tabs demo_catalogue))) None) =
   [(demo_chunk_env, demo_page 0), (demo_chunk_env2, demo_page 1)]"
proof -
  let ?pages = "chunks 1 (matching_cases (version_is ''v1'') (tabs demo_catalogue))"
  have "length ?pages = 2" by code_simp
  then obtain c0 c1 where pages: "?pages = [c0, c1]" by (auto simp: length_Suc_conv numeral_2_eq_2)
  then have b: "demo_page 0 = \<lparr>ib_Index = 0, ib_Cases = c0\<rparr>" "demo_page 1 = \<lparr>ib_Index = 1, ib_Cases = c1\<rparr>"
    by (simp_all add: demo_page_def)
  obtain p0 where p0: "handle_page demo_args demo_chunk_env \<lparr>ib_Index = 0, ib_Cases = c0\<rparr> = Inr p0" by (rule handle_key)
  obtain p1 where p1: "handle_page demo_args demo_chunk_env2 \<lparr>ib_Index = 1, ib_Cases = c1\<rparr> = Inr p1" by (rule handle_key)
  show ?thesis
    unfolding pages b consecutive_run_def
    by (simp add: stream_start_def producer_next_def producer_send_def produced_def scan_result_def group_return_def
        worker_receive_def set_worker_def emitProgress_def aggregate_def stream_close_def p0 p1)
qed

lemma demo_chunk_sound:
  assumes "sound (ce_world e)"
  shows "exec_advance (tabs (ce_world e)) (after_chunk a e b)" and "outbox_advance (tabs (ce_world e)) (after_chunk a e b)" and
    "sound (snd (dispatchOneBatch (sa_cfg a) (sa_outbox a) (ce_times e) (ce_batchRun e) b (sa_requestID a)
       (sa_version a) (sa_user a) (ce_world e)))"
  using sound_step [OF assms exec_store.chunk_guarantees outbox_store.chunk_guarantees prod.collapse [symmetric]]
  by (auto simp: after_chunk_def)

lemma demo_precedes:
  "precedes demo_args (demo_chunk_env, demo_page 0) demo_end" "precedes demo_args (demo_chunk_env2, demo_page 1) demo_end"
proof -
  have s1: "sound (ce_world demo_chunk_env)" by (simp add: demo_chunk_env_def sound_demo)
  note c1 = demo_chunk_sound [OF s1, of demo_args "demo_page 0"]
  have w: "after_chunk demo_args demo_chunk_env (demo_page 0) = tabs (ce_world demo_chunk_env2)"
    and s2: "sound (ce_world demo_chunk_env2)"
    using c1(3) by (simp_all add: demo_chunk_env2_def demo_between_def after_chunk_def demo_chunk_env_def)
  note c2 = demo_chunk_sound [OF s2, of demo_args "demo_page 1"]
  show "precedes demo_args (demo_chunk_env, demo_page 0) demo_end"
    using s1 c2(1,2) by (simp add: precedes_def w demo_end_def)
  show "precedes demo_args (demo_chunk_env2, demo_page 1) demo_end"
    using s2 by (simp add: precedes_def demo_end_def oadv.refl adv.refl)
qed

lemma demo_stored:
  "list_all (\<lambda>q. po_State q = OutboxPending) (t_outbox (after_insert demo_args demo_chunk_env (demo_page 0)))"
  "list_all (\<lambda>q. po_ExecutionID q = 1 \<longrightarrow> po_State q = OutboxPublished) (t_outbox (after_insert demo_args demo_chunk_env2 (demo_page 1)))"
  by code_simp+

theorem batch_reports_are_true_witness:
  "\<exists>q \<in> set (t_outbox demo_end). po_ExecutionID q = 1 \<and> po_State q = OutboxPublished"
proof -
  let ?count = "UtCaseRepository_CountByVersion ''v1''" and ?scan = "UtCaseRepository_ScanByVersion ''v1''"
  let ?pages = "chunks 1 (matching_cases (version_is ''v1'') (tabs demo_catalogue))"
  have n: "fst (?count demo_catalogue) = Inr 2" by code_simp
  have size1: "dc_BatchSize (sa_cfg demo_args) = 1" and w1: "dc_WorkerCount (sa_cfg demo_args) = 1" by code_simp+
  have sc: "scanned ?scan (dc_BatchSize (sa_cfg demo_args)) demo_catalogue = (None, ?pages)"
    by (simp add: scanned_calm [OF calm_demo] page_size_def size1)
  have a: "sa_outbox demo_args" "sa_requestID demo_args \<noteq> ''''" by (simp_all add: demo_args_def)
  have runs: "stream_chunks demo_args 2 ?pages None consecutive_run = [(demo_chunk_env, demo_page 0), (demo_chunk_env2, demo_page 1)]"
  proof -
    have "nat (dc_WorkerCount (sa_cfg demo_args)) = 1" by (simp add: w1)
    then show ?thesis by (simp only: stream_chunks_def consecutive_chunks)
  qed
  have prec: "\<forall>c \<in> set (stream_chunks demo_args 2 ?pages None consecutive_run). precedes demo_args c demo_end"
    unfolding runs using demo_precedes by simp
  have "case dispatchStream demo_args None ?count ?scan demo_catalogue demo_catalogue consecutive_run of
      Some (None, p # ps) \<Rightarrow> pg_ChunkError p = '''' \<and> pg_SuccessIDs p = [1] | _ \<Rightarrow> False" by code_simp
  then obtain p ps where run: "dispatchStream demo_args None ?count ?scan demo_catalogue demo_catalogue consecutive_run = Some (None, p # ps)"
    and p: "pg_ChunkError p = ''''" "pg_SuccessIDs p = [1]"
    by (simp split: option.split_asm prod.split_asm list.split_asm)
  have "\<not> (\<exists>q \<in> set (t_outbox (after_insert demo_args e b)). po_ExecutionID q = 1 \<and> po_State q = OutboxProcessing)"
    if "(e, b) \<in> set (stream_chunks demo_args 2 ?pages None consecutive_run)" for e b
    using that demo_stored unfolding runs by (auto simp: list_all_iff)
  with batch_reports_are_true [OF run n sc a prec _ p(1)] p(2) show ?thesis by fastforce
qed

subsection \<open>Every case has its answer\<close>

lemma chunk_length_total: "b \<in> set (chunks n xs) \<Longrightarrow> length b \<le> length xs"
proof -
  assume "b \<in> set (chunks n xs)"
  then have "length b \<le> sum_list (map length (chunks n xs))" by (intro member_le_sum_list) auto
  then show "length b \<le> length xs" by (simp flip: length_concat)
qed

lemma length_chunks_le: "length (chunks n xs) \<le> length xs"
  by (induction n xs rule: chunks.induct) (auto intro: order_trans [OF _ diff_le_self])

text \<open>The call as \<open>dispatchStream\<close> gets it, the cases it is about, and its chunks.\<close>

definition call_args :: "DispatchConfig \<Rightarrow> bool \<Rightarrow> string \<Rightarrow> Version \<Rightarrow> string \<Rightarrow> stream_args" where
  "call_args cfg outbox rid v user =
     \<lparr>sa_cfg = cfg, sa_outbox = outbox, sa_requestID = rid, sa_version = v, sa_user = user\<rparr>"

definition call_cases :: "Version \<Rightarrow> world \<Rightarrow> UtCase list" where
  "call_cases v w = matching_cases (version_is v) (tabs w)"

definition call_chunks :: "stream_args \<Rightarrow> world \<Rightarrow> stream_action list \<Rightarrow> (chunk_env \<times> indexedBatch) list" where
  "call_chunks a w acts =
     (let cs = call_cases (sa_version a) w
      in stream_chunks a (int (length cs)) (chunks (page_size (dc_BatchSize (sa_cfg a))) cs) None acts)"

text \<open>If all reports are free of errors, they are together what the sequence of the pages asks for.\<close>

lemma dispatchStream_ids:
  assumes run: "dispatchStream a None count' scan w1 w2 acts = Some (None, called)"
    and cnt: "fst (count' w1) = Inr n" and n: "n \<noteq> 0" and k: "0 < dc_WorkerCount (sa_cfg a)"
    and ctx: "\<forall>e. CtxEnds e \<notin> set acts" and pages: "scanned scan (dc_BatchSize (sa_cfg a)) w2 = (scanErr, pages)"
    and small: "length pages \<le> 2 ^ 32" and rid: "sa_requestID a \<noteq> ''''"
    and prec: "\<forall>c \<in> set (stream_chunks a n pages scanErr acts). precedes a c t'"
    and clean: "\<forall>p \<in> set called. pg_ChunkError p = ''''"
  shows "\<exists>ids. mset ids = mset (concat (map (\<lambda>p. pg_SuccessIDs p @ pg_FailedIDs p) called)) \<and>
    list_all2 (case_execution t' (sa_requestID a) (sa_version a)) (concat pages) ids"
proof -
  let ?f = "\<lambda>p. pg_SuccessIDs p @ pg_FailedIDs p"
  have "mset (map (\<lambda>p. (pg_ChunkIndex p, pg_ChunkSize p)) called) =
      mset (map (\<lambda>i. (word_of_nat i, word_of_nat (length (pages ! i)))) [0..<length pages])"
    using dispatchStream_keys [OF run cnt n k ctx pages] by blast
  then have "image_mset fst (mset (map (\<lambda>p. (pg_ChunkIndex p, pg_ChunkSize p)) called)) =
      image_mset fst (mset (map (\<lambda>i. (word_of_nat i, word_of_nat (length (pages ! i)) :: int32)) [0..<length pages]))" by simp
  then have index: "mset (map pg_ChunkIndex called) = mset (map word_of_nat [0..<length pages])"
    by (simp flip: mset_map add: comp_def)
  have "\<exists>k < length pages. pg_ChunkIndex p = word_of_nat k \<and> report_ids a t' (pages ! k) p" if p: "p \<in> set called" for p
  proof -
    from dispatchStream_true [OF run cnt pages rid prec p] obtain e b where
        c: "(e, b) \<in> set (stream_chunks a n pages scanErr acts)" "report_true a t' (e, b) p" by auto
    have "stream_ok pages n (stream_start (nat (dc_WorkerCount (sa_cfg a))) n pages scanErr)"
      using k by (intro stream_start_ok) simp
    then have "page_at pages b"
      by (rule chunk_runs_pages) (use c(1) in \<open>simp_all add: stream_chunks_def, simp add: stream_start_def\<close>)
    with c(2) clean p show ?thesis by (auto simp: page_at_def report_true_def)
  qed
  then have "\<forall>p \<in> set called. \<exists>k < length pages. pg_ChunkIndex p = word_of_nat k \<and> report_ids a t' (pages ! k) p" by blast
  from reports_by_index [OF index small this] obtain qs where qs: "mset qs = mset called" "length qs = length pages"
    "\<And>k. k < length pages \<Longrightarrow> report_ids a t' (pages ! k) (qs ! k)" by blast
  have "list_all2 (\<lambda>cs q. \<exists>ids. mset ids = mset (?f q) \<and>
      list_all2 (case_execution t' (sa_requestID a) (sa_version a)) cs ids) pages qs"
    using qs(2,3) by (simp add: list_all2_conv_all_nth [of _ pages] report_ids_def)
  from collect_pieces [OF this] show ?thesis unfolding mset_concat_reorder [OF qs(1)] .
qed

text \<open>C20: When the catalogue is the same for the count and for the scan, the database answers without
  errors, the caller's context does not end, and \<open>ExecuteAllCases\<close> returns without an error and no
  report carries one, then every case of the version has its answer. Let the chunks of the call run on tables in order
  and \<open>t'\<close> be any later tables. The ids in the reports are, in some order, those of the executions stored in \<open>t'\<close>
  for the cases of the catalogue, one after the other, under the request id of this call and its version; no id is
  reported twice. With the outbox, the message of each failed id is DEAD in \<open>t'\<close>, and the one of each
  successful id is PUBLISHED, or a relay had it when the chunk found it. The sizes of the reported chunks
  and every announced total are the number of the cases as well.\<close>

theorem ExecuteAllCases_answers_every_case:
  assumes run: "ExecuteAllCasesWithRequest cfg outbox rand slot requestID v user w1 w2 acts = Some (None, called)"
    and "calm w1" and "calm w2" and "t_cases (tabs w2) = t_cases (tabs w1)" and "t_coll (tabs w2) = t_coll (tabs w1)"
    and "length (call_cases v w1) < 2 ^ 31" and "0 < dc_WorkerCount cfg"
    and "\<forall>e. CtxEnds e \<notin> set acts" and "\<forall>bs. rand = Inr bs \<longrightarrow> length bs = 16"
    and "\<forall>p \<in> set called. pg_ChunkError p = ''''" and "NormalizeRequestID rand requestID = Inr rid"
    and "\<forall>c \<in> set (call_chunks (call_args cfg outbox rid v user) w1 acts). precedes (call_args cfg outbox rid v user) c t'"
    and "tables_ok t'"
  shows "(\<exists>ids. mset ids = mset (concat (map (\<lambda>p. pg_SuccessIDs p @ pg_FailedIDs p) called)) \<and>
      list_all2 (case_execution t' rid v) (call_cases v w1) ids) \<and>
    (distinct (map uc_CaseID (call_cases v w1)) \<longrightarrow>
      distinct (concat (map (\<lambda>p. pg_SuccessIDs p @ pg_FailedIDs p) called))) \<and>
    (outbox \<longrightarrow> (\<forall>p \<in> set called.
      (\<forall>i \<in> set (pg_FailedIDs p). row_in OutboxDead i t') \<and>
      (\<forall>i \<in> set (pg_SuccessIDs p). row_in OutboxPublished i t' \<or>
        (\<exists>(e, b) \<in> set (call_chunks (call_args cfg outbox rid v user) w1 acts).
           row_in OutboxProcessing i (after_insert (call_args cfg outbox rid v user) e b))))) \<and>
    sum_list (map (\<lambda>p. unat (pg_ChunkSize p)) called) = length (call_cases v w1) \<and>
    (\<forall>p \<in> set called. unat (pg_TotalPlanned p) = length (call_cases v w1))"
proof -
  let ?a = "call_args cfg outbox rid v user" and ?cs = "call_cases v w1"
  let ?pages = "chunks (page_size (dc_BatchSize cfg)) ?cs" and ?all = "concat (map (\<lambda>p. pg_SuccessIDs p @ pg_FailedIDs p) called)"
  have rid: "sa_requestID ?a \<noteq> ''''" using NormalizeRequestID_Inr [OF assms(11)] assms(9) by (simp add: call_args_def)
  have same: "matching_cases (version_is v) (tabs w2) = ?cs"
    using assms(4,5) by (simp add: call_cases_def matching_cases_def version_is_def [abs_def])
  have run': "dispatchStream ?a slot (UtCaseRepository_CountByVersion v) (UtCaseRepository_ScanByVersion v) w1 w2 acts = Some (None, called)"
    using run assms(11) by (simp add: ExecuteAllCasesWithRequest_def call_args_def split: if_splits)
  then have slot: "slot = None" by (auto simp: dispatchStream_def split: option.splits)
  have cnt: "fst (UtCaseRepository_CountByVersion v w1) = Inr (int (length ?cs))"
    using counted_calm(1) [OF assms(2)] by (simp add: call_cases_def)
  have sc: "scanned (UtCaseRepository_ScanByVersion v) (dc_BatchSize (sa_cfg ?a)) w2 = (None, ?pages)"
    using scanned_calm(1) [OF assms(3)] same by (simp add: call_args_def)
  have "call_chunks ?a w1 acts = stream_chunks ?a (int (length ?cs)) ?pages None acts"
    by (simp add: call_chunks_def call_args_def Let_def)
  note chunks = this and prec = assms(12) [unfolded this]
  have w: "0 < dc_WorkerCount (sa_cfg ?a)" using assms(7) by (simp add: call_args_def)
  have ids: "\<exists>ids. mset ids = mset ?all \<and> list_all2 (case_execution t' rid v) ?cs ids"
  proof (cases "?cs = []")
    case True
    with run' slot cnt have "called = []" by (auto simp: dispatchStream_def)
    with True show ?thesis by simp
  next
    case False
    have "length ?pages \<le> 2 ^ 32" using length_chunks_le [of "page_size (dc_BatchSize cfg)" ?cs] assms(6) by simp
    from dispatchStream_ids [OF run' [unfolded slot] cnt _ w assms(8) sc this rid prec assms(10)] False
    show ?thesis by (simp add: call_args_def)
  qed
  moreover have "distinct ?all" if d: "distinct (map uc_CaseID ?cs)"
    using ids case_executions_distinct [OF assms(13) _ d] mset_eq_imp_distinct_iff by blast
  moreover have "(\<forall>i \<in> set (pg_FailedIDs p). row_in OutboxDead i t') \<and>
      (\<forall>i \<in> set (pg_SuccessIDs p). row_in OutboxPublished i t' \<or>
        (\<exists>(e, b) \<in> set (call_chunks ?a w1 acts). row_in OutboxProcessing i (after_insert ?a e b)))"
    if o: "outbox" and p: "p \<in> set called" for p
  proof -
    from dispatchStream_true [OF run' cnt sc rid prec p] obtain e b where
        c: "(e, b) \<in> set (call_chunks ?a w1 acts)" "report_true ?a t' (e, b) p" by (auto simp: chunks)
    with assms(10) p o have "report_rows ?a t' (e, b) p" by (simp add: report_true_def call_args_def)
    with c(1) show ?thesis by (auto simp: report_rows_def intro!: bexI [of _ "(e, b)"])
  qed
  moreover have "sum_list (map (\<lambda>p. unat (pg_ChunkSize p)) called) = length ?cs \<and>
      (\<forall>p \<in> set called. unat (pg_TotalPlanned p) = length ?cs)"
    using ExecuteAllCases_accounts_for_all [OF run assms(2-5) _ assms(7,8)] assms(6) by (simp add: call_cases_def)
  ultimately show ?thesis by blast
qed

definition dispatch_demo :: "(goerr option \<times> Progress list) option" where
  "dispatch_demo = ExecuteAllCasesWithRequest (sa_cfg demo_args) True (Inl (ErrorsNew ''no entropy'')) None ''req'' ''v1'' ''amy''
     demo_catalogue demo_catalogue consecutive_run"

theorem ExecuteAllCases_answers_every_case_witness:
  "\<exists>called ids. dispatch_demo = Some (None, called) \<and> mset ids = mset (concat (map (\<lambda>p. pg_SuccessIDs p @ pg_FailedIDs p) called)) \<and>
     list_all2 (case_execution demo_end ''req'' ''v1'') (call_cases ''v1'' demo_catalogue) ids \<and> length ids = 2"
proof -
  have n: "length (call_cases ''v1'' demo_catalogue) = 2" by code_simp
  have w: "dc_WorkerCount (sa_cfg demo_args) = 1" "page_size (dc_BatchSize (sa_cfg demo_args)) = 1" by code_simp+
  have args: "call_args (sa_cfg demo_args) True ''req'' ''v1'' ''amy'' = demo_args" by (simp add: call_args_def demo_args_def)
  have "case dispatch_demo of Some (None, called) \<Rightarrow> list_all (\<lambda>p. pg_ChunkError p = '''') called | _ \<Rightarrow> False" by code_simp
  then obtain called where run: "dispatch_demo = Some (None, called)" and clean: "list_all (\<lambda>p. pg_ChunkError p = '''') called"
    by (simp split: option.split_asm prod.split_asm)
  have rid: "NormalizeRequestID (Inl (ErrorsNew ''no entropy'')) ''req'' = Inr ''req''" by code_simp
  have runs: "call_chunks demo_args demo_catalogue consecutive_run = [(demo_chunk_env, demo_page 0), (demo_chunk_env2, demo_page 1)]"
  proof -
    have "nat (dc_WorkerCount (sa_cfg demo_args)) = 1" "sa_version demo_args = ''v1''" by (simp_all add: w, simp add: demo_args_def)
    then show ?thesis by (simp only: call_chunks_def stream_chunks_def call_cases_def Let_def w(2) consecutive_chunks)
  qed
  have prec: "\<forall>c \<in> set (call_chunks (call_args (sa_cfg demo_args) True ''req'' ''v1'' ''amy'') demo_catalogue consecutive_run).
      precedes (call_args (sa_cfg demo_args) True ''req'' ''v1'' ''amy'') c demo_end"
    unfolding args using demo_precedes by (simp add: runs)
  have ok: "tables_ok demo_end" using chunk_tables(2) demo_precedes(1) by blast
  have ctx: "\<forall>e. CtxEnds e \<notin> set consecutive_run" by (simp add: consecutive_run_def)
  have clean': "\<forall>p \<in> set called. pg_ChunkError p = ''''" using clean by (simp add: list_all_iff)
  from ExecuteAllCases_answers_every_case [OF run [unfolded dispatch_demo_def] calm_demo calm_demo refl refl _ _ ctx _ clean' rid
      prec ok] n w
  obtain ids where "mset ids = mset (concat (map (\<lambda>p. pg_SuccessIDs p @ pg_FailedIDs p) called))"
    "list_all2 (case_execution demo_end ''req'' ''v1'') (call_cases ''v1'' demo_catalogue) ids" by auto
  moreover from this(2) have "length ids = 2" using n by (simp add: list_all2_lengthD)
  ultimately show ?thesis using run by blast
qed

end
