(* ===== verification/Rabbit_Pool.thy ===== *)
theory Rabbit_Pool
  imports Rabbit_Client Relay_Pass
begin

text \<open>
  The connection and the channel pool of the publisher (\<open>mq/rabbitmq/executor_client.go\<close>): dialling,
  borrowing and releasing channels, the reconnect loop, closing. Each part that runs under the
  client's mutex, and each communication on a Go channel, is one atomic step of its goroutine; a run
  interleaves any number of workers (each in \<open>BatchRun\<close>, seen from outside), the reconnect loop, one
  caller of \<open>Close\<close> and connections that die. Connections and AMQP channels are numbers the library
  hands out fresh. Log lines are left out.
\<close>

subsection \<open>The client\<close>

record pooledChannel =
  pc_ch :: nat
  pc_conn :: nat      \<comment> \<open>the connection it was opened on\<close>
  pc_broken :: bool

text \<open>
  \<open>cl_signalled\<close> are the ready signals that are closed. The last three fields are the library's:
  the connections that are closed, the AMQP channels on which \<open>Close\<close> was called, and the next number.
  Ready signals are numbered as well.
\<close>

record Client =
  cl_cfg :: MqConfig
  cl_conn :: "nat option"
  cl_pool :: "pooledChannel list"
  cl_connReady :: nat
  cl_signalled :: "nat set"
  cl_closed :: bool
  cl_stopped :: bool
  cl_dead :: "nat set"
  cl_closedCh :: "nat set"
  cl_next :: nat

definition pool_cap :: "Client \<Rightarrow> nat" where
  "pool_cap c = nat (mc_ChannelPool (cl_cfg c))"

definition close_number :: "nat \<Rightarrow> Client \<Rightarrow> Client" where
  "close_number n c = c\<lparr>cl_closedCh := insert n (cl_closedCh c)\<rparr>"

definition close_ch :: "pooledChannel \<Rightarrow> Client \<Rightarrow> Client" where
  "close_ch pc = close_number (pc_ch pc)"

definition close_conn :: "nat \<Rightarrow> Client \<Rightarrow> Client" where
  "close_conn k c = c\<lparr>cl_dead := insert k (cl_dead c)\<rparr>"

text \<open>The sending \<open>select\<close> with a default: the channel goes into the pool, or is closed if that is full.\<close>

definition offer :: "pooledChannel \<Rightarrow> Client \<Rightarrow> Client" where
  "offer pc c = (if length (cl_pool c) < pool_cap c then c\<lparr>cl_pool := cl_pool c @ [pc]\<rparr> else close_ch pc c)"

subsection \<open>Dialling\<close>

text \<open>The errors of the library, if any: of the dial, of the declaration of the exchange, and for each
  channel of opening it and of asking for confirms.\<close>

record dial_env =
  de_dial :: "goerr option"
  de_declareOpen :: "goerr option"
  de_declare :: "goerr option"
  de_channel :: "nat \<Rightarrow> goerr option"
  de_confirm :: "nat \<Rightarrow> goerr option"

definition fresh_number :: "Client \<Rightarrow> nat \<times> Client" where
  "fresh_number c = (cl_next c, c\<lparr>cl_next := Suc (cl_next c)\<rparr>)"

definition openPooledChannel ::
  "goerr option \<Rightarrow> goerr option \<Rightarrow> nat \<Rightarrow> Client \<Rightarrow> (goerr + pooledChannel) \<times> Client" where
  "openPooledChannel channelErr confirmErr conn c =
     (case channelErr of
        Some e \<Rightarrow> (Inl e, c)
      | None \<Rightarrow>
          (let (ch, c) = fresh_number c in
           case confirmErr of
             Some e \<Rightarrow> (Inl (wrap_prefix ''enable publisher confirms: '' e), close_number ch c)
           | None \<Rightarrow> (Inr \<lparr>pc_ch = ch, pc_conn = conn, pc_broken = False\<rparr>, c)))"

text \<open>The loop of \<open>buildChannels\<close>: \<open>n\<close> channels are left, the next is the \<open>i\<close>-th.\<close>

fun build_loop ::
  "dial_env \<Rightarrow> nat \<Rightarrow> nat \<Rightarrow> nat \<Rightarrow> pooledChannel list \<Rightarrow> Client \<Rightarrow> (goerr + pooledChannel list) \<times> Client" where
  "build_loop env conn i 0 channels c = (Inr channels, c)"
| "build_loop env conn i (Suc n) channels c =
     (case openPooledChannel (de_channel env i) (de_confirm env i) conn c of
        (Inl e, c) \<Rightarrow>
          (Inl (wrap_prefix (''open channel '' @ FormatInt (int i + 1) @ ''/'' @ FormatInt (mc_ChannelPool (cl_cfg c)) @ '': '') e),
           fold close_ch channels c)
      | (Inr pc, c) \<Rightarrow> build_loop env conn (Suc i) n (channels @ [pc]) c)"

definition buildChannels :: "dial_env \<Rightarrow> nat \<Rightarrow> Client \<Rightarrow> (goerr + pooledChannel list) \<times> Client" where
  "buildChannels env conn c = build_loop env conn 0 (pool_cap c) [] c"

text \<open>\<open>quote\<close> is the verb \<open>%q\<close>. The channel that declares is closed again on every path.\<close>

definition declareExchange :: "(string \<Rightarrow> string) \<Rightarrow> dial_env \<Rightarrow> Client \<Rightarrow> goerr option \<times> Client" where
  "declareExchange quote env c =
     (case de_declareOpen env of
        Some e \<Rightarrow> (Some (wrap_prefix ''open declare channel: '' e), c)
      | None \<Rightarrow>
          (let (ch, c) = fresh_number c in
           (map_option (wrap_prefix (''declare exchange '' @ quote (mc_Exchange (cl_cfg c)) @ '': '')) (de_declare env),
            close_number ch c)))"

text \<open>What \<open>dial\<close> and \<open>reconnect\<close> both begin with; on a failure the connection is closed.\<close>

definition connect ::
  "(string \<Rightarrow> string) \<Rightarrow> dial_env \<Rightarrow> Client \<Rightarrow> (goerr + nat \<times> pooledChannel list) \<times> Client" where
  "connect quote env c =
     (case de_dial env of
        Some e \<Rightarrow> (Inl (wrap_prefix ''amqp dial: '' e), c)
      | None \<Rightarrow>
          (let (conn, c) = fresh_number c in
           case declareExchange quote env c of
             (Some e, c) \<Rightarrow> (Inl e, close_conn conn c)
           | (None, c) \<Rightarrow>
               (case buildChannels env conn c of
                  (Inl e, c) \<Rightarrow> (Inl e, close_conn conn c)
                | (Inr channels, c) \<Rightarrow> (Inr (conn, channels), c))))"

definition dial :: "(string \<Rightarrow> string) \<Rightarrow> dial_env \<Rightarrow> Client \<Rightarrow> goerr option \<times> Client" where
  "dial quote env c =
     (case connect quote env c of
        (Inl e, c) \<Rightarrow> (Some e, c)
      | (Inr (conn, channels), c) \<Rightarrow> (None, fold offer channels (c\<lparr>cl_conn := Some conn\<rparr>)))"

text \<open>Signal 0 is the one that is closed from the start.\<close>

definition NewClient :: "(string \<Rightarrow> string) \<Rightarrow> MqConfig \<Rightarrow> dial_env \<Rightarrow> goerr + Client" where
  "NewClient quote cfg env =
     (case dial quote env \<lparr>cl_cfg = MqConfig_applyDefaults cfg, cl_conn = None, cl_pool = [], cl_connReady = 0,
             cl_signalled = {0}, cl_closed = False, cl_stopped = False, cl_dead = {}, cl_closedCh = {}, cl_next = 0\<rparr> of
        (Some e, _) \<Rightarrow> Inl e
      | (None, c) \<Rightarrow> Inr c)"

subsection \<open>The sections under the mutex\<close>

text \<open>\<open>release\<close>, first part: what is left to do afterwards is nothing, or to replace a broken channel on the
  connection that was current.\<close>

definition release_begin :: "pooledChannel \<Rightarrow> Client \<Rightarrow> nat option \<times> Client" where
  "release_begin pc c =
     (if cl_closed c then (None, close_ch pc c)
      else if \<not> pc_broken pc then (None, offer pc c)
      else (cl_conn c, close_ch pc c))"

text \<open>After a replacement that could not be opened: is the connection still the current one?\<close>

definition stillCurrent :: "nat \<Rightarrow> Client \<Rightarrow> bool" where
  "stillCurrent conn c \<longleftrightarrow> \<not> cl_closed c \<and> cl_conn c = Some conn"

definition release_commit :: "nat \<Rightarrow> pooledChannel \<Rightarrow> Client \<Rightarrow> Client" where
  "release_commit conn fresh c =
     (if cl_closed c \<or> cl_conn c \<noteq> Some conn then close_ch fresh c else offer fresh c)"

text \<open>\<open>handleDisconnect\<close>, first part: the new signal is not closed.\<close>

definition disconnect_begin :: "Client \<Rightarrow> Client" where
  "disconnect_begin c = c\<lparr>cl_conn := None, cl_connReady := Suc (cl_connReady c)\<rparr>"

definition reconnect_commit :: "nat \<Rightarrow> nat \<Rightarrow> pooledChannel list \<Rightarrow> Client \<Rightarrow> goerr option \<times> Client" where
  "reconnect_commit readySignal conn channels c =
     (if cl_closed c \<or> cl_connReady c \<noteq> readySignal
      then (Some (Sentinel ErrClientClosed), close_conn conn (fold close_ch channels c))
      else (None, fold offer channels (c\<lparr>cl_conn := Some conn\<rparr>)))"

definition signal_ready :: "nat \<Rightarrow> Client \<Rightarrow> Client" where
  "signal_ready r c = c\<lparr>cl_signalled := insert r (cl_signalled c)\<rparr>"

definition Close_begin :: "Client \<Rightarrow> nat option \<times> Client" where
  "Close_begin c = (cl_conn c, c\<lparr>cl_closed := True, cl_conn := None\<rparr>)"

definition Close_stop :: "Client \<Rightarrow> Client" where
  "Close_stop c = c\<lparr>cl_stopped := True\<rparr>"

text \<open>A receive from the pool.\<close>

definition take_pool :: "Client \<Rightarrow> (pooledChannel \<times> Client) option" where
  "take_pool c = (case cl_pool c of [] \<Rightarrow> None | pc # pcs \<Rightarrow> Some (pc, c\<lparr>cl_pool := pcs\<rparr>))"

subsection \<open>The delays of the reconnect loop\<close>

definition milliseconds :: "int \<Rightarrow> duration" where
  "milliseconds n = word_of_int n * Millisecond"

definition next_backoff :: "duration \<Rightarrow> duration \<Rightarrow> duration" where
  "next_backoff maxBackoff backoff =
     (let backoff = backoff * 2 in if maxBackoff <s backoff then maxBackoff else backoff)"

subsection \<open>A worker\<close>

text \<open>
  Where a worker is: outside; in \<open>borrow\<close> waiting for the signal it read, or for a channel; using a
  channel; in \<open>release\<close>, replacing a broken channel, then deciding whether to close the connection, then
  closing it, or putting the replacement into the pool; or back from \<open>borrow\<close> with an error.
\<close>

datatype worker =
    Outside
  | Waiting nat
  | Taking
  | Using pooledChannel
  | Replacing nat
  | OpenFailed nat
  | Hanging_up nat
  | Reopened nat pooledChannel
  | Refused goerr

text \<open>
  What decides between the cases of a step: the context ends with an error, the client is stopped, the
  channel breaks while it is used, or the regular case; for a replacement, what the library answers.
\<close>

datatype choice =
    CtxDone goerr
  | Stopped
  | Breaks
  | Regular
  | Library "goerr option" "goerr option"

text \<open>\<open>release\<close>.\<close>

fun release_step :: "choice \<Rightarrow> worker \<Rightarrow> Client \<Rightarrow> (worker \<times> Client) option" where
  "release_step Regular (Using pc) c =
     (case release_begin pc c of
        (None, c) \<Rightarrow> Some (Outside, c)
      | (Some conn, c) \<Rightarrow> Some (if conn \<in> cl_dead c then Outside else Replacing conn, c))"
| "release_step (Library channelErr confirmErr) (Replacing conn) c =
     (case openPooledChannel channelErr confirmErr conn c of
        (Inl e, c) \<Rightarrow> Some (OpenFailed conn, c)
      | (Inr fresh, c) \<Rightarrow> Some (Reopened conn fresh, c))"
| "release_step Regular (OpenFailed conn) c =
     Some (if stillCurrent conn c then Hanging_up conn else Outside, c)"
| "release_step Regular (Hanging_up conn) c = Some (Outside, close_conn conn c)"
| "release_step Regular (Reopened conn fresh) c = Some (Outside, release_commit conn fresh c)"
| "release_step _ _ c = None"

text \<open>\<open>borrow\<close>, the use of the channel, and the rest.\<close>

fun worker_step :: "choice \<Rightarrow> worker \<Rightarrow> Client \<Rightarrow> (worker \<times> Client) option" where
  "worker_step Regular Outside c =
     Some (if cl_closed c then Refused (Sentinel ErrClientClosed) else Waiting (cl_connReady c), c)"
| "worker_step (CtxDone e) (Waiting r) c = Some (Refused e, c)"
| "worker_step Stopped (Waiting r) c =
     (if cl_stopped c then Some (Refused (Sentinel ErrClientClosed), c) else None)"
| "worker_step Regular (Waiting r) c = (if r \<in> cl_signalled c then Some (Taking, c) else None)"
| "worker_step (CtxDone e) Taking c = Some (Refused e, c)"
| "worker_step Stopped Taking c =
     (if cl_stopped c then Some (Refused (Sentinel ErrClientClosed), c) else None)"
| "worker_step Regular Taking c =
     (case take_pool c of None \<Rightarrow> None | Some (pc, c) \<Rightarrow> Some (Using pc, c))"
| "worker_step Breaks (Using pc) c = Some (Using (pc\<lparr>pc_broken := True\<rparr>), c)"
| "worker_step Regular (Refused e) c = Some (Outside, c)"
| "worker_step a w c = release_step a w c"

subsection \<open>The reconnect loop\<close>

text \<open>
  Where it is: at the top; waiting a second because there is no connection; watching a connection;
  about to handle a disconnect; emptying the pool, waiting before an attempt, about to
  commit what it dialled, about to give the signal \<open>r\<close> of this disconnect; about to look at \<open>closed\<close>; gone.
\<close>

datatype loop =
    LTop
  | LIdle
  | LWatch nat
  | LDisconnect
  | LDrain nat
  | LBackoff nat duration
  | LDial nat duration
  | LCommit nat nat "pooledChannel list"
  | LSignal nat
  | LCheck
  | LGone

datatype loop_choice =
    LStop
  | LNormalClose
  | LNext
  | LLibrary dial_env

text \<open>\<open>LNormalClose\<close> is a close notification without an error; \<open>LNext\<close> one with an error, or a timer that
  fires, or the only way on.\<close>

text \<open>\<open>handleDisconnect\<close>.\<close>

fun disconnect_step :: "(string \<Rightarrow> string) \<Rightarrow> loop_choice \<Rightarrow> loop \<Rightarrow> Client \<Rightarrow> (loop \<times> Client) option" where
  "disconnect_step quote LNext LDisconnect c = Some (LDrain (Suc (cl_connReady c)), disconnect_begin c)"
| "disconnect_step quote LNext (LDrain r) c =
     Some (case take_pool c of
             Some (pc, c) \<Rightarrow> (LDrain r, close_ch pc c)
           | None \<Rightarrow> (LBackoff r (milliseconds (mc_ReconnectInitialBackoffMs (cl_cfg c))), c))"
| "disconnect_step quote LStop (LBackoff r backoff) c = (if cl_stopped c then Some (LCheck, c) else None)"
| "disconnect_step quote LNext (LBackoff r backoff) c = Some (LDial r backoff, c)"
| "disconnect_step quote (LLibrary env) (LDial r backoff) c =
     (case connect quote env c of
        (Inl e, c) \<Rightarrow>
          Some (if errors_Is e ErrClientClosed then LCheck
                else LBackoff r (next_backoff (milliseconds (mc_ReconnectMaxBackoffMs (cl_cfg c))) backoff), c)
      | (Inr (conn, channels), c) \<Rightarrow> Some (LCommit r conn channels, c))"
| "disconnect_step quote LNext (LCommit r conn channels) c =
     (case reconnect_commit r conn channels c of
        (Some e, c) \<Rightarrow> Some (LCheck, c)
      | (None, c) \<Rightarrow> Some (LSignal r, c))"
| "disconnect_step quote LNext (LSignal r) c = Some (LCheck, signal_ready r c)"
| "disconnect_step quote _ _ c = None"

text \<open>\<open>reconnectLoop\<close>.\<close>

fun loop_step :: "(string \<Rightarrow> string) \<Rightarrow> loop_choice \<Rightarrow> loop \<Rightarrow> Client \<Rightarrow> (loop \<times> Client) option" where
  "loop_step quote LNext LTop c = Some (case cl_conn c of None \<Rightarrow> LIdle | Some conn \<Rightarrow> LWatch conn, c)"
| "loop_step quote LStop LIdle c = (if cl_stopped c then Some (LGone, c) else None)"
| "loop_step quote LNext LIdle c = Some (LTop, c)"
| "loop_step quote LStop (LWatch conn) c = (if cl_stopped c then Some (LGone, c) else None)"
| "loop_step quote LNormalClose (LWatch conn) c =
     (if conn \<in> cl_dead c then Some (if cl_closed c then LGone else LDisconnect, c) else None)"
| "loop_step quote LNext (LWatch conn) c = (if conn \<in> cl_dead c then Some (LDisconnect, c) else None)"
| "loop_step quote LNext LCheck c = Some (if cl_closed c then LGone else LTop, c)"
| "loop_step quote a l c = disconnect_step quote a l c"

subsection \<open>Closing\<close>

text \<open>The caller of \<open>Close\<close>; \<open>k\<close> is the connection it took, \<open>n\<close> what it has drained.\<close>

datatype closer =
    NotClosing
  | CStop "nat option"
  | CDrain "nat option" nat
  | CConn "nat option"
  | CDone

datatype closer_choice = CNext | CCtxDone

fun closer_step :: "closer_choice \<Rightarrow> closer \<Rightarrow> Client \<Rightarrow> (closer \<times> Client) option" where
  "closer_step CNext NotClosing c =
     Some (if cl_closed c then (CDone, c) else (let (k, c) = Close_begin c in (CStop k, c)))"
| "closer_step CNext (CStop k) c = Some (CDrain k 0, Close_stop c)"
| "closer_step CCtxDone (CDrain k n) c = (if n < pool_cap c then Some (CConn k, c) else None)"
| "closer_step CNext (CDrain k n) c =
     (if n < pool_cap c
      then (case take_pool c of None \<Rightarrow> None | Some (pc, c) \<Rightarrow> Some (CDrain k (Suc n), close_ch pc c))
      else Some (CConn k, c))"
| "closer_step CNext (CConn k) c =
     Some (CDone, case k of Some conn \<Rightarrow> if conn \<in> cl_dead c then c else close_conn conn c | None \<Rightarrow> c)"
| "closer_step _ _ c = None"

subsection \<open>Runs\<close>

record mq_sys =
  ms_client :: Client
  ms_workers :: "worker list"
  ms_loop :: loop
  ms_closer :: closer

datatype action =
    Work nat choice
  | Loop loop_choice
  | Closing closer_choice
  | Dies nat

fun mq_act :: "(string \<Rightarrow> string) \<Rightarrow> action \<Rightarrow> mq_sys \<Rightarrow> mq_sys option" where
  "mq_act quote (Work i a) s =
     (if i < length (ms_workers s)
      then map_option (\<lambda>(w, c). s\<lparr>ms_client := c, ms_workers := (ms_workers s)[i := w]\<rparr>)
             (worker_step a (ms_workers s ! i) (ms_client s))
      else None)"
| "mq_act quote (Loop a) s =
     map_option (\<lambda>(l, c). s\<lparr>ms_client := c, ms_loop := l\<rparr>) (loop_step quote a (ms_loop s) (ms_client s))"
| "mq_act quote (Closing a) s =
     map_option (\<lambda>(k, c). s\<lparr>ms_client := c, ms_closer := k\<rparr>) (closer_step a (ms_closer s) (ms_client s))"
| "mq_act quote (Dies conn) s = Some (s\<lparr>ms_client := close_conn conn (ms_client s)\<rparr>)"

text \<open>A list of actions that are possible one after the other.\<close>

fun mq_run :: "(string \<Rightarrow> string) \<Rightarrow> action list \<Rightarrow> mq_sys \<Rightarrow> mq_sys option" where
  "mq_run quote [] s = Some s"
| "mq_run quote (a # acts) s = (case mq_act quote a s of None \<Rightarrow> None | Some s' \<Rightarrow> mq_run quote acts s')"

definition mq_start :: "nat \<Rightarrow> Client \<Rightarrow> mq_sys" where
  "mq_start workers c =
     \<lparr>ms_client = c, ms_workers = replicate workers Outside, ms_loop = LTop, ms_closer = NotClosing\<rparr>"

inductive pool_reach :: "(string \<Rightarrow> string) \<Rightarrow> mq_sys \<Rightarrow> bool" for quote where
  start: "NewClient quote cfg env = Inr c \<Longrightarrow> pool_reach quote (mq_start workers c)"
| step: "pool_reach quote s \<Longrightarrow> mq_act quote a s = Some s' \<Longrightarrow> pool_reach quote s'"

lemma pool_reach_run: "pool_reach quote s \<Longrightarrow> mq_run quote acts s = Some s' \<Longrightarrow> pool_reach quote s'"
  by (induction acts arbitrary: s) (auto split: option.splits intro: pool_reach.step)


lemmas section_defs = release_begin_def release_commit_def disconnect_begin_def reconnect_commit_def
  signal_ready_def Close_begin_def Close_stop_def close_conn_def

subsection \<open>The fields each operation leaves alone\<close>

lemma close_frame [simp]:
  "cl_cfg (close_ch pc c) = cl_cfg c" "cl_conn (close_ch pc c) = cl_conn c" "cl_pool (close_ch pc c) = cl_pool c"
  "cl_connReady (close_ch pc c) = cl_connReady c" "cl_signalled (close_ch pc c) = cl_signalled c"
  "cl_closed (close_ch pc c) = cl_closed c" "cl_stopped (close_ch pc c) = cl_stopped c"
  "cl_dead (close_ch pc c) = cl_dead c" "cl_next (close_ch pc c) = cl_next c"
  "cl_closedCh (close_ch pc c) = insert (pc_ch pc) (cl_closedCh c)"
  by (simp_all add: close_ch_def close_number_def)

lemma close_conn_frame [simp]:
  "cl_cfg (close_conn k c) = cl_cfg c" "cl_conn (close_conn k c) = cl_conn c" "cl_pool (close_conn k c) = cl_pool c"
  "cl_connReady (close_conn k c) = cl_connReady c" "cl_signalled (close_conn k c) = cl_signalled c"
  "cl_closed (close_conn k c) = cl_closed c" "cl_stopped (close_conn k c) = cl_stopped c"
  "cl_closedCh (close_conn k c) = cl_closedCh c" "cl_next (close_conn k c) = cl_next c"
  "cl_dead (close_conn k c) = insert k (cl_dead c)"
  by (simp_all add: close_conn_def)

lemma offer_frame [simp]:
  "cl_cfg (offer pc c) = cl_cfg c" "cl_conn (offer pc c) = cl_conn c"
  "cl_connReady (offer pc c) = cl_connReady c" "cl_signalled (offer pc c) = cl_signalled c"
  "cl_closed (offer pc c) = cl_closed c" "cl_stopped (offer pc c) = cl_stopped c"
  "cl_dead (offer pc c) = cl_dead c" "cl_next (offer pc c) = cl_next c"
  by (simp_all add: offer_def)

lemma fold_close_frame [simp]:
  "cl_cfg (fold close_ch pcs c) = cl_cfg c" "cl_conn (fold close_ch pcs c) = cl_conn c"
  "cl_pool (fold close_ch pcs c) = cl_pool c"
  "cl_connReady (fold close_ch pcs c) = cl_connReady c" "cl_signalled (fold close_ch pcs c) = cl_signalled c"
  "cl_closed (fold close_ch pcs c) = cl_closed c" "cl_stopped (fold close_ch pcs c) = cl_stopped c"
  "cl_dead (fold close_ch pcs c) = cl_dead c" "cl_next (fold close_ch pcs c) = cl_next c"
  "cl_closedCh (fold close_ch pcs c) = pc_ch ` set pcs \<union> cl_closedCh c"
  by (induction pcs arbitrary: c) auto

lemma fold_offer_frame [simp]:
  "cl_cfg (fold offer pcs c) = cl_cfg c" "cl_conn (fold offer pcs c) = cl_conn c"
  "cl_connReady (fold offer pcs c) = cl_connReady c" "cl_signalled (fold offer pcs c) = cl_signalled c"
  "cl_closed (fold offer pcs c) = cl_closed c" "cl_stopped (fold offer pcs c) = cl_stopped c"
  "cl_dead (fold offer pcs c) = cl_dead c" "cl_next (fold offer pcs c) = cl_next c"
  by (induction pcs arbitrary: c) auto

text \<open>Opening channels and connecting touch only the library's fields.\<close>

definition library_only :: "Client \<Rightarrow> Client \<Rightarrow> bool" where
  "library_only c c' \<longleftrightarrow>
     cl_cfg c' = cl_cfg c \<and> cl_conn c' = cl_conn c \<and> cl_pool c' = cl_pool c \<and> cl_connReady c' = cl_connReady c \<and>
     cl_signalled c' = cl_signalled c \<and> cl_closed c' = cl_closed c \<and> cl_stopped c' = cl_stopped c \<and>
     cl_next c \<le> cl_next c' \<and> cl_dead c \<subseteq> cl_dead c' \<and> cl_closedCh c \<subseteq> cl_closedCh c'"

lemma library_only_refl [simp, intro]: "library_only c c"
  by (simp add: library_only_def)

lemma library_only_trans [trans]: "library_only a b \<Longrightarrow> library_only b c \<Longrightarrow> library_only a c"
  by (auto simp: library_only_def)

lemma library_only_D:
  assumes "library_only c c'"
  shows "cl_cfg c' = cl_cfg c" "cl_conn c' = cl_conn c" "cl_pool c' = cl_pool c" "cl_connReady c' = cl_connReady c"
    "cl_signalled c' = cl_signalled c" "cl_closed c' = cl_closed c" "cl_stopped c' = cl_stopped c"
    "cl_next c \<le> cl_next c'" "cl_dead c \<subseteq> cl_dead c'" "cl_closedCh c \<subseteq> cl_closedCh c'"
  using assms by (auto simp: library_only_def)

lemma library_only_close [intro]: "library_only c d \<Longrightarrow> library_only c (close_number n d)"
  by (auto simp: library_only_def close_number_def)

lemma library_only_close_conn [intro]: "library_only c d \<Longrightarrow> library_only c (close_conn n d)"
  by (auto simp: library_only_def close_conn_def)

lemma library_only_fold_close [intro]: "library_only c d \<Longrightarrow> library_only c (fold close_ch pcs d)"
  by (auto simp: library_only_def)

lemma library_only_fresh: "fresh_number c = (n, c') \<Longrightarrow> library_only c c'"
  by (auto simp: library_only_def fresh_number_def)

lemma library_only_open: "openPooledChannel a b k c = (r, c') \<Longrightarrow> library_only c c'"
  by (auto simp: openPooledChannel_def split: option.splits prod.splits dest!: library_only_fresh)

lemma library_only_build: "build_loop env k i n chs c = (r, c') \<Longrightarrow> library_only c c'"
proof (induction env k i n chs c arbitrary: r c' rule: build_loop.induct)
  case (2 env conn i n channels c)
  then show ?case
    by (auto split: prod.splits sum.splits dest: library_only_open intro: library_only_trans)
qed simp

lemma library_only_declare: "declareExchange q env c = (r, c') \<Longrightarrow> library_only c c'"
  by (auto simp: declareExchange_def split: option.splits prod.splits dest!: library_only_fresh)

lemma library_only_connect:
  assumes "connect q env c = (r, c')"
  shows "library_only c c'"
proof (cases "de_dial env")
  case None
  obtain k c1 where f: "fresh_number c = (k, c1)" by fastforce
  obtain d c2 where d: "declareExchange q env c1 = (d, c2)" by fastforce
  obtain b c3 where b: "buildChannels env k c2 = (b, c3)" by fastforce
  have s: "library_only c c1" "library_only c1 c2" "library_only c2 c3"
    using f d b by (auto simp: buildChannels_def dest: library_only_fresh library_only_declare library_only_build)
  have "c' = close_conn k c2 \<or> c' = close_conn k c3 \<or> c' = c3"
    using assms None f d b by (auto simp: connect_def split: option.splits sum.splits)
  with s show ?thesis by (auto intro: library_only_trans)
qed (use assms in \<open>auto simp: connect_def\<close>)

subsection \<open>Who has which channel\<close>

text \<open>How often the channel \<open>x\<close> is in the pool or has been closed, and whether it was opened in between.\<close>

definition weight :: "Client \<Rightarrow> nat \<Rightarrow> nat" where
  "weight c x = count (mset (map pc_ch (cl_pool c))) x + (if x \<in> cl_closedCh c then 1 else 0)"

definition opened :: "Client \<Rightarrow> Client \<Rightarrow> nat \<Rightarrow> nat" where
  "opened c c' x = (if cl_next c \<le> x \<and> x < cl_next c' then 1 else 0)"

abbreviation handles :: "pooledChannel list \<Rightarrow> nat \<Rightarrow> nat" where
  "handles pcs x \<equiv> count (mset (map pc_ch pcs)) x"

lemma opened_same [simp]: "cl_next c' = cl_next c \<Longrightarrow> opened c c' x = 0"
  by (simp add: opened_def)

lemma opened_add: "cl_next a \<le> cl_next b \<Longrightarrow> cl_next b \<le> cl_next c \<Longrightarrow> opened a c x = opened a b x + opened b c x"
  by (simp add: opened_def)

lemma weight_cong: "cl_pool c = cl_pool d \<Longrightarrow> cl_closedCh c = cl_closedCh d \<Longrightarrow> weight c x = weight d x"
  by (simp add: weight_def)

lemma weight_close_number: "weight (close_number n c) x \<le> weight c x + (if x = n then 1 else 0)"
  by (simp add: weight_def close_number_def)

lemma weight_close_conn [simp]: "weight (close_conn k c) x = weight c x"
  by (simp add: weight_def close_conn_def)

lemma weight_close: "weight (close_ch pc c) x \<le> weight c x + (if x = pc_ch pc then 1 else 0)"
  by (simp add: close_ch_def weight_close_number)

lemma weight_offer: "weight (offer pc c) x \<le> weight c x + (if x = pc_ch pc then 1 else 0)"
  using weight_close [of pc c x] by (auto simp: offer_def weight_def)

lemma weight_fold_close: "weight (fold close_ch pcs c) x \<le> weight c x + handles pcs x"
proof (induction pcs arbitrary: c)
  case (Cons pc pcs)
  show ?case using Cons [of "close_ch pc c"] weight_close [of pc c x] by auto
qed simp

lemma weight_fold_offer: "weight (fold offer pcs c) x \<le> weight c x + handles pcs x"
proof (induction pcs arbitrary: c)
  case (Cons pc pcs)
  show ?case using Cons [of "offer pc c"] weight_offer [of pc c x] by auto
qed simp

lemma weight_take: "take_pool c = Some (pc, c') \<Longrightarrow> weight c' x + (if x = pc_ch pc then 1 else 0) = weight c x"
  by (auto simp: take_pool_def weight_def split: list.splits)

lemma weight_fresh: "fresh_number c = (n, c') \<Longrightarrow> weight c' x = weight c x \<and> opened c c' x = (if x = n then 1 else 0)"
  by (auto simp: fresh_number_def weight_def opened_def)

lemma weight_open:
  assumes "openPooledChannel a b k c = (r, c')"
  shows "weight c' x + (case r of Inl e \<Rightarrow> 0 | Inr pc \<Rightarrow> if x = pc_ch pc then 1 else 0) \<le> weight c x + opened c c' x"
proof (cases a)
  case None
  obtain n c1 where f: "fresh_number c = (n, c1)" by fastforce
  with None assms weight_fresh [OF f, of x] weight_close_number [of n c1 x] show ?thesis
    by (auto simp: openPooledChannel_def opened_def close_number_def split: option.splits)
qed (use assms in \<open>auto simp: openPooledChannel_def\<close>)

lemma weight_build:
  assumes "build_loop env k i n chs c = (r, c')"
  shows "weight c' x + (case r of Inl e \<Rightarrow> 0 | Inr pcs \<Rightarrow> handles pcs x) \<le> weight c x + handles chs x + opened c c' x"
  using assms
proof (induction env k i n chs c arbitrary: r c' rule: build_loop.induct)
  case (2 env conn i n channels c)
  obtain o1 c1 where o: "openPooledChannel (de_channel env i) (de_confirm env i) conn c = (o1, c1)" by fastforce
  note w = weight_open [OF o, of x] and l = library_only_open [OF o]
  show ?case
  proof (cases o1)
    case (Inl e)
    with "2.prems" o w l weight_fold_close [of channels c1 x] show ?thesis
      by (auto simp: opened_def)
  next
    case (Inr pc)
    with "2.prems" o have b: "build_loop env conn (Suc i) n (channels @ [pc]) c1 = (r, c')" by simp
    have "opened c c' x = opened c c1 x + opened c1 c' x"
      using library_only_build [OF b] l by (intro opened_add) (simp_all add: library_only_def)
    with "2.IH" [OF o [symmetric] Inr b] w Inr show ?thesis
      by (cases "x = pc_ch pc"; cases r) simp_all
  qed
qed simp

lemma weight_declare:
  assumes "declareExchange q env c = (r, c')"
  shows "weight c' x \<le> weight c x + opened c c' x"
proof (cases "de_declareOpen env")
  case None
  obtain n c1 where f: "fresh_number c = (n, c1)" by fastforce
  with None assms weight_fresh [OF f, of x] weight_close_number [of n c1 x] show ?thesis
    by (auto simp: declareExchange_def opened_def close_number_def)
qed (use assms in \<open>auto simp: declareExchange_def\<close>)

lemma weight_connect:
  assumes "connect q env c = (r, c')"
  shows "weight c' x + (case r of Inl e \<Rightarrow> 0 | Inr (k, pcs) \<Rightarrow> handles pcs x) \<le> weight c x + opened c c' x"
proof (cases "de_dial env")
  case None
  obtain k c1 where f: "fresh_number c = (k, c1)" by fastforce
  obtain d c2 where d: "declareExchange q env c1 = (d, c2)" by fastforce
  obtain b c3 where b: "build_loop env k 0 (pool_cap c2) [] c2 = (b, c3)" by fastforce
  have s: "cl_next c \<le> cl_next c1" "cl_next c1 \<le> cl_next c2" "cl_next c2 \<le> cl_next c3"
    using f d b by (auto dest!: library_only_fresh library_only_declare library_only_build simp: library_only_def)
  then have o: "opened c c2 x = opened c c1 x + opened c1 c2 x" "opened c c3 x = opened c c2 x + opened c2 c3 x"
    by (auto intro: opened_add)
  have e: "opened c (close_conn k c2) x = opened c c2 x" "opened c (close_conn k c3) x = opened c c3 x"
    by (simp_all add: opened_def close_conn_def)
  show ?thesis
    using assms None f d b o e weight_fresh [OF f, of x] weight_declare [OF d, of x] weight_build [OF b, of x]
    by (auto simp: connect_def buildChannels_def split: option.splits sum.splits)
qed (use assms in \<open>auto simp: connect_def\<close>)

text \<open>The channels a goroutine has in its hands.\<close>

primrec worker_has :: "worker \<Rightarrow> pooledChannel list" where
  "worker_has Outside = []"
| "worker_has (Waiting r) = []"
| "worker_has Taking = []"
| "worker_has (Using pc) = [pc]"
| "worker_has (Replacing k) = []"
| "worker_has (OpenFailed k) = []"
| "worker_has (Hanging_up k) = []"
| "worker_has (Reopened k fresh) = [fresh]"
| "worker_has (Refused e) = []"

primrec loop_has :: "loop \<Rightarrow> pooledChannel list" where
  "loop_has LTop = []"
| "loop_has LIdle = []"
| "loop_has (LWatch k) = []"
| "loop_has LDisconnect = []"
| "loop_has (LDrain r) = []"
| "loop_has (LBackoff r d) = []"
| "loop_has (LDial r d) = []"
| "loop_has (LCommit r k channels) = channels"
| "loop_has (LSignal r) = []"
| "loop_has LCheck = []"
| "loop_has LGone = []"

text \<open>All channels in use: those in the pool, with the workers, with the loop.\<close>

definition live_channels :: "mq_sys \<Rightarrow> nat list" where
  "live_channels s =
     map pc_ch (cl_pool (ms_client s) @ concat (map worker_has (ms_workers s)) @ loop_has (ms_loop s))"

lemma take_frees:
  "take_pool c = Some (pc, c') \<Longrightarrow>
     weight c x = weight c' x + (if x = pc_ch pc then 1 else 0) \<and> cl_next c' = cl_next c"
  using weight_take [of c pc c' x] by (auto simp: take_pool_def split: list.splits)

lemma worker_frees:
  assumes "worker_step a w c = Some (w', c')"
  shows "weight c' x + handles (worker_has w') x \<le> weight c x + handles (worker_has w) x + opened c c' x \<and>
         cl_next c \<le> cl_next c'"
proof (cases "\<exists>p q k. a = Library p q \<and> w = Replacing k")
  case True
  then obtain p q k where at: "a = Library p q" "w = Replacing k" by blast
  then obtain r where o: "openPooledChannel p q k c = (r, c')"
    using assms by (auto split: prod.splits sum.splits)
  from library_only_open [OF o] have "cl_next c \<le> cl_next c'" by (rule library_only_D)
  with at o assms weight_open [OF o, of x] show ?thesis by (cases r) auto
next
  case no_library: False
  show ?thesis
  proof (cases "a = Regular \<and> w = Taking")
    case True
    with assms show ?thesis by (auto split: option.splits dest!: take_frees [where x = x])
  next
    case False
    with no_library assms show ?thesis
      by (cases w; cases a)
         (auto split: option.splits prod.splits if_splits simp: release_begin_def release_commit_def
            intro!: order_trans [OF weight_offer] order_trans [OF weight_close])
  qed
qed

lemma loop_frees:
  assumes "loop_step q a l c = Some (l', c')"
  shows "weight c' x + handles (loop_has l') x \<le> weight c x + handles (loop_has l) x + opened c c' x \<and>
         cl_next c \<le> cl_next c'"
proof (cases "\<exists>env r d. a = LLibrary env \<and> l = LDial r d")
  case True
  then obtain env r d where at: "a = LLibrary env" "l = LDial r d" by blast
  then obtain o1 where o: "connect q env c = (o1, c')"
    using assms by (auto split: prod.splits sum.splits)
  from library_only_connect [OF o] have "cl_next c \<le> cl_next c'" by (rule library_only_D)
  with at o assms weight_connect [OF o, of x] show ?thesis by (cases o1) (auto split: if_splits)
next
  case False
  with assms show ?thesis
    by (cases l; cases a)
       (auto split: option.splits prod.splits if_splits
          simp: reconnect_commit_def disconnect_begin_def signal_ready_def
          weight_cong [of "_\<lparr>cl_conn := _\<rparr>"] weight_cong [of "_\<lparr>cl_signalled := _\<rparr>"]
          weight_cong [of "_\<lparr>cl_conn := _, cl_connReady := _\<rparr>"]
          dest!: take_frees [where x = x]
          intro!: order_trans [OF weight_fold_offer] order_trans [OF weight_fold_close] order_trans [OF weight_close])
qed

lemma closer_frees:
  assumes "closer_step a k c = Some (k', c')"
  shows "weight c' x \<le> weight c x \<and> cl_next c' = cl_next c"
  using assms
  by (cases "(a, k, c)" rule: closer_step.cases)
     (auto split: option.splits prod.splits if_splits simp: Close_begin_def Close_stop_def Let_def
        weight_cong [of "_\<lparr>cl_stopped := _\<rparr>"] weight_cong [of "_\<lparr>cl_closed := _, cl_conn := _\<rparr>"]
        dest!: take_frees [where x = x]
        intro!: order_trans [OF weight_close])

definition in_hands :: "mq_sys \<Rightarrow> pooledChannel list" where
  "in_hands s = concat (map worker_has (ms_workers s)) @ loop_has (ms_loop s)"

definition at_most_once :: "mq_sys \<Rightarrow> bool" where
  "at_most_once s \<longleftrightarrow>
     (\<forall>x. weight (ms_client s) x + handles (in_hands s) x \<le> (if x < cl_next (ms_client s) then 1 else 0))"

lemma handles_update:
  assumes "i < length ws"
  shows "handles (concat (map worker_has (ws[i := w]))) x + handles (worker_has (ws ! i)) x =
         handles (concat (map worker_has ws)) x + handles (worker_has w) x"
proof -
  have "ws = take i ws @ ws ! i # drop (Suc i) ws" using assms by (rule id_take_nth_drop)
  then have "handles (concat (map worker_has ws)) x =
      handles (concat (map worker_has (take i ws @ ws ! i # drop (Suc i) ws))) x" by simp
  with assms show ?thesis by (simp add: upd_conv_take_nth_drop)
qed

lemma act_frees:
  assumes "mq_act q a s = Some s'"
  shows "weight (ms_client s') x + handles (in_hands s') x \<le>
           weight (ms_client s) x + handles (in_hands s) x + opened (ms_client s) (ms_client s') x \<and>
         cl_next (ms_client s) \<le> cl_next (ms_client s')"
proof (cases a)
  case (Work i b)
  with assms obtain w c where i: "i < length (ms_workers s)"
    and st: "worker_step b (ms_workers s ! i) (ms_client s) = Some (w, c)"
    and s': "s' = s\<lparr>ms_client := c, ms_workers := (ms_workers s)[i := w]\<rparr>"
    by (auto split: if_splits)
  from worker_frees [OF st, of x] handles_update [OF i, of w x] show ?thesis
    unfolding s' in_hands_def by simp
next
  case (Loop b)
  with assms obtain l c where "loop_step q b (ms_loop s) (ms_client s) = Some (l, c)"
    and "s' = s\<lparr>ms_client := c, ms_loop := l\<rparr>" by auto
  then show ?thesis using loop_frees [of q b "ms_loop s" "ms_client s" l c x] by (simp add: in_hands_def)
next
  case (Closing b)
  with assms obtain k c where "closer_step b (ms_closer s) (ms_client s) = Some (k, c)"
    and "s' = s\<lparr>ms_client := c, ms_closer := k\<rparr>" by auto
  then show ?thesis using closer_frees [of b "ms_closer s" "ms_client s" k c x] by (simp add: in_hands_def)
next
  case (Dies k)
  with assms show ?thesis by (auto simp: in_hands_def)
qed

lemma act_at_most_once: "at_most_once s \<Longrightarrow> mq_act q a s = Some s' \<Longrightarrow> at_most_once s'"
  unfolding at_most_once_def
proof
  fix x
  assume "\<forall>x. weight (ms_client s) x + handles (in_hands s) x \<le> (if x < cl_next (ms_client s) then 1 else 0)"
    and a: "mq_act q a s = Some s'"
  then have "weight (ms_client s) x + handles (in_hands s) x \<le> (if x < cl_next (ms_client s) then 1 else 0)"
    by blast
  with act_frees [OF a, of x]
  show "weight (ms_client s') x + handles (in_hands s') x \<le> (if x < cl_next (ms_client s') then 1 else 0)"
    by (auto simp: opened_def split: if_splits)
qed

definition unconnected :: "MqConfig \<Rightarrow> Client" where
  "unconnected cfg =
     \<lparr>cl_cfg = MqConfig_applyDefaults cfg, cl_conn = None, cl_pool = [], cl_connReady = 0, cl_signalled = {0},
      cl_closed = False, cl_stopped = False, cl_dead = {}, cl_closedCh = {}, cl_next = 0\<rparr>"

lemma NewClient_Inr:
  assumes "NewClient q cfg env = Inr c"
  obtains conn channels c0 where "connect q env (unconnected cfg) = (Inr (conn, channels), c0)"
    and "c = fold offer channels (c0\<lparr>cl_conn := Some conn\<rparr>)"
  using assms by (auto simp: NewClient_def dial_def unconnected_def split: prod.splits sum.splits option.splits)

lemma start_at_most_once:
  assumes "NewClient q cfg env = Inr c"
  shows "at_most_once (mq_start n c)"
proof -
  obtain conn channels c0 where k: "connect q env (unconnected cfg) = (Inr (conn, channels), c0)"
    and c: "c = fold offer channels (c0\<lparr>cl_conn := Some conn\<rparr>)"
    using assms by (rule NewClient_Inr)
  have none: "concat (map worker_has (replicate n Outside)) = []" by (induction n) simp_all
  show ?thesis unfolding at_most_once_def
  proof
    fix x
    have "weight c x \<le> weight c0 x + handles channels x"
      using weight_fold_offer [of channels "c0\<lparr>cl_conn := Some conn\<rparr>" x] c
      by (simp add: weight_cong [of "c0\<lparr>cl_conn := Some conn\<rparr>"])
    also have "\<dots> \<le> opened (unconnected cfg) c0 x"
      using weight_connect [OF k, of x] by (simp add: weight_def unconnected_def)
    finally show "weight (ms_client (mq_start n c)) x + handles (in_hands (mq_start n c)) x \<le>
        (if x < cl_next (ms_client (mq_start n c)) then 1 else 0)"
      using c none by (auto simp: mq_start_def in_hands_def opened_def split: if_splits)
  qed
qed

lemma reach_at_most_once: "pool_reach q s \<Longrightarrow> at_most_once s"
  by (induction rule: pool_reach.induct) (auto intro: start_at_most_once act_at_most_once)

lemma live_channels_alt: "live_channels s = map pc_ch (cl_pool (ms_client s)) @ map pc_ch (in_hands s)"
  by (simp add: live_channels_def in_hands_def)

lemma distinct_if_count: "(\<And>x. count (mset xs) x \<le> 1) \<Longrightarrow> distinct xs"
proof (induction xs)
  case (Cons y ys)
  have "count (mset ys) x \<le> 1" for x
    by (rule order_trans [OF _ Cons.prems [of x]]) simp
  moreover have "y \<notin> set ys" using Cons.prems [of y] by (auto simp: count_eq_zero_iff)
  ultimately show ?case using Cons.IH by simp
qed simp

text \<open>C29: In every state the client, its workers, the reconnect loop and \<open>Close\<close> can reach, however they are
  interleaved and whatever connections die: no AMQP channel is with two of them, or with one of them and in
  the pool, or in the pool twice, and none of these channels has been closed by the client. So a chunk has
  its channel for itself.\<close>
theorem channel_never_shared:
  assumes "pool_reach quote s"
  shows "distinct (live_channels s) \<and> set (live_channels s) \<inter> cl_closedCh (ms_client s) = {}"
proof
  have le: "weight (ms_client s) x + handles (in_hands s) x \<le> 1" for x
  proof -
    have "weight (ms_client s) x + handles (in_hands s) x \<le> (if x < cl_next (ms_client s) then 1 else 0)"
      using reach_at_most_once [OF assms] unfolding at_most_once_def by blast
    also have "\<dots> \<le> 1" by simp
    finally show ?thesis .
  qed
  have live: "count (mset (live_channels s)) x + (if x \<in> cl_closedCh (ms_client s) then 1 else 0) \<le> 1" for x
    using le [of x] by (simp add: live_channels_alt weight_def)
  show "distinct (live_channels s)"
    by (rule distinct_if_count) (use live add_leD1 in blast)
  show "set (live_channels s) \<inter> cl_closedCh (ms_client s) = {}"
  proof (rule equals0I)
    fix x assume "x \<in> set (live_channels s) \<inter> cl_closedCh (ms_client s)"
    then have "0 < count (mset (live_channels s)) x" and "x \<in> cl_closedCh (ms_client s)" by simp_all
    with live [of x] show False by simp
  qed
qed

subsection \<open>Connected, closed, full\<close>

primrec loop_ok :: "Client \<Rightarrow> loop \<Rightarrow> bool" where
  "loop_ok c LTop = True"
| "loop_ok c LIdle = True"
| "loop_ok c (LWatch k) = True"
| "loop_ok c LDisconnect = True"
| "loop_ok c (LDrain r) = (r = cl_connReady c \<and> r \<notin> cl_signalled c \<and> cl_conn c = None)"
| "loop_ok c (LBackoff r d) = (r = cl_connReady c \<and> r \<notin> cl_signalled c \<and> cl_conn c = None)"
| "loop_ok c (LDial r d) = (r = cl_connReady c \<and> r \<notin> cl_signalled c \<and> cl_conn c = None)"
| "loop_ok c (LCommit r k channels) =
     (r = cl_connReady c \<and> r \<notin> cl_signalled c \<and> cl_conn c = None \<and> length channels = pool_cap c)"
| "loop_ok c (LSignal r) = (r = cl_connReady c \<and> (cl_closed c \<or> cl_conn c \<noteq> None))"
| "loop_ok c LCheck = True"
| "loop_ok c LGone = True"

definition client_ok :: "Client \<Rightarrow> bool" where
  "client_ok c \<longleftrightarrow>
     length (cl_pool c) \<le> pool_cap c \<and> (cl_stopped c \<longrightarrow> cl_closed c) \<and> (cl_closed c \<longrightarrow> cl_conn c = None) \<and>
     (\<forall>r\<in>cl_signalled c. r \<le> cl_connReady c) \<and>
     (cl_connReady c \<in> cl_signalled c \<longrightarrow> cl_closed c \<or> cl_conn c \<noteq> None)"

text \<open>What a step of a worker, or a connection that dies, may do to the client.\<close>

definition pool_only :: "Client \<Rightarrow> Client \<Rightarrow> bool" where
  "pool_only c c' \<longleftrightarrow>
     cl_cfg c' = cl_cfg c \<and> cl_conn c' = cl_conn c \<and> cl_connReady c' = cl_connReady c \<and>
     cl_signalled c' = cl_signalled c \<and> cl_closed c' = cl_closed c \<and> cl_stopped c' = cl_stopped c \<and>
     (length (cl_pool c) \<le> pool_cap c \<longrightarrow> length (cl_pool c') \<le> pool_cap c) \<and>
     (cl_closed c \<longrightarrow> length (cl_pool c') \<le> length (cl_pool c))"

lemma pool_only_library: "library_only c c' \<Longrightarrow> pool_only c c'"
  by (simp add: library_only_def pool_only_def)

lemma pool_only_offer [simp]: "\<not> cl_closed c \<Longrightarrow> pool_only c (offer pc c)"
  by (simp add: pool_only_def) (simp add: offer_def)

lemma pool_only_close [simp]: "pool_only c c" "pool_only c (close_ch pc c)" "pool_only c (close_conn k c)"
  by (simp_all add: pool_only_def)

lemma pool_only_take: "take_pool c = Some (pc, c') \<Longrightarrow> pool_only c c'"
  by (auto simp: take_pool_def pool_only_def split: list.splits)

lemma worker_pool_only: "worker_step a w c = Some (w', c') \<Longrightarrow> pool_only c c'"
  by (cases w; cases a)
     (auto split: option.splits prod.splits sum.splits if_splits simp: release_begin_def release_commit_def
        dest!: library_only_open pool_only_library dest: pool_only_take)

lemma pool_only_ok: "pool_only c c' \<Longrightarrow> client_ok c \<Longrightarrow> client_ok c'"
  by (auto simp: pool_only_def client_ok_def pool_cap_def)

lemma pool_only_loop_ok: "pool_only c c' \<Longrightarrow> loop_ok c l \<Longrightarrow> loop_ok c' l"
  by (cases l) (auto simp: pool_only_def pool_cap_def)

lemma length_fold_offer: "length (cl_pool c) \<le> pool_cap c \<Longrightarrow>
  length (cl_pool (fold offer pcs c)) = min (pool_cap c) (length (cl_pool c) + length pcs)"
proof (induction pcs arbitrary: c)
  case (Cons pc pcs)
  have "length (cl_pool (offer pc c)) = min (pool_cap c) (Suc (length (cl_pool c)))"
    using Cons.prems by (auto simp: offer_def)
  moreover have "pool_cap (offer pc c) = pool_cap c" by (simp add: pool_cap_def)
  ultimately show ?case using Cons.IH [of "offer pc c"] by auto
qed simp

lemma length_build: "build_loop env k i n chs c = (Inr pcs, c') \<Longrightarrow> length pcs = length chs + n"
  by (induction env k i n chs c rule: build_loop.induct) (auto split: prod.splits sum.splits)

lemma length_connect: "connect q env c = (Inr (k, pcs), c') \<Longrightarrow> length pcs = pool_cap c"
  by (auto simp: connect_def buildChannels_def pool_cap_def library_only_def split: option.splits prod.splits sum.splits
      dest!: length_build library_only_fresh library_only_declare)

lemma disconnect_ok:
  "client_ok c \<Longrightarrow> client_ok (disconnect_begin c) \<and> loop_ok (disconnect_begin c) (LDrain (Suc (cl_connReady c)))"
  by (auto simp: client_ok_def disconnect_begin_def pool_cap_def)

lemma commit_ok:
  assumes "reconnect_commit r k pcs c = (e, c')" and "client_ok c" and "loop_ok c (LCommit r k pcs)"
  shows "client_ok c' \<and> (e = None \<longrightarrow> loop_ok c' (LSignal r))"
proof (cases "cl_closed c \<or> cl_connReady c \<noteq> r")
  case True
  with assms show ?thesis by (auto simp: reconnect_commit_def client_ok_def pool_cap_def)
next
  case False
  define d where "d = c\<lparr>cl_conn := Some k\<rparr>"
  have "length (cl_pool d) \<le> pool_cap d" using assms(2) by (simp add: d_def client_ok_def pool_cap_def)
  moreover have "e = None" "c' = fold offer pcs d" using False assms(1) by (auto simp: reconnect_commit_def d_def)
  ultimately show ?thesis
    using False assms(2,3) length_fold_offer [of d pcs] by (simp add: client_ok_def pool_cap_def) (simp add: d_def)
qed

lemma signal_ok: "client_ok c \<Longrightarrow> loop_ok c (LSignal r) \<Longrightarrow> client_ok (signal_ready r c)"
  by (auto simp: client_ok_def signal_ready_def pool_cap_def)

lemma drain_ok:
  "take_pool c = Some (pc, c') \<Longrightarrow> client_ok c \<Longrightarrow> loop_ok c l \<Longrightarrow> client_ok (close_ch pc c') \<and> loop_ok (close_ch pc c') l"
  by (rule conjI; drule pool_only_take)
     (auto intro: pool_only_ok pool_only_loop_ok pool_only_close)

lemma loop_step_ok:
  assumes "loop_step q a l c = Some (l', c')" and "client_ok c" and "loop_ok c l"
  shows "client_ok c' \<and> loop_ok c' l'"
proof (cases l)
  case (LDial r d)
  then obtain env o1 where a: "a = LLibrary env" and o: "connect q env c = (o1, c')"
    using assms(1) by (cases a) (auto split: prod.splits sum.splits)
  have p: "pool_only c c'" using library_only_connect [OF o] by (rule pool_only_library)
  have ok: "client_ok c'" "loop_ok c' (LDial r d)"
    using pool_only_ok [OF p assms(2)] pool_only_loop_ok [OF p assms(3) [unfolded LDial]] by blast+
  show ?thesis
  proof (cases o1)
    case (Inl e)
    then have "l' = LCheck \<or> (\<exists>d'. l' = LBackoff r d')" using o a LDial assms(1) by (auto split: if_splits)
    with ok show ?thesis by auto
  next
    case (Inr m)
    obtain k pcs where m: "m = (k, pcs)" by fastforce
    have "length pcs = pool_cap c" using o unfolding Inr m by (rule length_connect)
    moreover have "pool_cap c' = pool_cap c" using p by (simp add: pool_only_def pool_cap_def)
    ultimately show ?thesis using o a LDial assms(1) ok Inr m by auto
  qed
next
  case (LCommit r k pcs)
  then obtain e where e: "reconnect_commit r k pcs c = (e, c')" and l': "l' = (if e = None then LSignal r else LCheck)"
    using assms(1) by (cases a) (auto split: option.splits prod.splits)
  from commit_ok [OF e assms(2)] assms(3) LCommit l' show ?thesis by (cases e) auto
next
  case (LDrain r)
  show ?thesis
  proof (cases "take_pool c")
    case (Some p)
    with LDrain assms drain_ok [of c "fst p" "snd p" l] show ?thesis by (cases a) (auto split: prod.splits)
  qed (use LDrain assms in \<open>cases a; auto\<close>)
next
  case LDisconnect
  with assms disconnect_ok [of c] show ?thesis by (cases a) auto
next
  case (LSignal r)
  with assms signal_ok [of c r] show ?thesis by (cases a) auto
qed (use assms in \<open>cases a; auto split: if_splits option.splits\<close>)+

lemma closer_step_ok:
  assumes "closer_step a k c = Some (k', c')" and "client_ok c" and "loop_ok c l"
    and "k \<noteq> NotClosing \<longrightarrow> cl_closed c"
  shows "client_ok c' \<and> loop_ok c' l \<and> (k' \<noteq> NotClosing \<longrightarrow> cl_closed c')"
  using assms
proof (cases k)
  case NotClosing
  have "client_ok (c\<lparr>cl_closed := True, cl_conn := None\<rparr>)" "loop_ok (c\<lparr>cl_closed := True, cl_conn := None\<rparr>) l"
    using assms(2,3) by (cases l; auto simp: client_ok_def pool_cap_def)+
  with NotClosing assms show ?thesis by (cases a) (auto simp: Close_begin_def split: if_splits)
next
  case (CStop j)
  have "client_ok (Close_stop c)" "loop_ok (Close_stop c) l"
    using assms CStop by (cases l; auto simp: client_ok_def pool_cap_def Close_stop_def)+
  with CStop assms show ?thesis by (cases a) (auto simp: Close_stop_def)
next
  case (CDrain j n)
  then show ?thesis
  proof (cases "take_pool c")
    case (Some p)
    then have "cl_closed (snd p) = cl_closed c" using pool_only_take [of c "fst p" "snd p"] by (simp add: pool_only_def)
    with Some CDrain assms drain_ok [of c "fst p" "snd p" l] show ?thesis
      by (cases a) (auto split: prod.splits if_splits)
  qed (use assms in \<open>cases a; auto split: if_splits\<close>)
next
  case (CConn j)
  have "client_ok (close_conn m c)" "loop_ok (close_conn m c) l" for m
    using assms(2,3) pool_only_close(3) by (blast intro: pool_only_ok pool_only_loop_ok)+
  with CConn assms show ?thesis by (cases a) (auto split: option.splits if_splits)
qed (use assms in \<open>cases a; simp\<close>)

definition mq_ok :: "mq_sys \<Rightarrow> bool" where
  "mq_ok s \<longleftrightarrow> client_ok (ms_client s) \<and> loop_ok (ms_client s) (ms_loop s) \<and>
     (ms_closer s \<noteq> NotClosing \<longrightarrow> cl_closed (ms_client s))"

lemma loop_step_closed: "loop_step q a l c = Some (l', c') \<Longrightarrow> cl_closed c' = cl_closed c"
  by (cases l; cases a)
     (auto split: option.splits prod.splits sum.splits if_splits list.splits
        simp: disconnect_begin_def signal_ready_def reconnect_commit_def take_pool_def
        dest!: library_only_connect simp: library_only_def)

lemma act_ok:
  assumes "mq_act q a s = Some s'" and "mq_ok s"
  shows "mq_ok s'"
proof (cases a)
  case (Work i b)
  with assms obtain w c where w: "worker_step b (ms_workers s ! i) (ms_client s) = Some (w, c)"
    and s': "s' = s\<lparr>ms_client := c, ms_workers := (ms_workers s)[i := w]\<rparr>"
    by (auto split: if_splits)
  from w have "pool_only (ms_client s) c" by (rule worker_pool_only)
  with assms(2) s' show ?thesis
    by (auto simp: mq_ok_def pool_only_def intro: pool_only_ok pool_only_loop_ok)
next
  case (Loop b)
  with assms obtain l c where "loop_step q b (ms_loop s) (ms_client s) = Some (l, c)"
    and "s' = s\<lparr>ms_client := c, ms_loop := l\<rparr>" by auto
  with assms(2) loop_step_ok [of q b "ms_loop s" "ms_client s" l c] loop_step_closed [of q b "ms_loop s" "ms_client s" l c]
  show ?thesis by (simp add: mq_ok_def)
next
  case (Closing b)
  with assms obtain k c where "closer_step b (ms_closer s) (ms_client s) = Some (k, c)"
    and "s' = s\<lparr>ms_client := c, ms_closer := k\<rparr>" by auto
  with assms(2) closer_step_ok [of b "ms_closer s" "ms_client s" k c "ms_loop s"] show ?thesis by (simp add: mq_ok_def)
next
  case (Dies k)
  with assms have "s' = s\<lparr>ms_client := close_conn k (ms_client s)\<rparr>" by simp
  with assms(2) show ?thesis
    by (auto simp: mq_ok_def intro: pool_only_ok pool_only_loop_ok pool_only_close(3))
qed

lemma start_ok:
  assumes "NewClient q cfg env = Inr c"
  shows "mq_ok (mq_start n c)" and "length (cl_pool c) = pool_cap c"
proof -
  obtain conn channels c0 where k: "connect q env (unconnected cfg) = (Inr (conn, channels), c0)"
    and c: "c = fold offer channels (c0\<lparr>cl_conn := Some conn\<rparr>)"
    using assms by (rule NewClient_Inr)
  define d where "d = c0\<lparr>cl_conn := Some conn\<rparr>"
  have l: "library_only (unconnected cfg) c0" using k by (rule library_only_connect)
  then have d: "cl_pool d = []" "pool_cap d = pool_cap (unconnected cfg)"
    by (simp_all add: d_def library_only_def unconnected_def pool_cap_def)
  have "pool_cap c = pool_cap d" by (simp add: c d_def pool_cap_def)
  with d length_fold_offer [of d channels] length_connect [OF k] c
  show len: "length (cl_pool c) = pool_cap c" by (simp add: d_def)
  have "client_ok c" unfolding client_ok_def using len l by (simp add: c library_only_def unconnected_def)
  then show "mq_ok (mq_start n c)" by (simp add: mq_ok_def mq_start_def)
qed

lemma reach_ok: "pool_reach q s \<Longrightarrow> mq_ok s"
  by (induction rule: pool_reach.induct) (auto intro: start_ok act_ok)

text \<open>C31: Whenever the ready signal that \<open>borrow\<close> reads is closed and the client is not, the client has a
  connection; the pool never holds more channels than its capacity; and after the step in which the
  reconnect loop commits a new connection, before it wakes the waiting workers, the pool is full.\<close>
theorem ready_means_connected:
  assumes "pool_reach quote s"
  shows "(cl_connReady (ms_client s) \<in> cl_signalled (ms_client s) \<and> \<not> cl_closed (ms_client s) \<longrightarrow>
            cl_conn (ms_client s) \<noteq> None) \<and>
         length (cl_pool (ms_client s)) \<le> pool_cap (ms_client s) \<and>
         (\<forall>r conn channels s'. ms_loop s = LCommit r conn channels \<and> mq_act quote (Loop LNext) s = Some s' \<and>
            ms_loop s' = LSignal r \<longrightarrow>
            length (cl_pool (ms_client s')) = pool_cap (ms_client s') \<and> cl_conn (ms_client s') = Some conn)"
proof (intro conjI allI impI)
  have ok: "mq_ok s" using assms by (rule reach_ok)
  show "length (cl_pool (ms_client s)) \<le> pool_cap (ms_client s)" using ok by (simp add: mq_ok_def client_ok_def)
  show "cl_conn (ms_client s) \<noteq> None"
    if "cl_connReady (ms_client s) \<in> cl_signalled (ms_client s) \<and> \<not> cl_closed (ms_client s)"
    using ok that by (simp add: mq_ok_def client_ok_def)
  fix r conn channels s'
  assume as: "ms_loop s = LCommit r conn channels \<and> mq_act quote (Loop LNext) s = Some s' \<and> ms_loop s' = LSignal r"
  define d where "d = ms_client s\<lparr>cl_conn := Some conn\<rparr>"
  have c': "ms_client s' = fold offer channels d"
    using as by (auto simp: reconnect_commit_def d_def split: prod.splits if_splits)
  have "length (cl_pool d) \<le> pool_cap d" and "length channels = pool_cap d"
    using ok as by (simp_all add: mq_ok_def client_ok_def d_def pool_cap_def)
  then show "length (cl_pool (ms_client s')) = pool_cap (ms_client s')"
    using length_fold_offer [of d channels] by (simp add: c') (simp add: pool_cap_def)
  show "cl_conn (ms_client s') = Some conn" by (simp add: c' d_def)
qed

subsection \<open>Runs of the pool\<close>

definition demo_cfg :: MqConfig where
  "demo_cfg = \<lparr>mc_URL = ''amqp://localhost'', mc_Exchange = ''ut_exchange'', mc_ChannelPool = 2, mc_PublisherBuffer = 0,
     mc_ConfirmTimeoutMs = 0, mc_ReconnectInitialBackoffMs = 0, mc_ReconnectMaxBackoffMs = 0\<rparr>"

definition healthy :: dial_env where
  "healthy = \<lparr>de_dial = None, de_declareOpen = None, de_declare = None, de_channel = (\<lambda>_. None), de_confirm = (\<lambda>_. None)\<rparr>"

definition demo_client :: Client where
  "demo_client = (case NewClient (\<lambda>s. s) demo_cfg healthy of Inr c \<Rightarrow> c)"

text \<open>
  A worker borrows a channel; its connection dies after the worker has its confirms; the loop notices and
  empties the pool; the worker releases the channel, which it has not found broken; the loop connects anew.
\<close>

definition stale_run :: "action list" where
  "stale_run =
     [Work 0 Regular, Work 0 Regular, Work 0 Regular, Loop LNext, Dies 0, Loop LNext, Loop LNext, Loop LNext,
      Loop LNext, Work 0 Regular, Loop LNext, Loop (LLibrary healthy), Loop LNext, Loop LNext]"

definition demo_final :: "action list \<Rightarrow> mq_sys" where
  "demo_final acts = (case mq_run (\<lambda>s. s) acts (mq_start 2 demo_client) of Some s \<Rightarrow> s | None \<Rightarrow> mq_start 2 demo_client)"

lemma demo_client_new: "NewClient (\<lambda>s. s) demo_cfg healthy = Inr demo_client"
  by code_simp

lemma demo_reach: "mq_run (\<lambda>s. s) acts (mq_start 2 demo_client) \<noteq> None \<Longrightarrow> pool_reach (\<lambda>s. s) (demo_final acts)"
  by (auto simp: demo_final_def intro: pool_reach_run pool_reach.start [OF demo_client_new])

lemma stale_run_runs: "mq_run (\<lambda>s. s) stale_run (mq_start 2 demo_client) \<noteq> None"
  by code_simp

theorem channel_never_shared_witness:
  "distinct (live_channels (demo_final stale_run)) \<and>
   set (live_channels (demo_final stale_run)) \<inter> cl_closedCh (ms_client (demo_final stale_run)) = {}"
  by (rule channel_never_shared [OF demo_reach [OF stale_run_runs]])

theorem ready_means_connected_witness:
  "length (cl_pool (ms_client (demo_final stale_run))) \<le> pool_cap (ms_client (demo_final stale_run)) \<and>
   cl_conn (ms_client (demo_final stale_run)) \<noteq> None"
proof -
  have "cl_connReady (ms_client (demo_final stale_run)) \<in> cl_signalled (ms_client (demo_final stale_run)) \<and>
    \<not> cl_closed (ms_client (demo_final stale_run))" by code_simp
  with ready_means_connected [OF demo_reach [OF stale_run_runs]] show ?thesis by blast
qed

text \<open>C36: The comment of \<open>handleDisconnect\<close> says that channels in use when the connection is lost are thrown
  away when they are released. There is a run of an open client after which a channel of a dead, replaced
  connection is in the pool, not marked as broken: \<open>release\<close> looks at the connection only for a channel that
  is marked, so a worker that was past its last use of the channel puts it back, and the reconnect loop,
  which emptied the pool before that, does not remove it and drops one of its new channels instead.\<close>
theorem stale_channel_pooled:
  "\<exists>s. pool_reach (\<lambda>s. s) s \<and> \<not> cl_closed (ms_client s) \<and>
     cl_connReady (ms_client s) \<in> cl_signalled (ms_client s) \<and>
     (\<exists>pc\<in>set (cl_pool (ms_client s)). pc_conn pc \<in> cl_dead (ms_client s) \<and>
        cl_conn (ms_client s) \<noteq> Some (pc_conn pc) \<and> \<not> pc_broken pc)"
proof -
  have "list_ex (\<lambda>pc. pc_conn pc \<in> cl_dead (ms_client (demo_final stale_run)) \<and>
      cl_conn (ms_client (demo_final stale_run)) \<noteq> Some (pc_conn pc) \<and> \<not> pc_broken pc)
      (cl_pool (ms_client (demo_final stale_run)))" by code_simp
  moreover have "\<not> cl_closed (ms_client (demo_final stale_run))"
    "cl_connReady (ms_client (demo_final stale_run)) \<in> cl_signalled (ms_client (demo_final stale_run))"
    by code_simp+
  ultimately show ?thesis
    using demo_reach [OF stale_run_runs] unfolding list_ex_iff by blast
qed

subsection \<open>Closing\<close>

text \<open>\<open>Close\<close> waits for more channels than will ever be in the pool.\<close>

definition starving :: "nat option \<Rightarrow> mq_sys \<Rightarrow> bool" where
  "starving k s \<longleftrightarrow>
     (\<exists>n. ms_closer s = CDrain k n \<and> n + length (cl_pool (ms_client s)) < pool_cap (ms_client s))"

lemma loop_step_shrinks:
  assumes "loop_step q a l c = Some (l', c')" and "cl_closed c"
  shows "length (cl_pool c') \<le> length (cl_pool c) \<and> cl_cfg c' = cl_cfg c"
  using assms
  by (cases l; cases a)
     (auto split: option.splits prod.splits sum.splits if_splits list.splits
        simp: disconnect_begin_def signal_ready_def reconnect_commit_def take_pool_def
        dest!: library_only_connect simp: library_only_def)

lemma act_starving:
  assumes "mq_act q a s = Some s'" and "mq_ok s" and "starving k s" and "a \<noteq> Closing CCtxDone"
  shows "starving k s'"
proof -
  from assms(3) obtain n where k: "ms_closer s = CDrain k n"
    and n: "n + length (cl_pool (ms_client s)) < pool_cap (ms_client s)" by (auto simp: starving_def)
  with assms(2) have closed: "cl_closed (ms_client s)" by (simp add: mq_ok_def)
  show ?thesis
  proof (cases a)
    case (Work i b)
    with assms obtain w c where w: "worker_step b (ms_workers s ! i) (ms_client s) = Some (w, c)"
      and s': "s' = s\<lparr>ms_client := c, ms_workers := (ms_workers s)[i := w]\<rparr>" by (auto split: if_splits)
    from worker_pool_only [OF w] closed k n s' show ?thesis by (auto simp: starving_def pool_only_def pool_cap_def)
  next
    case (Loop b)
    with assms obtain l c where l: "loop_step q b (ms_loop s) (ms_client s) = Some (l, c)"
      and s': "s' = s\<lparr>ms_client := c, ms_loop := l\<rparr>" by auto
    from loop_step_shrinks [OF l closed] k n s' show ?thesis by (auto simp: starving_def pool_cap_def)
  next
    case (Closing b)
    with assms k n show ?thesis
      by (cases b) (auto simp: starving_def take_pool_def pool_cap_def split: list.splits)
  next
    case (Dies m)
    with assms k n show ?thesis by (auto simp: starving_def pool_cap_def)
  qed
qed

text \<open>C35: Once the client is closed every channel that a worker still has is closed on its release and not put
  back, but \<open>Close\<close> goes on waiting for as many channels as the pool can hold. So if fewer are left in the pool,
  then whatever happens, for as long as its context has not ended, \<open>Close\<close> does not get past this loop: it uses
  up all the time it was given, even when every worker has released its channel.\<close>
theorem Close_waits_for_ctx:
  assumes "pool_reach quote s" and "ms_closer s = CDrain k n"
    and "n + length (cl_pool (ms_client s)) < pool_cap (ms_client s)"
    and "mq_run quote acts s = Some s'" and "Closing CCtxDone \<notin> set acts"
  shows "\<exists>n'. ms_closer s' = CDrain k n' \<and> n' + length (cl_pool (ms_client s')) < pool_cap (ms_client s')"
proof -
  have "starving k s" using assms(2,3) by (auto simp: starving_def)
  moreover have "mq_ok s" using assms(1) by (rule reach_ok)
  ultimately have "starving k s'" using assms(4,5)
    by (induction acts arbitrary: s) (auto split: option.splits dest: act_ok act_starving)
  then show ?thesis by (simp add: starving_def)
qed

text \<open>One worker has a channel when \<open>Close\<close> begins; it releases it; the channel left in the pool is drained.\<close>

definition closing_run :: "action list" where
  "closing_run = [Work 0 Regular, Work 0 Regular, Work 0 Regular, Closing CNext, Closing CNext]"

theorem Close_waits_for_ctx_witness:
  "\<exists>s' n'. mq_run (\<lambda>s. s) [Work 0 Regular, Closing CNext] (demo_final closing_run) = Some s' \<and>
     list_all (\<lambda>w. w = Outside) (ms_workers s') \<and> cl_pool (ms_client s') = [] \<and> ms_closer s' = CDrain (Some 0) n' \<and> n' < 2"
proof -
  have r: "mq_run (\<lambda>s. s) closing_run (mq_start 2 demo_client) \<noteq> None" by code_simp
  have k: "ms_closer (demo_final closing_run) = CDrain (Some 0) 0"
    "0 + length (cl_pool (ms_client (demo_final closing_run))) < pool_cap (ms_client (demo_final closing_run))"
    by code_simp+
  define s' where "s' = demo_final (closing_run @ [Work 0 Regular, Closing CNext])"
  have s': "mq_run (\<lambda>s. s) [Work 0 Regular, Closing CNext] (demo_final closing_run) = Some s'"
    unfolding s'_def by code_simp
  have "list_all (\<lambda>w. w = Outside) (ms_workers s') \<and> cl_pool (ms_client s') = [] \<and> pool_cap (ms_client s') = 2"
    unfolding s'_def by code_simp
  moreover obtain n' where "ms_closer s' = CDrain (Some 0) n'" "n' + length (cl_pool (ms_client s')) < pool_cap (ms_client s')"
    using Close_waits_for_ctx [OF demo_reach [OF r] k s'] by auto
  ultimately show ?thesis using s' by auto
qed

subsection \<open>The delays\<close>

lemma sint_milliseconds:
  assumes "0 \<le> n" and "n \<le> 4000000000000"
  shows "sint (milliseconds n) = n * 1000000"
proof -
  have "milliseconds n = word_of_int (n * 1000000)" by (simp add: milliseconds_def Millisecond_def)
  moreover have "sint (word_of_int (n * 1000000) :: duration) = n * 1000000"
    using assms unfolding signed_of_int by (simp, intro signed_take_bit_int_eq_self; simp)
  ultimately show ?thesis by simp
qed

lemma next_backoff_bounds:
  assumes "0 < sint d" and "sint d < 2 ^ 62" and "0 < sint m"
  shows "sint (next_backoff m d) = min (sint m) (sint d * 2)"
  using sint_double [of d] assms by (auto simp: next_backoff_def Let_def word_sless_alt)

primrec loop_delay :: "loop \<Rightarrow> duration option" where
  "loop_delay LTop = None"
| "loop_delay LIdle = None"
| "loop_delay (LWatch k) = None"
| "loop_delay LDisconnect = None"
| "loop_delay (LDrain r) = None"
| "loop_delay (LBackoff r d) = Some d"
| "loop_delay (LDial r d) = Some d"
| "loop_delay (LCommit r k pcs) = None"
| "loop_delay (LSignal r) = None"
| "loop_delay LCheck = None"
| "loop_delay LGone = None"

definition delay_ok :: "mq_sys \<Rightarrow> bool" where
  "delay_ok s \<longleftrightarrow>
     (\<forall>d. loop_delay (ms_loop s) = Some d \<longrightarrow>
        1000000 \<le> sint d \<and>
        sint d \<le> max (mc_ReconnectInitialBackoffMs (cl_cfg (ms_client s))) (mc_ReconnectMaxBackoffMs (cl_cfg (ms_client s))) * 1000000)"

definition sane_delays :: "MqConfig \<Rightarrow> bool" where
  "sane_delays cfg \<longleftrightarrow>
     (let lo = mc_ReconnectInitialBackoffMs cfg; hi = mc_ReconnectMaxBackoffMs cfg in
      1 \<le> lo \<and> lo \<le> 4000000000000 \<and> 1 \<le> hi \<and> hi \<le> 4000000000000)"

lemma loop_step_cfg: "loop_step q a l c = Some (l', c') \<Longrightarrow> cl_cfg c' = cl_cfg c"
  by (cases l; cases a)
     (auto split: option.splits prod.splits sum.splits if_splits list.splits
        simp: disconnect_begin_def signal_ready_def reconnect_commit_def take_pool_def
        dest!: library_only_connect simp: library_only_def)

lemma closer_step_cfg: "closer_step a k c = Some (k', c') \<Longrightarrow> cl_cfg c' = cl_cfg c"
  by (cases k; cases a)
     (auto split: option.splits prod.splits if_splits list.splits simp: Close_begin_def Close_stop_def take_pool_def)

lemma act_cfg: "mq_act q a s = Some s' \<Longrightarrow> cl_cfg (ms_client s') = cl_cfg (ms_client s)"
  by (cases a) (auto split: if_splits dest!: worker_pool_only loop_step_cfg closer_step_cfg simp: pool_only_def)

lemma no_delay:
  assumes "loop_step q a l c = Some (l', c')" and "loop_delay l = None" and "\<And>r. l \<noteq> LDrain r"
  shows "loop_delay l' = None"
proof (cases l)
  case (LCommit r k pcs)
  obtain e d where "reconnect_commit r k pcs c = (e, d)" by fastforce
  with LCommit assms(1) show ?thesis by (cases a; cases e) auto
next
  case LTop
  with assms(1) show ?thesis by (cases a; cases "cl_conn c") auto
next
  case (LWatch k)
  with assms(1) show ?thesis by (cases a; cases "cl_closed c") (auto split: if_splits)
next
  case LIdle
  with assms(1) show ?thesis by (cases a) (auto split: if_splits)
next
  case LDisconnect
  with assms(1) show ?thesis by (cases a) auto
next
  case (LSignal r)
  with assms(1) show ?thesis by (cases a) auto
next
  case LCheck
  with assms(1) show ?thesis by (cases a; cases "cl_closed c") auto
next
  case LGone
  with assms(1) show ?thesis by (cases a) auto
qed (use assms in simp_all)

lemma loop_step_delay:
  assumes "loop_step q a l c = Some (l', c')" and "sane_delays (cl_cfg c)"
    and "\<And>d. loop_delay l = Some d \<Longrightarrow> 1000000 \<le> sint d \<and>
      sint d \<le> max (mc_ReconnectInitialBackoffMs (cl_cfg c)) (mc_ReconnectMaxBackoffMs (cl_cfg c)) * 1000000"
    and "loop_delay l' = Some d'"
  shows "1000000 \<le> sint d' \<and>
    sint d' \<le> max (mc_ReconnectInitialBackoffMs (cl_cfg c)) (mc_ReconnectMaxBackoffMs (cl_cfg c)) * 1000000"
proof (cases l)
  case (LDial r d)
  then obtain env o1 where a: "a = LLibrary env" and o: "connect q env c = (o1, c')"
    using assms(1) by (cases a) (auto split: prod.splits sum.splits)
  define m where "m = milliseconds (mc_ReconnectMaxBackoffMs (cl_cfg c))"
  have "cl_cfg c' = cl_cfg c" using library_only_connect [OF o] by (simp add: library_only_def)
  then have d': "d' = next_backoff m d"
    using LDial a o assms(1,4) by (auto simp: m_def split: sum.splits prod.splits if_splits)
  have m: "sint m = mc_ReconnectMaxBackoffMs (cl_cfg c) * 1000000"
    using assms(2) unfolding m_def by (intro sint_milliseconds) (auto simp: sane_delays_def Let_def)
  have b: "1000000 \<le> sint d" "sint d < 2 ^ 62"
    using assms(2) assms(3) [of d] LDial by (auto simp: sane_delays_def Let_def)
  have "sint d' = min (sint m) (sint d * 2)"
    unfolding d' using b m assms(2) by (intro next_backoff_bounds) (auto simp: sane_delays_def Let_def)
  then show ?thesis using b m assms(2) by (auto simp: sane_delays_def Let_def)
next
  case (LDrain r)
  then have "take_pool c = None" and "d' = milliseconds (mc_ReconnectInitialBackoffMs (cl_cfg c))"
    using assms(1,4) by (cases a; auto split: option.splits prod.splits)+
  moreover have "sint (milliseconds (mc_ReconnectInitialBackoffMs (cl_cfg c))) =
      mc_ReconnectInitialBackoffMs (cl_cfg c) * 1000000"
    using assms(2) by (intro sint_milliseconds) (auto simp: sane_delays_def Let_def)
  ultimately show ?thesis using assms(2) by (auto simp: sane_delays_def Let_def)
next
  case (LBackoff r d)
  with assms(1,4) have "d' = d" by (cases a) (auto split: if_splits)
  with assms(3) LBackoff show ?thesis by simp
qed (use assms(1,4) no_delay [of q a l c l' c'] in simp_all)

lemma act_delay:
  assumes "mq_act q a s = Some s'" and "delay_ok s" and "sane_delays (cl_cfg (ms_client s))"
  shows "delay_ok s'"
proof (cases a)
  case (Loop b)
  with assms obtain l c where l: "loop_step q b (ms_loop s) (ms_client s) = Some (l, c)"
    and s': "s' = s\<lparr>ms_client := c, ms_loop := l\<rparr>" by auto
  show ?thesis unfolding delay_ok_def
  proof (intro allI impI)
    fix d assume "loop_delay (ms_loop s') = Some d"
    then have d: "loop_delay l = Some d" by (simp add: s')
    have "cl_cfg (ms_client s') = cl_cfg (ms_client s)" using loop_step_cfg [OF l] by (simp add: s')
    moreover have "1000000 \<le> sint d \<and> sint d \<le> max (mc_ReconnectInitialBackoffMs (cl_cfg (ms_client s)))
        (mc_ReconnectMaxBackoffMs (cl_cfg (ms_client s))) * 1000000"
      by (rule loop_step_delay [OF l assms(3) _ d]) (use assms(2) in \<open>unfold delay_ok_def, blast\<close>)
    ultimately show "1000000 \<le> sint d \<and> sint d \<le> max (mc_ReconnectInitialBackoffMs (cl_cfg (ms_client s')))
        (mc_ReconnectMaxBackoffMs (cl_cfg (ms_client s'))) * 1000000" by simp
  qed
next
  case (Work i b)
  with assms(1) have "ms_loop s' = ms_loop s" by (auto split: if_splits)
  with assms(2) act_cfg [OF assms(1)] show ?thesis unfolding delay_ok_def by simp
next
  case (Closing b)
  with assms(1) have "ms_loop s' = ms_loop s" by auto
  with assms(2) act_cfg [OF assms(1)] show ?thesis unfolding delay_ok_def by simp
next
  case (Dies k)
  with assms(1) have "ms_loop s' = ms_loop s" by auto
  with assms(2) act_cfg [OF assms(1)] show ?thesis unfolding delay_ok_def by simp
qed

lemma reach_delay:
  "pool_reach q s \<Longrightarrow> sane_delays (cl_cfg (ms_client s)) \<Longrightarrow> delay_ok s"
proof (induction rule: pool_reach.induct)
  case (start cfg env c workers)
  show ?case by (simp add: delay_ok_def mq_start_def)
next
  case (step s a s')
  with act_cfg [OF step.hyps(2)] show ?case by (auto intro: act_delay)
qed

text \<open>With a first delay and a limit between one millisecond and four billion seconds, every delay of the
  reconnect loop, after however many failed attempts, is a positive duration, at least a millisecond
  and at most the larger of the two: it neither overflows nor becomes a busy loop.\<close>
theorem reconnect_delay_bounds:
  assumes "pool_reach quote s" and "ms_loop s = LBackoff r d"
    and "mc_ReconnectInitialBackoffMs (cl_cfg (ms_client s)) \<in> {1..4000000000000}"
    and "mc_ReconnectMaxBackoffMs (cl_cfg (ms_client s)) \<in> {1..4000000000000}"
  shows "sint Millisecond \<le> sint d \<and>
    sint d \<le> max (mc_ReconnectInitialBackoffMs (cl_cfg (ms_client s)))
                  (mc_ReconnectMaxBackoffMs (cl_cfg (ms_client s))) * sint Millisecond"
proof -
  have "sane_delays (cl_cfg (ms_client s))" using assms(3,4) by (simp add: sane_delays_def)
  with assms(1) have "delay_ok s" by (rule reach_delay)
  moreover have "sint Millisecond = 1000000" by (simp add: Millisecond_def)
  ultimately show ?thesis using assms(2) by (simp add: delay_ok_def)
qed

text \<open>Two attempts to connect fail.\<close>

definition backoff_run :: "action list" where
  "backoff_run =
     (let down = healthy\<lparr>de_dial := Some (ErrorsNew ''connection refused'')\<rparr> in
      [Loop LNext, Dies 0, Loop LNext, Loop LNext, Loop LNext, Loop LNext, Loop LNext,
       Loop LNext, Loop (LLibrary down), Loop LNext, Loop (LLibrary down)])"

theorem reconnect_delay_bounds_witness:
  "ms_loop (demo_final backoff_run) = LBackoff 1 4000000000 \<and>
   sint Millisecond \<le> sint (4000000000 :: duration) \<and> sint (4000000000 :: duration) \<le> 30000 * sint Millisecond"
proof -
  have r: "mq_run (\<lambda>s. s) backoff_run (mq_start 2 demo_client) \<noteq> None" by code_simp
  have l: "ms_loop (demo_final backoff_run) = LBackoff 1 4000000000" by code_simp
  have c: "mc_ReconnectInitialBackoffMs (cl_cfg (ms_client (demo_final backoff_run))) = 1000"
    "mc_ReconnectMaxBackoffMs (cl_cfg (ms_client (demo_final backoff_run))) = 30000" by code_simp+
  from reconnect_delay_bounds [OF demo_reach [OF r] l] c l show ?thesis by simp
qed

end
