(* ===== verification/Pool_Accounts.thy ===== *)
theory Pool_Accounts
  imports Rabbit_Pool
begin

text \<open>
  What becomes of the connections and channels of the publisher, in every interleaving of workers, reconnect
  loop and \<open>Close\<close>: each is closed or still with somebody who will close it, and while a connection lasts
  the pool keeps its size. The counterpart of \<open>Rabbit_Pool\<close>, which shows that no channel has two owners.
\<close>

subsection \<open>Where channels are\<close>

definition held :: "Client \<Rightarrow> nat set" where
  "held c = pc_ch ` set (cl_pool c) \<union> cl_closedCh c"

abbreviation chs :: "pooledChannel list \<Rightarrow> nat set" where
  "chs pcs \<equiv> pc_ch ` set pcs"

definition news :: "Client \<Rightarrow> Client \<Rightarrow> nat set" where
  "news c c' = {cl_next c ..< cl_next c'}"

lemma news_via: "news c c' \<subseteq> news c d \<union> news d c'"
  by (auto simp: news_def)

lemma news_none: "cl_next c' = cl_next c \<Longrightarrow> news c c' = {}"
  by (simp add: news_def)

lemma news_cong: "cl_next c' = cl_next d \<Longrightarrow> news c c' = news c d"
  by (simp add: news_def)

lemma held_cong: "cl_pool c = cl_pool d \<Longrightarrow> cl_closedCh c = cl_closedCh d \<Longrightarrow> held c = held d"
  by (simp add: held_def)

lemma held_ops [simp]:
  "held (close_number n c) = insert n (held c)"
  "held (close_ch pc c) = insert (pc_ch pc) (held c)"
  "held (close_conn k c) = held c"
  "held (offer pc c) = insert (pc_ch pc) (held c)"
  by (auto simp: held_def close_number_def close_conn_def offer_def)

lemma held_folds [simp]:
  "held (fold close_ch pcs c) = chs pcs \<union> held c"
  "held (fold offer pcs c) = chs pcs \<union> held c"
  by (induction pcs arbitrary: c) auto

lemma held_updates [simp]:
  "held (c\<lparr>cl_conn := k\<rparr>) = held c"
  "held (disconnect_begin c) = held c"
  "held (signal_ready r c) = held c"
  "held (Close_stop c) = held c"
  "held (c\<lparr>cl_closed := b\<rparr>) = held c"
  by (simp_all add: held_def disconnect_begin_def signal_ready_def Close_stop_def)

lemma held_take: "take_pool c = Some (pc, c') \<Longrightarrow> held c = insert (pc_ch pc) (held c')"
  by (auto simp: take_pool_def held_def split: list.splits)

lemma held_fresh: "fresh_number c = (n, c') \<Longrightarrow> held c' = held c \<and> n = cl_next c \<and> news c c' = {n}"
  by (auto simp: fresh_number_def held_def news_def)

definition result_chs :: "goerr + pooledChannel list \<Rightarrow> nat set" where
  "result_chs r = (case r of Inl e \<Rightarrow> {} | Inr pcs \<Rightarrow> chs pcs)"

lemma result_chs_simps [simp]: "result_chs (Inl e) = {}" "result_chs (Inr pcs) = chs pcs"
  by (simp_all add: result_chs_def)

lemma held_open:
  assumes "openPooledChannel a b k c = (r, c')"
  shows "held c \<union> news c c' \<subseteq> held c' \<union> (case r of Inl e \<Rightarrow> {} | Inr pc \<Rightarrow> {pc_ch pc})"
    and "r = Inr pc \<Longrightarrow> pc_conn pc = k"
proof -
  obtain n c1 where f: "fresh_number c = (n, c1)" by fastforce
  have n: "news c (close_number n c1) = {n}" using held_fresh [OF f] by (simp add: news_def close_number_def)
  show "held c \<union> news c c' \<subseteq> held c' \<union> (case r of Inl e \<Rightarrow> {} | Inr pc \<Rightarrow> {pc_ch pc})"
    using assms f held_fresh [OF f] n by (auto simp: openPooledChannel_def news_none split: option.splits)
  show "r = Inr pc \<Longrightarrow> pc_conn pc = k" using assms f by (auto simp: openPooledChannel_def split: option.splits)
qed

lemma held_build:
  assumes "build_loop env k i n channels c = (r, c')"
  shows "held c \<union> news c c' \<union> chs channels \<subseteq> held c' \<union> result_chs r"
  using assms
proof (induction env k i n channels c arbitrary: r c' rule: build_loop.induct)
  case (2 env conn i n channels c)
  obtain o1 c1 where o: "openPooledChannel (de_channel env i) (de_confirm env i) conn c = (o1, c1)" by fastforce
  note h = held_open(1) [OF o]
  show ?case
  proof (cases o1)
    case (Inl e)
    with "2.prems" o h news_cong [of "fold close_ch channels c1" c1 c] show ?thesis by auto
  next
    case (Inr pc)
    with "2.prems" o have b: "build_loop env conn (Suc i) n (channels @ [pc]) c1 = (r, c')" by simp
    from "2.IH" [OF o [symmetric] Inr b]
    have "held c1 \<union> news c1 c' \<union> chs (channels @ [pc]) \<subseteq> held c' \<union> result_chs r" .
    moreover note news_via [of c c' c1]
    ultimately show ?thesis using h Inr by (simp add: subset_iff) blast
  qed
qed (auto simp: news_none)

lemma build_conn:
  assumes "build_loop env k i n channels c = (Inr pcs, c')" and "\<forall>pc \<in> set channels. pc_conn pc = k"
  shows "\<forall>pc \<in> set pcs. pc_conn pc = k"
  using assms
proof (induction env k i n channels c arbitrary: pcs c' rule: build_loop.induct)
  case (2 env conn i n channels c)
  obtain o1 c1 where o: "openPooledChannel (de_channel env i) (de_confirm env i) conn c = (o1, c1)" by fastforce
  with "2.prems"(1) obtain pc where Inr: "o1 = Inr pc" by (cases o1) auto
  show ?case
    by (rule "2.IH" [OF o [symmetric] Inr]) (use "2.prems" o Inr held_open(2) [OF o Inr] in auto)
qed simp

lemma held_declare:
  assumes "declareExchange q env c = (r, c')"
  shows "held c \<union> news c c' \<subseteq> held c'"
proof (cases "de_declareOpen env")
  case None
  obtain n c1 where f: "fresh_number c = (n, c1)" by fastforce
  with None assms have c': "c' = close_number n c1" by (simp add: declareExchange_def)
  have "news c c' = {n}" using held_fresh [OF f] by (simp add: c' news_def close_number_def)
  then show ?thesis using held_fresh [OF f] by (simp add: c' subset_insertI)
qed (use assms in \<open>auto simp: declareExchange_def news_none\<close>)

text \<open>The first number of an attempt to connect is the connection's; it is closed or returned.\<close>

lemma held_connect:
  assumes "connect q env c = (r, c')"
  shows "held c \<union> (news c c' - (if de_dial env = None then {cl_next c} else {})) \<subseteq>
           held c' \<union> (case r of Inl e \<Rightarrow> {} | Inr (k, pcs) \<Rightarrow> chs pcs)"
    and "cl_dead c \<subseteq> cl_dead c'"
    and "de_dial env = None \<Longrightarrow> cl_next c \<in> cl_dead c' \<union> (case r of Inl e \<Rightarrow> {} | Inr (k, pcs) \<Rightarrow> {k})"
    and "r = Inr (k, pcs) \<Longrightarrow> \<forall>pc \<in> set pcs. pc_conn pc = k"
proof -
  show "cl_dead c \<subseteq> cl_dead c'" using library_only_connect [OF assms] by (simp add: library_only_def)
  have "held c \<union> (news c c' - (if de_dial env = None then {cl_next c} else {})) \<subseteq>
           held c' \<union> (case r of Inl e \<Rightarrow> {} | Inr (k, pcs) \<Rightarrow> chs pcs) \<and>
        (de_dial env = None \<longrightarrow> cl_next c \<in> cl_dead c' \<union> (case r of Inl e \<Rightarrow> {} | Inr (k, pcs) \<Rightarrow> {k})) \<and>
        (r = Inr (k, pcs) \<longrightarrow> (\<forall>pc \<in> set pcs. pc_conn pc = k))"
  proof (cases "de_dial env")
    case None
    obtain j c1 where f: "fresh_number c = (j, c1)" by fastforce
    obtain d c2 where d: "declareExchange q env c1 = (d, c2)" by fastforce
    obtain b c3 where b: "build_loop env j 0 (pool_cap c2) [] c2 = (b, c3)" by fastforce
    note hf = held_fresh [OF f] and hd = held_declare [OF d] and hb = held_build [OF b]
    show ?thesis
    proof (cases d)
      case (Some e)
      with None f d assms have r: "r = Inl e" "c' = close_conn j c2" by (simp_all add: connect_def)
      have "news c c' - {cl_next c} \<subseteq> news c1 c2"
        using news_via [of c c2 c1] hf news_cong [of c' c2 c] by (simp add: r) blast
      then show ?thesis using None hf hd by (simp add: r) blast
    next
      case d0: None
      show ?thesis
      proof (cases b)
        case (Inl e)
        with None d0 f d b assms have r: "r = Inl e" "c' = close_conn j c3" by (simp_all add: connect_def buildChannels_def)
        have "news c c' - {cl_next c} \<subseteq> news c1 c2 \<union> news c2 c3"
          using news_via [of c c3 c1] news_via [of c1 c3 c2] hf news_cong [of c' c3 c] by (simp add: r) blast
        then show ?thesis using None hf hd hb Inl by (simp add: r) blast
      next
        case (Inr pcs')
        with None d0 f d b assms have r: "r = Inr (j, pcs')" "c' = c3" by (simp_all add: connect_def buildChannels_def)
        have "news c c' - {cl_next c} \<subseteq> news c1 c2 \<union> news c2 c3"
          using news_via [of c c3 c1] news_via [of c1 c3 c2] hf by (simp add: r) blast
        moreover have "\<forall>pc \<in> set pcs'. pc_conn pc = j" using b Inr by (intro build_conn [of env j 0 "pool_cap c2" "[]" c2 pcs' c3]) auto
        ultimately show ?thesis using None hf hd hb Inr by (simp add: r) blast
      qed
    qed
  next
    case (Some e)
    with assms have "r = Inl (wrap_prefix ''amqp dial: '' e)" "c' = c" by (simp_all add: connect_def)
    then show ?thesis using Some by (simp add: news_none)
  qed
  then show "held c \<union> (news c c' - (if de_dial env = None then {cl_next c} else {})) \<subseteq>
           held c' \<union> (case r of Inl e \<Rightarrow> {} | Inr (k, pcs) \<Rightarrow> chs pcs)"
    "de_dial env = None \<Longrightarrow> cl_next c \<in> cl_dead c' \<union> (case r of Inl e \<Rightarrow> {} | Inr (k, pcs) \<Rightarrow> {k})"
    "r = Inr (k, pcs) \<Longrightarrow> \<forall>pc \<in> set pcs. pc_conn pc = k" by blast+
qed


subsection \<open>Where connections are\<close>

definition loop_conn :: "loop \<Rightarrow> nat set" where
  "loop_conn l = (case l of LCommit r k channels \<Rightarrow> {k} | _ \<Rightarrow> {})"

definition closer_conn :: "closer \<Rightarrow> nat set" where
  "closer_conn k = (case k of CStop j \<Rightarrow> set_option j | CDrain j n \<Rightarrow> set_option j | CConn j \<Rightarrow> set_option j | _ \<Rightarrow> {})"

text \<open>The client's own connection, the one the loop is about to commit, the one \<open>Close\<close> is about to close.\<close>

definition conns_in_use :: "mq_sys \<Rightarrow> nat set" where
  "conns_in_use s = set_option (cl_conn (ms_client s)) \<union> loop_conn (ms_loop s) \<union> closer_conn (ms_closer s)"

text \<open>The loop gives a connection up only when it is closed.\<close>

definition loop_watches :: "Client \<Rightarrow> loop \<Rightarrow> bool" where
  "loop_watches c l \<longleftrightarrow>
     (case l of LWatch k \<Rightarrow> set_option (cl_conn c) \<subseteq> {k} | LDisconnect \<Rightarrow> set_option (cl_conn c) \<subseteq> cl_dead c | _ \<Rightarrow> True)"

lemma where_simps [simp]:
  "loop_conn LTop = {}" "loop_conn LIdle = {}" "loop_conn (LWatch k) = {}" "loop_conn LDisconnect = {}"
  "loop_conn (LDrain r) = {}" "loop_conn (LBackoff r d) = {}" "loop_conn (LDial r d) = {}"
  "loop_conn (LCommit r k channels) = {k}" "loop_conn (LSignal r) = {}" "loop_conn LCheck = {}" "loop_conn LGone = {}"
  "closer_conn NotClosing = {}" "closer_conn (CStop j) = set_option j" "closer_conn (CDrain j n) = set_option j"
  "closer_conn (CConn j) = set_option j" "closer_conn CDone = {}"
  by (simp_all add: loop_conn_def closer_conn_def)

lemma watches_simps [simp]:
  "loop_watches c LTop" "loop_watches c LIdle" "loop_watches c (LDrain r)" "loop_watches c (LBackoff r d)"
  "loop_watches c (LDial r d)" "loop_watches c (LCommit r k channels)" "loop_watches c (LSignal r)"
  "loop_watches c LCheck" "loop_watches c LGone"
  "loop_watches c (LWatch k) \<longleftrightarrow> set_option (cl_conn c) \<subseteq> {k}"
  "loop_watches c LDisconnect \<longleftrightarrow> set_option (cl_conn c) \<subseteq> cl_dead c"
  by (simp_all add: loop_watches_def)

text \<open>A connection the library hands out in a step of the loop.\<close>

definition dialled_now :: "loop_choice \<Rightarrow> Client \<Rightarrow> nat set" where
  "dialled_now a c = (case a of LLibrary env \<Rightarrow> if de_dial env = None then {cl_next c} else {} | _ \<Rightarrow> {})"

lemma dialled_now_simps [simp]:
  "dialled_now LStop c = {}" "dialled_now LNormalClose c = {}" "dialled_now LNext c = {}"
  "dialled_now (LLibrary env) c = (if de_dial env = None then {cl_next c} else {})"
  by (simp_all add: dialled_now_def)

subsection \<open>Nothing gets lost in a step\<close>

lemma worker_keeps_dead: "worker_step a w c = Some (w', c') \<Longrightarrow> cl_dead c \<subseteq> cl_dead c'"
  by (cases w; cases a)
     (auto split: option.splits prod.splits sum.splits if_splits list.splits
        simp: release_begin_def release_commit_def take_pool_def dest!: library_only_open library_only_D(9))

lemma worker_keeps:
  assumes "worker_step a w c = Some (w', c')"
  shows "held c \<union> chs (worker_has w) \<union> news c c' \<subseteq> held c' \<union> chs (worker_has w')"
proof (cases "\<exists>p q k. a = Library p q \<and> w = Replacing k")
  case True
  then obtain p q k where at: "a = Library p q" "w = Replacing k" by blast
  then obtain r where o: "openPooledChannel p q k c = (r, c')"
    using assms by (auto split: prod.splits sum.splits)
  from at o assms held_open(1) [OF o] show ?thesis by (cases r) auto
next
  case False
  with assms show ?thesis
    by (cases w; cases a)
       (auto split: option.splits prod.splits if_splits simp: release_begin_def release_commit_def news_none
          dest!: take_frees dest: held_take simp: held_take)
qed

lemma commit_keeps:
  assumes "reconnect_commit r k channels c = (e, c')"
  shows "held c \<union> chs channels \<subseteq> held c'" and "cl_next c' = cl_next c" and "cl_dead c \<subseteq> cl_dead c'"
    and "cl_conn c = None \<Longrightarrow> k \<in> cl_dead c' \<union> set_option (cl_conn c')"
    and "cl_conn c = None \<Longrightarrow> set_option (cl_conn c') \<subseteq> {k}"
  using assms by (auto simp: reconnect_commit_def split: if_splits)

lemma loop_keeps_conns:
  assumes "loop_step q a l c = Some (l', c')" and "loop_ok c l" and "loop_watches c l"
  shows "cl_dead c \<union> set_option (cl_conn c) \<union> loop_conn l \<union> dialled_now a c \<subseteq>
           cl_dead c' \<union> set_option (cl_conn c') \<union> loop_conn l' \<and> loop_watches c' l'"
proof (cases l)
  case (LDial r d)
  then obtain env o1 where a: "a = LLibrary env" and o: "connect q env c = (o1, c')"
    using assms(1) by (cases a) (auto split: prod.splits sum.splits)
  have "cl_conn c' = cl_conn c" using library_only_connect [OF o] by (simp add: library_only_def)
  with LDial a o assms(1) held_connect(2,3) [OF o] show ?thesis
    by (cases o1) (auto split: if_splits prod.splits)
next
  case (LCommit r k channels)
  then obtain e where e: "reconnect_commit r k channels c = (e, c')" and a: "a = LNext"
    and l': "l' = (if e = None then LSignal r else LCheck)"
    using assms(1) by (cases a) (auto split: option.splits prod.splits)
  have "cl_conn c = None" using assms(2) LCommit by simp
  with commit_keeps(3,4) [OF e] LCommit a l' show ?thesis by auto
next
  case (LDrain r)
  with assms show ?thesis
    by (cases a) (auto split: option.splits prod.splits simp: take_pool_def split: list.splits)
next
  case LDisconnect
  with assms show ?thesis by (cases a) (auto simp: disconnect_begin_def)
next
  case (LSignal r)
  with assms show ?thesis by (cases a) (auto simp: signal_ready_def)
qed (use assms in \<open>cases a; auto split: if_splits option.splits\<close>)+

lemma loop_keeps:
  assumes "loop_step q a l c = Some (l', c')"
  shows "held c \<union> chs (loop_has l) \<union> (news c c' - dialled_now a c) \<subseteq> held c' \<union> chs (loop_has l')"
proof (cases l)
  case (LDial r d)
  then obtain env o1 where a: "a = LLibrary env" and o: "connect q env c = (o1, c')"
    using assms(1) by (cases a) (auto split: prod.splits sum.splits)
  with LDial assms(1) held_connect(1) [OF o] show ?thesis
    by (cases o1) (auto split: if_splits prod.splits)
next
  case (LCommit r k channels)
  then obtain e where e: "reconnect_commit r k channels c = (e, c')"
    and l': "l' = (if e = None then LSignal r else LCheck)"
    using assms(1) by (cases a) (auto split: option.splits prod.splits)
  from commit_keeps(1,2) [OF e] LCommit l' show ?thesis by (auto simp: news_none)
next
  case (LDrain r)
  show ?thesis
  proof (cases "take_pool c")
    case (Some p)
    then have "held c = insert (pc_ch (fst p)) (held (snd p))" "cl_next (snd p) = cl_next c"
      using held_take [of c "fst p" "snd p"] take_frees [of c "fst p" "snd p"] by auto
    with Some LDrain assms show ?thesis by (cases a) (auto split: prod.splits simp: news_none)
  qed (use LDrain assms in \<open>cases a; auto simp: news_none\<close>)
next
  case LDisconnect
  with assms show ?thesis by (cases a) (auto simp: news_none, simp_all add: disconnect_begin_def news_def)
next
  case (LSignal r)
  with assms show ?thesis by (cases a) (auto simp: news_none, simp_all add: signal_ready_def news_def)
qed (use assms in \<open>cases a; auto split: if_splits option.splits simp: news_none\<close>)+

lemma closer_keeps:
  assumes "closer_step a k c = Some (k', c')"
  shows "held c \<subseteq> held c'" and "cl_next c' = cl_next c"
    and "cl_dead c \<union> set_option (cl_conn c) \<union> closer_conn k \<subseteq> cl_dead c' \<union> set_option (cl_conn c') \<union> closer_conn k'"
    and "loop_watches c l \<Longrightarrow> loop_watches c' l" and "set_option (cl_conn c') \<subseteq> set_option (cl_conn c)"
proof -
  have "held c \<subseteq> held c' \<and> cl_next c' = cl_next c \<and>
    cl_dead c \<union> set_option (cl_conn c) \<union> closer_conn k \<subseteq> cl_dead c' \<union> set_option (cl_conn c') \<union> closer_conn k' \<and>
    set_option (cl_conn c') \<subseteq> set_option (cl_conn c) \<and> cl_dead c \<subseteq> cl_dead c'"
  proof (cases k)
    case NotClosing
    with assms show ?thesis by (cases a) (auto simp: Close_begin_def split: if_splits)
  next
    case (CStop j)
    with assms show ?thesis by (cases a) (auto simp: Close_stop_def held_def)
  next
    case (CDrain j n)
    then show ?thesis
    proof (cases "take_pool c")
      case (Some p)
      then have "held c = insert (pc_ch (fst p)) (held (snd p))" "cl_next (snd p) = cl_next c"
        "cl_dead (snd p) = cl_dead c" "cl_conn (snd p) = cl_conn c"
        using held_take [of c "fst p" "snd p"] take_frees [of c "fst p" "snd p"]
        by (auto simp: take_pool_def split: list.splits)
      with Some CDrain assms show ?thesis by (cases a) (auto split: prod.splits if_splits)
    qed (use assms in \<open>cases a; auto split: if_splits\<close>)
  next
    case (CConn j)
    with assms show ?thesis by (cases a) (auto split: option.splits if_splits)
  qed (use assms in \<open>cases a; simp\<close>)
  then show "held c \<subseteq> held c'" "cl_next c' = cl_next c"
    "cl_dead c \<union> set_option (cl_conn c) \<union> closer_conn k \<subseteq> cl_dead c' \<union> set_option (cl_conn c') \<union> closer_conn k'"
    "loop_watches c l \<Longrightarrow> loop_watches c' l" "set_option (cl_conn c') \<subseteq> set_option (cl_conn c)"
    by (auto simp: loop_watches_def split: loop.splits)
qed

subsection \<open>Nothing gets lost in a run\<close>

text \<open>A reachable state with the connections the library has handed out so far.\<close>

definition action_dials :: "action \<Rightarrow> mq_sys \<Rightarrow> nat set" where
  "action_dials a s = (case a of Loop b \<Rightarrow> dialled_now b (ms_client s) | _ \<Rightarrow> {})"

inductive pool_dialled :: "(string \<Rightarrow> string) \<Rightarrow> mq_sys \<Rightarrow> nat set \<Rightarrow> bool" for quote where
  start: "NewClient quote cfg env = Inr c \<Longrightarrow> pool_dialled quote (mq_start workers c) {0}"
| step: "pool_dialled quote s K \<Longrightarrow> mq_act quote a s = Some s' \<Longrightarrow> pool_dialled quote s' (K \<union> action_dials a s)"

lemma dialled_reach: "pool_dialled quote s K \<Longrightarrow> pool_reach quote s"
  by (induction rule: pool_dialled.induct) (auto intro: pool_reach.intros)

lemma reach_dialled: "pool_reach quote s \<Longrightarrow> \<exists>K. pool_dialled quote s K"
  by (induction rule: pool_reach.induct) (auto intro: pool_dialled.intros)

definition known_conns :: "mq_sys \<Rightarrow> nat set" where
  "known_conns s = cl_dead (ms_client s) \<union> conns_in_use s"

definition known_chs :: "mq_sys \<Rightarrow> nat set" where
  "known_chs s = held (ms_client s) \<union> chs (in_hands s)"

lemma chs_workers: "chs (in_hands s) = (\<Union>w \<in> set (ms_workers s). chs (worker_has w)) \<union> chs (loop_has (ms_loop s))"
  by (auto simp: in_hands_def)

lemma workers_update:
  assumes "i < length ws" and "X \<union> f (ws ! i) \<subseteq> Y \<union> f w"
  shows "X \<union> (\<Union>v \<in> set ws. f v) \<subseteq> Y \<union> (\<Union>v \<in> set (ws[i := w]). f v)"
proof -
  have ws: "ws = take i ws @ ws ! i # drop (Suc i) ws" using assms(1) by (rule id_take_nth_drop)
  have "set ws = insert (ws ! i) (set (take i ws) \<union> set (drop (Suc i) ws))"
    by (subst ws) simp
  moreover have "set (ws[i := w]) = insert w (set (take i ws) \<union> set (drop (Suc i) ws))"
    using assms(1) by (simp add: upd_conv_take_nth_drop)
  ultimately show ?thesis using assms(2) by auto
qed

lemma act_keeps:
  assumes "mq_act q a s = Some s'" and "mq_ok s" and "loop_watches (ms_client s) (ms_loop s)"
  shows "known_conns s \<union> action_dials a s \<subseteq> known_conns s'"
    and "known_chs s \<union> (news (ms_client s) (ms_client s') - action_dials a s) \<subseteq> known_chs s'"
    and "loop_watches (ms_client s') (ms_loop s')"
proof -
  have "known_conns s \<union> action_dials a s \<subseteq> known_conns s' \<and>
    known_chs s \<union> (news (ms_client s) (ms_client s') - action_dials a s) \<subseteq> known_chs s' \<and>
    loop_watches (ms_client s') (ms_loop s')"
  proof (cases a)
    case (Work i b)
    with assms(1) obtain w c where i: "i < length (ms_workers s)"
      and st: "worker_step b (ms_workers s ! i) (ms_client s) = Some (w, c)"
      and s': "s' = s\<lparr>ms_client := c, ms_workers := (ms_workers s)[i := w]\<rparr>"
      by (auto split: if_splits)
    have conn: "cl_conn c = cl_conn (ms_client s)" using worker_pool_only [OF st] by (simp add: pool_only_def)
    note dead = worker_keeps_dead [OF st]
    have "(held (ms_client s) \<union> news (ms_client s) c) \<union> (\<Union>v \<in> set (ms_workers s). chs (worker_has v))
        \<subseteq> held c \<union> (\<Union>v \<in> set ((ms_workers s)[i := w]). chs (worker_has v))"
      by (rule workers_update [OF i]) (use worker_keeps [OF st] in blast)
    then have "known_chs s \<union> news (ms_client s) c \<subseteq> known_chs s'"
      unfolding known_chs_def chs_workers by (simp add: s') blast
    moreover have "known_conns s \<subseteq> known_conns s'"
      using dead conn by (auto simp: known_conns_def conns_in_use_def s')
    moreover have "loop_watches c (ms_loop s)"
      using assms(3) dead conn by (auto simp: loop_watches_def split: loop.splits)
    ultimately show ?thesis by (simp add: action_dials_def Work s')
  next
    case (Loop b)
    with assms(1) obtain l c where st: "loop_step q b (ms_loop s) (ms_client s) = Some (l, c)"
      and s': "s' = s\<lparr>ms_client := c, ms_loop := l\<rparr>" by auto
    have ok: "loop_ok (ms_client s) (ms_loop s)" using assms(2) by (simp add: mq_ok_def)
    from loop_keeps [OF st] loop_keeps_conns [OF st ok assms(3)] show ?thesis
      unfolding known_chs_def chs_workers known_conns_def conns_in_use_def action_dials_def Loop
      by (simp add: s') blast
  next
    case (Closing b)
    with assms(1) obtain k c where st: "closer_step b (ms_closer s) (ms_client s) = Some (k, c)"
      and s': "s' = s\<lparr>ms_client := c, ms_closer := k\<rparr>" by auto
    from closer_keeps [OF st] assms(3) show ?thesis
      unfolding known_chs_def chs_workers known_conns_def conns_in_use_def action_dials_def Closing
      by (simp add: s' news_none) blast
  next
    case (Dies k)
    with assms have s': "s' = s\<lparr>ms_client := close_conn k (ms_client s)\<rparr>" by simp
    with assms(3) show ?thesis
      by (auto simp: known_chs_def chs_workers known_conns_def conns_in_use_def action_dials_def Dies news_none
          loop_watches_def split: loop.splits)
  qed
  then show "known_conns s \<union> action_dials a s \<subseteq> known_conns s'"
    "known_chs s \<union> (news (ms_client s) (ms_client s') - action_dials a s) \<subseteq> known_chs s'"
    "loop_watches (ms_client s') (ms_loop s')" by blast+
qed

lemma start_accounts:
  assumes "NewClient q cfg env = Inr c"
  shows "0 \<in> known_conns (mq_start n c)" and "{..<cl_next c} - {0} \<subseteq> known_chs (mq_start n c)"
    and "cl_conn c = Some 0" and "\<forall>pc \<in> set (cl_pool c). pc_conn pc = 0"
proof -
  obtain conn channels c0 where k: "connect q env (unconnected cfg) = (Inr (conn, channels), c0)"
    and c: "c = fold offer channels (c0\<lparr>cl_conn := Some conn\<rparr>)"
    using assms by (rule NewClient_Inr)
  have dial: "de_dial env = None" using k by (auto simp: connect_def split: option.splits)
  have "conn = 0"
    using k dial by (auto simp: connect_def fresh_number_def unconnected_def split: option.splits prod.splits sum.splits)
  then show conn: "cl_conn c = Some 0" by (simp add: c)
  then show "0 \<in> known_conns (mq_start n c)" by (simp add: known_conns_def conns_in_use_def mq_start_def)
  have "news (unconnected cfg) c0 = {..<cl_next c}"
    by (auto simp: news_def c unconnected_def)
  moreover have "cl_next (unconnected cfg) = 0" by (simp add: unconnected_def)
  ultimately show "{..<cl_next c} - {0} \<subseteq> known_chs (mq_start n c)"
    using held_connect(1) [OF k] dial by (auto simp: known_chs_def c mq_start_def)
  have "cl_pool c0 = []" using library_only_connect [OF k] by (simp add: library_only_def unconnected_def)
  moreover have "\<forall>pc \<in> set channels. pc_conn pc = 0"
    using held_connect(4) [OF k refl] \<open>conn = 0\<close> by simp
  moreover have "set (cl_pool (fold offer pcs d)) \<subseteq> set (cl_pool d) \<union> set pcs" for pcs d
  proof (induction pcs arbitrary: d)
    case (Cons pc pcs)
    have "set (cl_pool (offer pc d)) \<subseteq> insert pc (set (cl_pool d))" by (auto simp: offer_def)
    with Cons [of "offer pc d"] show ?case by auto
  qed simp
  ultimately show "\<forall>pc \<in> set (cl_pool c). pc_conn pc = 0" by (fastforce simp: c)
qed

lemma dialled_accounts:
  "pool_dialled quote s K \<Longrightarrow>
     K \<subseteq> known_conns s \<and> {..<cl_next (ms_client s)} - K \<subseteq> known_chs s \<and> loop_watches (ms_client s) (ms_loop s)"
proof (induction rule: pool_dialled.induct)
  case (start cfg env c workers)
  then show ?case using start_accounts(1,2) [OF start, of workers] start_accounts(3) [OF start] by (simp add: mq_start_def)
next
  case (step s K a s')
  have "mq_ok s" using dialled_reach [OF step.hyps(1)] by (rule reach_ok)
  from act_keeps [OF step.hyps(2) this] step.IH
  have "known_conns s \<union> action_dials a s \<subseteq> known_conns s'"
    "known_chs s \<union> (news (ms_client s) (ms_client s') - action_dials a s) \<subseteq> known_chs s'"
    "loop_watches (ms_client s') (ms_loop s')" by blast+
  moreover have "{..<cl_next (ms_client s')} \<subseteq> {..<cl_next (ms_client s)} \<union> news (ms_client s) (ms_client s')"
    by (auto simp: news_def)
  ultimately show ?case using step.IH by blast
qed

subsection \<open>On which connection a channel is\<close>

primrec worker_conn :: "worker \<Rightarrow> nat set" where
  "worker_conn Outside = {}"
| "worker_conn (Waiting r) = {}"
| "worker_conn Taking = {}"
| "worker_conn (Using pc) = {pc_conn pc}"
| "worker_conn (Replacing k) = {k}"
| "worker_conn (OpenFailed k) = {k}"
| "worker_conn (Hanging_up k) = {k}"
| "worker_conn (Reopened k fresh) = {k, pc_conn fresh}"
| "worker_conn (Refused e) = {}"

definition pool_conns :: "Client \<Rightarrow> nat set" where
  "pool_conns c = pc_conn ` set (cl_pool c)"

lemma pool_conns_ops [simp]:
  "pool_conns (close_ch pc c) = pool_conns c" "pool_conns (close_conn k c) = pool_conns c"
  "pool_conns (fold close_ch pcs c) = pool_conns c"
  "pool_conns (c\<lparr>cl_conn := j\<rparr>) = pool_conns c" "pool_conns (c\<lparr>cl_closed := b\<rparr>) = pool_conns c"
  "pool_conns (disconnect_begin c) = pool_conns c" "pool_conns (signal_ready r c) = pool_conns c"
  "pool_conns (Close_stop c) = pool_conns c"
  by (simp_all add: pool_conns_def disconnect_begin_def signal_ready_def Close_stop_def)

lemma pool_conns_offer: "pool_conns (offer pc c) \<subseteq> insert (pc_conn pc) (pool_conns c)"
  by (auto simp: pool_conns_def offer_def)

lemma pool_conns_fold_offer: "pool_conns (fold offer pcs c) \<subseteq> pc_conn ` set pcs \<union> pool_conns c"
proof (induction pcs arbitrary: c)
  case (Cons pc pcs)
  from Cons [of "offer pc c"] pool_conns_offer [of pc c] show ?case by auto
qed simp

lemma pool_conns_take: "take_pool c = Some (pc, c') \<Longrightarrow> pool_conns c = insert (pc_conn pc) (pool_conns c')"
  by (auto simp: take_pool_def pool_conns_def split: list.splits)

lemma pool_conns_library: "library_only c c' \<Longrightarrow> pool_conns c' = pool_conns c"
  by (simp add: library_only_def pool_conns_def)

lemma worker_conns:
  assumes "worker_step a w c = Some (w', c')"
  shows "pool_conns c' \<union> worker_conn w' \<subseteq> pool_conns c \<union> worker_conn w \<union> set_option (cl_conn c)"
proof (cases "\<exists>p q k. a = Library p q \<and> w = Replacing k")
  case True
  then obtain p q k where at: "a = Library p q" "w = Replacing k" by blast
  then obtain r where o: "openPooledChannel p q k c = (r, c')"
    using assms by (auto split: prod.splits sum.splits)
  from at o assms held_open(2) [OF o] pool_conns_library [OF library_only_open [OF o]] show ?thesis by (cases r) auto
next
  case False
  with assms pool_conns_offer show ?thesis
    by (cases w; cases a)
       (auto split: option.splits prod.splits if_splits simp: release_begin_def release_commit_def pool_conns_take
         dest!: subsetD [OF pool_conns_offer])
qed

lemma loop_conns:
  assumes "loop_step q a l c = Some (l', c')" and "pc_conn ` set (loop_has l) \<subseteq> loop_conn l"
  shows "pool_conns c' \<subseteq> pool_conns c \<union> loop_conn l" and "pc_conn ` set (loop_has l') \<subseteq> loop_conn l'"
proof -
  have "pool_conns c' \<subseteq> pool_conns c \<union> loop_conn l \<and> pc_conn ` set (loop_has l') \<subseteq> loop_conn l'"
  proof (cases l)
    case (LDial r d)
    then obtain env o1 where a: "a = LLibrary env" and o: "connect q env c = (o1, c')"
      using assms(1) by (cases a) (auto split: prod.splits sum.splits)
    with LDial assms(1) held_connect(4) [OF o] pool_conns_library [OF library_only_connect [OF o]] show ?thesis
      by (cases o1) (auto split: if_splits prod.splits)
  next
    case (LCommit r k channels)
    then obtain e where e: "reconnect_commit r k channels c = (e, c')"
      and l': "l' = (if e = None then LSignal r else LCheck)"
      using assms(1) by (cases a) (auto split: option.splits prod.splits)
    have "pool_conns c' \<subseteq> pc_conn ` set channels \<union> pool_conns c"
      using e pool_conns_fold_offer [of channels "c\<lparr>cl_conn := Some k\<rparr>"]
      by (auto simp: reconnect_commit_def split: if_splits)
    with assms(2) LCommit l' show ?thesis by simp blast
  next
    case (LDrain r)
    with assms show ?thesis by (cases a) (auto split: option.splits prod.splits simp: pool_conns_take)
  qed (use assms in \<open>cases a; auto split: if_splits option.splits\<close>)+
  then show "pool_conns c' \<subseteq> pool_conns c \<union> loop_conn l" "pc_conn ` set (loop_has l') \<subseteq> loop_conn l'" by blast+
qed

lemma closer_conns: "closer_step a k c = Some (k', c') \<Longrightarrow> pool_conns c' \<subseteq> pool_conns c"
  by (cases k; cases a)
     (auto split: option.splits prod.splits if_splits simp: Close_begin_def pool_conns_take)

definition used_conns :: "mq_sys \<Rightarrow> nat set" where
  "used_conns s = pool_conns (ms_client s) \<union> (\<Union>w \<in> set (ms_workers s). worker_conn w)"

lemma workers_update_conv:
  assumes "i < length ws" and "Y \<union> f w \<subseteq> X \<union> f (ws ! i) \<union> Z"
  shows "Y \<union> (\<Union>v \<in> set (ws[i := w]). f v) \<subseteq> X \<union> (\<Union>v \<in> set ws. f v) \<union> Z"
proof -
  have "set (ws[i := w]) \<subseteq> insert w (set ws)" by (rule set_update_subset_insert)
  moreover have "ws ! i \<in> set ws" using assms(1) by simp
  ultimately show ?thesis using assms(2) by blast
qed

lemma act_conns:
  assumes "mq_act q a s = Some s'" and "pc_conn ` set (loop_has (ms_loop s)) \<subseteq> loop_conn (ms_loop s)"
  shows "used_conns s' \<subseteq> used_conns s \<union> conns_in_use s" and "pc_conn ` set (loop_has (ms_loop s')) \<subseteq> loop_conn (ms_loop s')"
proof -
  have "used_conns s' \<subseteq> used_conns s \<union> conns_in_use s \<and> pc_conn ` set (loop_has (ms_loop s')) \<subseteq> loop_conn (ms_loop s')"
  proof (cases a)
    case (Work i b)
    with assms(1) obtain w c where i: "i < length (ms_workers s)"
      and st: "worker_step b (ms_workers s ! i) (ms_client s) = Some (w, c)"
      and s': "s' = s\<lparr>ms_client := c, ms_workers := (ms_workers s)[i := w]\<rparr>"
      by (auto split: if_splits)
    have "used_conns s' \<subseteq> used_conns s \<union> set_option (cl_conn (ms_client s))"
      unfolding used_conns_def s' by simp (rule workers_update_conv [OF i worker_conns [OF st], simplified])
    with assms(2) show ?thesis by (auto simp: s' conns_in_use_def)
  next
    case (Loop b)
    with assms(1) obtain l c where st: "loop_step q b (ms_loop s) (ms_client s) = Some (l, c)"
      and s': "s' = s\<lparr>ms_client := c, ms_loop := l\<rparr>" by auto
    from loop_conns [OF st assms(2)] show ?thesis by (auto simp: s' used_conns_def conns_in_use_def)
  next
    case (Closing b)
    with assms(1) obtain k c where st: "closer_step b (ms_closer s) (ms_client s) = Some (k, c)"
      and s': "s' = s\<lparr>ms_client := c, ms_closer := k\<rparr>" by auto
    from closer_conns [OF st] assms(2) show ?thesis by (auto simp: s' used_conns_def)
  next
    case (Dies k)
    with assms(1) have "used_conns s' = used_conns s" "ms_loop s' = ms_loop s" by (auto simp: used_conns_def)
    with assms(2) show ?thesis by simp
  qed
  then show "used_conns s' \<subseteq> used_conns s \<union> conns_in_use s"
    "pc_conn ` set (loop_has (ms_loop s')) \<subseteq> loop_conn (ms_loop s')" by blast+
qed

lemma reach_conns:
  "pool_reach quote s \<Longrightarrow> used_conns s \<subseteq> known_conns s \<and> pc_conn ` set (loop_has (ms_loop s)) \<subseteq> loop_conn (ms_loop s) \<and>
     loop_watches (ms_client s) (ms_loop s)"
proof (induction rule: pool_reach.induct)
  case (start cfg env c workers)
  show ?case
    using start_accounts(1) [OF start, of workers] start_accounts(3,4) [OF start]
    by (auto simp: used_conns_def pool_conns_def mq_start_def)
next
  case (step s a s')
  from act_conns [OF step.hyps(2)] act_keeps [OF step.hyps(2) reach_ok [OF step.hyps(1)]] step.IH
  show ?case unfolding known_conns_def by blast
qed

text \<open>C30: Nothing the publisher opens gets lost. In every state that workers, reconnect loop and \<open>Close\<close> can reach,
  every connection that was ever dialled is closed or is the client's, the one the loop is about to commit or
  the one \<open>Close\<close> is about to close, and every AMQP channel is closed, in the pool, or in somebody's hands. So
  once \<open>Close\<close> and the loop have ended and the workers hold nothing, every connection is closed, and every channel
  was closed itself or was left in the pool on a connection that is closed, also if the context of \<open>Close\<close> had ended first.\<close>

theorem nothing_leaks:
  assumes "pool_dialled quote s K"
  shows "K \<subseteq> cl_dead (ms_client s) \<union> conns_in_use s \<and>
    {..<cl_next (ms_client s)} - K \<subseteq> cl_closedCh (ms_client s) \<union> set (live_channels s) \<and>
    (ms_closer s = CDone \<and> ms_loop s = LGone \<and> concat (map worker_has (ms_workers s)) = [] \<longrightarrow>
       K \<subseteq> cl_dead (ms_client s) \<and>
       {..<cl_next (ms_client s)} - K \<subseteq> cl_closedCh (ms_client s) \<union>
         pc_ch ` {pc \<in> set (cl_pool (ms_client s)). pc_conn pc \<in> cl_dead (ms_client s)})"
proof -
  note reach = dialled_reach [OF assms]
  have a: "K \<subseteq> known_conns s" "{..<cl_next (ms_client s)} - K \<subseteq> known_chs s"
    using dialled_accounts [OF assms] by blast+
  have l: "known_chs s = cl_closedCh (ms_client s) \<union> set (live_channels s)"
    by (auto simp: known_chs_def held_def live_channels_def in_hands_def)
  have e: "K \<subseteq> cl_dead (ms_client s) \<and> {..<cl_next (ms_client s)} - K \<subseteq> cl_closedCh (ms_client s) \<union>
         pc_ch ` {pc \<in> set (cl_pool (ms_client s)). pc_conn pc \<in> cl_dead (ms_client s)}"
    if gone: "ms_closer s = CDone" "ms_loop s = LGone" "concat (map worker_has (ms_workers s)) = []"
  proof -
    have "cl_conn (ms_client s) = None" using reach_ok [OF reach] gone(1) by (simp add: mq_ok_def client_ok_def)
    then have none: "conns_in_use s = {}" by (simp add: conns_in_use_def gone)
    with reach_conns [OF reach] have "pool_conns (ms_client s) \<subseteq> cl_dead (ms_client s)"
      by (auto simp: used_conns_def known_conns_def)
    moreover have "set (live_channels s) = pc_ch ` set (cl_pool (ms_client s))"
      unfolding live_channels_def gone by simp
    moreover from calculation(1) have "{pc \<in> set (cl_pool (ms_client s)). pc_conn pc \<in> cl_dead (ms_client s)} = set (cl_pool (ms_client s))"
      by (auto simp: pool_conns_def)
    ultimately show ?thesis using a none unfolding l by (simp add: known_conns_def)
  qed
  show ?thesis using a e unfolding l by (auto simp: known_conns_def)
qed

subsection \<open>The size of the pool\<close>

text \<open>Who owes the pool a channel of the connection \<open>k\<close>.\<close>

primrec owes :: "nat \<Rightarrow> worker \<Rightarrow> bool" where
  "owes k Outside = False"
| "owes k (Waiting r) = False"
| "owes k Taking = False"
| "owes k (Using pc) = True"
| "owes k (Replacing j) = (j = k)"
| "owes k (OpenFailed j) = (j = k)"
| "owes k (Hanging_up j) = (j = k)"
| "owes k (Reopened j fresh) = (j = k)"
| "owes k (Refused e) = False"

definition stocked :: "mq_sys \<Rightarrow> bool" where
  "stocked s \<longleftrightarrow> (\<forall>k. cl_conn (ms_client s) = Some k \<and> k \<notin> cl_dead (ms_client s) \<longrightarrow>
     pool_cap (ms_client s) \<le> length (cl_pool (ms_client s)) + length (filter (owes k) (ms_workers s)))"

lemma offered: "pool_cap c \<le> length (cl_pool (offer pc c)) \<or> length (cl_pool (offer pc c)) = Suc (length (cl_pool c))"
  by (simp add: offer_def)

lemma worker_stocked:
  assumes "worker_step a w c = Some (w', c')" and "cl_conn c' = Some k" and "k \<notin> cl_dead c'"
    and "\<not> cl_closed c"
    and "pool_cap c \<le> length (cl_pool c) + (n + (if owes k w then 1 else 0))"
  shows "pool_cap c' \<le> length (cl_pool c') + (n + (if owes k w' then 1 else 0))"
proof -
  have cap: "pool_cap c' = pool_cap c" and conn: "cl_conn c = Some k"
    using worker_pool_only [OF assms(1)] assms(2) by (simp_all add: pool_only_def pool_cap_def)
  show ?thesis
  proof (cases "\<exists>p q j. a = Library p q \<and> w = Replacing j")
    case True
    then obtain p q j where at: "a = Library p q" "w = Replacing j" by blast
    then obtain r where o: "openPooledChannel p q j c = (r, c')"
      using assms(1) by (auto split: prod.splits sum.splits)
    have "cl_pool c' = cl_pool c" using library_only_open [OF o] by (simp add: library_only_def)
    with at o assms(1,5) cap show ?thesis by (cases r) auto
  next
    case False
    show ?thesis
    proof (cases w)
      case (Using pc)
      show ?thesis
      proof (cases "a = Breaks")
        case True
        with Using assms(1) have "c' = c" "owes k w'" by auto
        with Using assms(5) show ?thesis by simp
      next
        case no_break: False
        then have a: "a = Regular" using Using assms(1) by (cases a) auto
        show ?thesis
        proof (cases "pc_broken pc")
          case True
          then have "c' = close_ch pc c" "w' = (if k \<in> cl_dead c then Outside else Replacing k)"
            using Using assms(1,4) conn a by (simp_all add: release_begin_def)
          with assms(3,5) Using cap show ?thesis by simp
        next
          case unbroken: False
          then have "c' = offer pc c" "w' = Outside" using Using assms(1,4) a by (simp_all add: release_begin_def)
          with assms(5) Using cap offered [of c pc] show ?thesis by auto
        qed
      qed
    next
      case Taking
      show ?thesis
      proof (cases "a = Regular")
        case True
        then obtain pc where t: "take_pool c = Some (pc, c')" and "w' = Using pc"
          using Taking assms(1) by (auto split: option.splits)
        moreover from t have "length (cl_pool c) = Suc (length (cl_pool c'))"
          by (auto simp: take_pool_def split: list.splits)
        ultimately show ?thesis using assms(5) cap Taking by simp
      next
        case other: False
        then have "c' = c" using Taking assms(1) by (cases a) (auto split: if_splits)
        with assms(5) Taking show ?thesis by simp
      qed
    next
      case (Replacing j)
      with False assms(1) show ?thesis by (cases a) auto
    next
      case (OpenFailed j)
      then have "c' = c" "w' = (if stillCurrent j c then Hanging_up j else Outside)"
        using assms(1) by (cases a; simp)+
      with assms(4,5) conn OpenFailed show ?thesis by (cases "j = k") (simp_all add: stillCurrent_def)
    next
      case (Hanging_up j)
      then have "c' = close_conn j c" "w' = Outside" using assms(1) by (cases a; simp)+
      with assms(3,5) cap Hanging_up show ?thesis by simp
    next
      case (Reopened j fresh)
      then have "c' = release_commit j fresh c" "w' = Outside" using assms(1) by (cases a; simp)+
      then have "c' = (if j = k then offer fresh c else close_ch fresh c)" "w' = Outside"
        using assms(4) conn by (simp_all add: release_commit_def)
      with assms(5) cap Reopened offered [of c fresh] show ?thesis by (cases "j = k") auto
    next
      case Outside
      then have "c' = c" "w' = Waiting (cl_connReady c)" using assms(1,4) by (cases a; simp)+
      with assms(5) Outside show ?thesis by simp
    next
      case (Waiting r)
      then have "c' = c" using assms(1) by (cases a; simp split: if_splits)
      with assms(5) Waiting show ?thesis by simp
    next
      case (Refused e)
      then have "c' = c" using assms(1) by (cases a; simp)
      with assms(5) Refused show ?thesis by simp
    qed
  qed
qed

lemma filter_update:
  assumes "i < length ws"
  obtains n where "length (filter p ws) = n + (if p (ws ! i) then 1 else 0)"
    and "length (filter p (ws[i := w])) = n + (if p w then 1 else 0)"
proof -
  have "ws = take i ws @ ws ! i # drop (Suc i) ws" using assms by (rule id_take_nth_drop)
  then have "length (filter p ws) = length (filter p (take i ws @ ws ! i # drop (Suc i) ws))" by simp
  then show thesis
    using assms by (intro that [of "length (filter p (take i ws)) + length (filter p (drop (Suc i) ws))"])
      (simp_all add: upd_conv_take_nth_drop)
qed

lemma loop_stocked:
  assumes "loop_step q a l c = Some (l', c')" and "loop_ok c l" and "client_ok c"
    and "cl_conn c' = Some k" and "k \<notin> cl_dead c'"
  shows "pool_cap c' \<le> length (cl_pool c') \<or>
     cl_conn c = Some k \<and> k \<notin> cl_dead c \<and> pool_cap c' = pool_cap c \<and> cl_pool c' = cl_pool c"
proof (cases l)
  case (LDial r d)
  then obtain env o1 where a: "a = LLibrary env" and o: "connect q env c = (o1, c')"
    using assms(1) by (cases a) (auto split: prod.splits sum.splits)
  have "cl_conn c' = cl_conn c" using library_only_connect [OF o] by (simp add: library_only_def)
  with LDial assms(2,4) show ?thesis by simp
next
  case (LCommit r j channels)
  then obtain e where e: "reconnect_commit r j channels c = (e, c')"
    using assms(1) by (cases a) (auto split: option.splits prod.splits)
  define d where "d = c\<lparr>cl_conn := Some j\<rparr>"
  have "length (cl_pool d) \<le> pool_cap d" "length channels = pool_cap d"
    using assms(2,3) LCommit by (simp_all add: client_ok_def d_def pool_cap_def)
  with length_fold_offer [of d channels] have "length (cl_pool (fold offer channels d)) = pool_cap d" by simp
  moreover have "cl_conn c = None" using assms(2) LCommit by simp
  ultimately show ?thesis
    using e assms(4) by (auto simp: reconnect_commit_def d_def pool_cap_def split: if_splits)
next
  case (LDrain r)
  with assms show ?thesis
    by (cases a) (auto split: option.splits prod.splits list.splits simp: take_pool_def)
next
  case LDisconnect
  with assms show ?thesis by (cases a) (auto simp: disconnect_begin_def)
next
  case (LSignal r)
  with assms show ?thesis by (cases a) (auto simp: signal_ready_def pool_cap_def)
qed (use assms in \<open>cases a; auto split: if_splits option.splits\<close>)+

lemma act_stocked:
  assumes "mq_act q a s = Some s'" and "mq_ok s" and "stocked s"
  shows "stocked s'"
  unfolding stocked_def
proof (intro allI impI)
  fix k assume k: "cl_conn (ms_client s') = Some k \<and> k \<notin> cl_dead (ms_client s')"
  have ok: "client_ok (ms_client s)" "loop_ok (ms_client s) (ms_loop s)" using assms(2) by (simp_all add: mq_ok_def)
  show "pool_cap (ms_client s') \<le> length (cl_pool (ms_client s')) + length (filter (owes k) (ms_workers s'))"
  proof (cases a)
    case (Work i b)
    with assms(1) obtain w c where i: "i < length (ms_workers s)"
      and st: "worker_step b (ms_workers s ! i) (ms_client s) = Some (w, c)"
      and s': "s' = s\<lparr>ms_client := c, ms_workers := (ms_workers s)[i := w]\<rparr>"
      by (auto split: if_splits)
    have conn: "cl_conn (ms_client s) = Some k" "k \<notin> cl_dead (ms_client s)"
      using worker_pool_only [OF st] worker_keeps_dead [OF st] k by (auto simp: pool_only_def s')
    then have "\<not> cl_closed (ms_client s)" using ok(1) by (auto simp: client_ok_def)
    from i obtain n where n: "length (filter (owes k) (ms_workers s)) = n + (if owes k (ms_workers s ! i) then 1 else 0)"
      "length (filter (owes k) ((ms_workers s)[i := w])) = n + (if owes k w then 1 else 0)"
      by (rule filter_update)
    have "pool_cap (ms_client s) \<le> length (cl_pool (ms_client s)) + (n + (if owes k (ms_workers s ! i) then 1 else 0))"
      using assms(3) conn unfolding stocked_def n(1) [symmetric] by blast
    from worker_stocked [OF st _ _ \<open>\<not> cl_closed (ms_client s)\<close> this] k n(2) show ?thesis by (simp add: s')
  next
    case (Loop b)
    with assms(1) obtain l c where st: "loop_step q b (ms_loop s) (ms_client s) = Some (l, c)"
      and s': "s' = s\<lparr>ms_client := c, ms_loop := l\<rparr>" by auto
    from loop_stocked [OF st ok(2,1), of k] k assms(3) show ?thesis by (auto simp: s' stocked_def)
  next
    case (Closing b)
    with assms(1) obtain j c where st: "closer_step b (ms_closer s) (ms_client s) = Some (j, c)"
      and s': "s' = s\<lparr>ms_client := c, ms_closer := j\<rparr>" by auto
    have "cl_conn (ms_client s) = Some k" using closer_keeps(5) [OF st] k by (auto simp: s')
    then have "ms_closer s = NotClosing" using assms(2) by (auto simp: mq_ok_def client_ok_def)
    with st k assms(3) show ?thesis by (cases b) (auto simp: s' Close_begin_def stocked_def split: if_splits)
  next
    case (Dies j)
    with assms k show ?thesis by (auto simp: stocked_def pool_cap_def)
  qed
qed

lemma reach_stocked: "pool_reach quote s \<Longrightarrow> stocked s"
proof (induction rule: pool_reach.induct)
  case (start cfg env c workers)
  have "length (cl_pool c) = pool_cap c" using start by (rule start_ok)
  then show ?case by (simp add: stocked_def mq_start_def)
next
  case (step s a s')
  then show ?case by (blast intro: act_stocked reach_ok)
qed

text \<open>C32: The pool does not shrink. While the client's connection lasts, the channels in the pool and the workers
  that use one or are replacing a broken one on this connection make up the capacity of the pool at least, however many
  channels broke and whichever replacements failed. So a worker that finds the pool empty waits for as many
  others as the pool has channels, and when all workers have released theirs, the pool is full again.\<close>

theorem pool_never_shrinks:
  assumes "pool_reach quote s" and "cl_conn (ms_client s) = Some k" and "k \<notin> cl_dead (ms_client s)"
  shows "pool_cap (ms_client s) \<le> length (cl_pool (ms_client s)) + length (filter (owes k) (ms_workers s)) \<and>
    (filter (owes k) (ms_workers s) = [] \<longrightarrow> length (cl_pool (ms_client s)) = pool_cap (ms_client s))"
proof -
  have "length (cl_pool (ms_client s)) \<le> pool_cap (ms_client s)"
    using reach_ok [OF assms(1)] by (simp add: mq_ok_def client_ok_def)
  moreover have "pool_cap (ms_client s) \<le> length (cl_pool (ms_client s)) + length (filter (owes k) (ms_workers s))"
    using reach_stocked [OF assms(1)] assms(2,3) by (simp add: stocked_def)
  ultimately show ?thesis by auto
qed

text \<open>A worker takes a channel, the connection is lost, the loop dials again, the worker's channel breaks and is
  replaced; then \<open>Close\<close> runs to its end and the loop stops.\<close>

definition renewing_run :: "action list" where
  "renewing_run = [Work 0 Regular, Work 0 Regular, Work 0 Regular, Loop LNext, Dies 0, Loop LNext, Loop LNext, Loop LNext,
     Loop LNext, Loop LNext, Loop (LLibrary healthy), Loop LNext, Loop LNext, Work 0 Breaks, Work 0 Regular]"

definition ending_run :: "action list" where
  "ending_run = renewing_run @ [Work 0 (Library None None), Work 0 Regular, Loop LNext, Loop LNext, Closing CNext, Closing CNext,
     Closing CNext, Closing CNext, Closing CNext, Closing CNext, Loop LStop]"

text \<open>The run with the connections that are dialled in it.\<close>

fun dialled_in :: "(string \<Rightarrow> string) \<Rightarrow> action list \<Rightarrow> mq_sys \<Rightarrow> nat set" where
  "dialled_in quote [] s = {}"
| "dialled_in quote (a # acts) s =
     (case mq_act quote a s of None \<Rightarrow> {} | Some s' \<Rightarrow> action_dials a s \<union> dialled_in quote acts s')"

lemma dialled_run:
  "pool_dialled quote s K \<Longrightarrow> mq_run quote acts s = Some s' \<Longrightarrow> pool_dialled quote s' (K \<union> dialled_in quote acts s)"
proof (induction acts arbitrary: s K)
  case (Cons a acts)
  then obtain s1 where s1: "mq_act quote a s = Some s1" "mq_run quote acts s1 = Some s'" by (auto split: option.splits)
  from Cons.IH [OF pool_dialled.step [OF Cons.prems(1) s1(1)] s1(2)] s1(1) show ?case by (simp add: Un_assoc)
qed simp

lemma ending_run_runs: "mq_run (\<lambda>s. s) ending_run (mq_start 2 demo_client) = Some (demo_final ending_run)"
proof -
  have "mq_run (\<lambda>s. s) ending_run (mq_start 2 demo_client) \<noteq> None" by code_simp
  then show ?thesis by (auto simp: demo_final_def)
qed

theorem nothing_leaks_witness:
  "0 \<in> cl_dead (ms_client (demo_final ending_run)) \<and> 4 \<in> cl_dead (ms_client (demo_final ending_run)) \<and>
   8 \<in> cl_closedCh (ms_client (demo_final ending_run)) \<union>
     pc_ch ` {pc \<in> set (cl_pool (ms_client (demo_final ending_run))).
       pc_conn pc \<in> cl_dead (ms_client (demo_final ending_run))}"
proof -
  let ?s = "demo_final ending_run"
  define K where "K = {0} \<union> dialled_in (\<lambda>s. s) ending_run (mq_start 2 demo_client)"
  have "pool_dialled (\<lambda>s. s) ?s K"
    unfolding K_def by (rule dialled_run [OF pool_dialled.start [OF demo_client_new] ending_run_runs])
  note leaks = nothing_leaks [OF this]
  have "ms_closer ?s = CDone" "ms_loop ?s = LGone" "concat (map worker_has (ms_workers ?s)) = []" by code_simp+
  moreover have "4 \<in> dialled_in (\<lambda>s. s) ending_run (mq_start 2 demo_client)"
    "8 \<notin> dialled_in (\<lambda>s. s) ending_run (mq_start 2 demo_client)" "8 < cl_next (ms_client ?s)" by code_simp+
  moreover have "0 \<in> K" "4 \<in> K" "8 \<in> {..<cl_next (ms_client ?s)} - K" using calculation by (simp_all add: K_def)
  moreover from calculation(1-3) leaks have "K \<subseteq> cl_dead (ms_client ?s)"
    "{..<cl_next (ms_client ?s)} - K \<subseteq> cl_closedCh (ms_client ?s) \<union>
      pc_ch ` {pc \<in> set (cl_pool (ms_client ?s)). pc_conn pc \<in> cl_dead (ms_client ?s)}" by simp_all
  ultimately show ?thesis by (meson subsetD)
qed

text \<open>Between the breaking of the channel and its replacement.\<close>

theorem pool_never_shrinks_witness:
  "2 \<le> length (cl_pool (ms_client (demo_final renewing_run))) + length (filter (owes 4) (ms_workers (demo_final renewing_run)))"
proof -
  have r: "mq_run (\<lambda>s. s) renewing_run (mq_start 2 demo_client) \<noteq> None" by code_simp
  have k: "cl_conn (ms_client (demo_final renewing_run)) = Some 4" "4 \<notin> cl_dead (ms_client (demo_final renewing_run))"
    and c: "pool_cap (ms_client (demo_final renewing_run)) = 2" by code_simp+
  from pool_never_shrinks [OF demo_reach [OF r] k] c show ?thesis by simp
qed

end
