(* ===== verification/Grpc_Handler.thy ===== *)
theory Grpc_Handler
  imports Dispatch_Stream Case_Dispatch
begin

text \<open>
  The driving adapter (\<open>grpcserver/handler.go\<close>): validation of requests, calls of the use cases,
  conversion of progress and statuses, and the mapping of errors to gRPC status codes. The messages
  are those of the \<open>.proto\<close> file; a request pointer that may be nil is an option. The transport is outside:
  what \<open>stream.Send\<close> returns is part of the run of the pipeline.
\<close>

subsection \<open>Messages\<close>

datatype grpc_code =
    CodeCanceled
  | CodeDeadlineExceeded
  | CodeNotFound
  | CodeFailedPrecondition
  | CodeInvalidArgument
  | CodeInternal

record grpc_status =
  gs_code :: grpc_code
  gs_message :: string

datatype DispatchStatus =
    DISPATCH_STATUS_UNSPECIFIED
  | DISPATCH_STATUS_WAIT
  | DISPATCH_STATUS_FAILED

record ExecuteCaseRequest =
  cq_CaseId :: int64
  cq_Version :: string
  cq_User :: string
  cq_RequestId :: string

record ExecuteCaseResponse =
  cs_ExecutionId :: int64
  cs_Status :: DispatchStatus
  cs_RequestId :: string

record ExecuteAllCasesRequest =
  aq_Version :: string
  aq_User :: string
  aq_RequestId :: string

record ExecuteChannelCasesRequest =
  hq_Channel :: string
  hq_Version :: string
  hq_User :: string
  hq_RequestId :: string

record BatchDispatchProgress =
  bp_ChunkIndex :: int32
  bp_ChunkSize :: int32
  bp_SuccessExecutionIds :: "int64 list"
  bp_FailedExecutionIds :: "int64 list"
  bp_TotalDispatched :: int32
  bp_TotalPlanned :: int32
  bp_ChunkError :: string
  bp_RequestId :: string

subsection \<open>Conversions\<close>

definition toPbDispatchStatus :: "ExecutionStatus \<Rightarrow> DispatchStatus" where
  "toPbDispatchStatus s =
     (if s = StatusWait then DISPATCH_STATUS_WAIT
      else if s = StatusDispatchFailed then DISPATCH_STATUS_FAILED
      else DISPATCH_STATUS_UNSPECIFIED)"

definition grpc_code_of :: "goerr \<Rightarrow> grpc_code" where
  "grpc_code_of err =
     (if errors_Is err Canceled then CodeCanceled
      else if errors_Is err DeadlineExceeded then CodeDeadlineExceeded
      else if errors_Is err ErrCaseNotExist then CodeNotFound
      else if errors_Is err ErrExecutionNotFound then CodeNotFound
      else if errors_Is err ErrIllegalStatusTransition then CodeFailedPrecondition
      else if errors_Is err ErrInvalidArgument then CodeInvalidArgument
      else CodeInternal)"

definition toGRPCErr :: "goerr option \<Rightarrow> grpc_status option" where
  "toGRPCErr err = map_option (\<lambda>e. \<lparr>gs_code = grpc_code_of e, gs_message = Error e\<rparr>) err"

definition progressForwarder :: "string \<Rightarrow> Progress \<Rightarrow> BatchDispatchProgress" where
  "progressForwarder requestID p =
     \<lparr>bp_ChunkIndex = pg_ChunkIndex p, bp_ChunkSize = pg_ChunkSize p, bp_SuccessExecutionIds = pg_SuccessIDs p,
      bp_FailedExecutionIds = pg_FailedIDs p, bp_TotalDispatched = pg_TotalDispatched p,
      bp_TotalPlanned = pg_TotalPlanned p, bp_ChunkError = pg_ChunkError p, bp_RequestId = requestID\<rparr>"

subsection \<open>The calls\<close>

text \<open>\<open>rand1\<close> and \<open>rand2\<close> are the random bytes of the two calls of \<open>NormalizeRequestID\<close>, here and in the use case.\<close>

definition Handler_ExecuteCase ::
  "DispatchConfig \<Rightarrow> bool \<Rightarrow> goerr + byte list \<Rightarrow> goerr + byte list \<Rightarrow> case_times
     \<Rightarrow> (ExecutionRecord \<Rightarrow> string \<Rightarrow> goerr option) \<Rightarrow> ExecuteCaseRequest option \<Rightarrow> (grpc_status + ExecuteCaseResponse) io" where
  "Handler_ExecuteCase cfg outbox rand1 rand2 ct execute req =
     (let bad = io_return (Inl \<lparr>gs_code = CodeInvalidArgument, gs_message = ''case_id is required''\<rparr>) in
      case req of
        None \<Rightarrow> bad
      | Some req \<Rightarrow>
          (if cq_CaseId req \<le> 0 then bad
           else case NormalizeRequestID rand1 (cq_RequestId req) of
             Inl err \<Rightarrow> io_return (Inl \<lparr>gs_code = grpc_code_of err, gs_message = Error err\<rparr>)
           | Inr requestID \<Rightarrow>
               io_bind (ExecuteCaseWithRequest cfg outbox rand2 ct execute requestID (cq_CaseId req)
                          (NewVersion (cq_Version req)) (cq_User req))
                 (\<lambda>(execID, stat, err). io_return (case err of
                    Some e \<Rightarrow> Inl \<lparr>gs_code = grpc_code_of e, gs_message = Error e\<rparr>
                  | None \<Rightarrow> Inr \<lparr>cs_ExecutionId = execID, cs_Status = toPbDispatchStatus stat, cs_RequestId = requestID\<rparr>))))"

text \<open>The streaming calls yield the status (none is OK) and the frames given to \<open>stream.Send\<close>.\<close>

definition forwarded ::
  "string \<Rightarrow> (goerr option \<times> Progress list) option \<Rightarrow> (grpc_status option \<times> BatchDispatchProgress list) option" where
  "forwarded requestID r = map_option (\<lambda>(err, called). (toGRPCErr err, map (progressForwarder requestID) called)) r"

definition nil_request :: "(grpc_status option \<times> BatchDispatchProgress list) option" where
  "nil_request = Some (Some \<lparr>gs_code = CodeInvalidArgument, gs_message = ''request is nil''\<rparr>, [])"

definition Handler_ExecuteAllCases ::
  "DispatchConfig \<Rightarrow> bool \<Rightarrow> goerr + byte list \<Rightarrow> goerr + byte list \<Rightarrow> goerr option \<Rightarrow> ExecuteAllCasesRequest option
     \<Rightarrow> world \<Rightarrow> world \<Rightarrow> stream_action list \<Rightarrow> (grpc_status option \<times> BatchDispatchProgress list) option" where
  "Handler_ExecuteAllCases cfg outbox rand1 rand2 slot req w1 w2 acts =
     (case req of
        None \<Rightarrow> nil_request
      | Some req \<Rightarrow>
          (case NormalizeRequestID rand1 (aq_RequestId req) of
             Inl err \<Rightarrow> Some (toGRPCErr (Some err), [])
           | Inr requestID \<Rightarrow>
               forwarded requestID
                 (ExecuteAllCasesWithRequest cfg outbox rand2 slot requestID (NewVersion (aq_Version req)) (aq_User req) w1 w2 acts)))"

definition Handler_ExecuteChannelCases ::
  "DispatchConfig \<Rightarrow> bool \<Rightarrow> goerr + byte list \<Rightarrow> goerr + byte list \<Rightarrow> goerr option \<Rightarrow> ExecuteChannelCasesRequest option
     \<Rightarrow> world \<Rightarrow> world \<Rightarrow> stream_action list \<Rightarrow> (grpc_status option \<times> BatchDispatchProgress list) option" where
  "Handler_ExecuteChannelCases cfg outbox rand1 rand2 slot req w1 w2 acts =
     (case req of
        None \<Rightarrow> nil_request
      | Some req \<Rightarrow>
          (case NormalizeRequestID rand1 (hq_RequestId req) of
             Inl err \<Rightarrow> Some (toGRPCErr (Some err), [])
           | Inr requestID \<Rightarrow>
               forwarded requestID
                 (ExecuteChannelCasesWithRequest cfg outbox rand2 slot requestID (NewChannel (hq_Channel req))
                    (NewVersion (hq_Version req)) (hq_User req) w1 w2 acts)))"

subsection \<open>Error codes\<close>

text \<open>The status code depends only on the sentinel an error goes back to, not on the texts wrapped around it
  on the way through the repositories, the use cases and the pipeline; the domain errors get their own
  codes, a context that ended gets the code of its cause, everything else is \<open>Internal\<close>; and an answer is
  an error exactly if there is one, with its complete text.\<close>
theorem toGRPCErr_stable:
  "toGRPCErr (Some (wrap_prefix pre e)) = Some \<lparr>gs_code = grpc_code_of e, gs_message = pre @ Error e\<rparr> \<and>
   grpc_code_of (NewCaseNotExist i) = CodeNotFound \<and> grpc_code_of (NewExecutionNotFound i) = CodeNotFound \<and>
   grpc_code_of (NewIllegalStatusTransition i from' to') = CodeFailedPrecondition \<and>
   grpc_code_of (NewInvalidArgument msg) = CodeInvalidArgument \<and>
   grpc_code_of (Sentinel Canceled) = CodeCanceled \<and> grpc_code_of (Sentinel DeadlineExceeded) = CodeDeadlineExceeded \<and>
   grpc_code_of (ErrorsNew msg) = CodeInternal \<and> toGRPCErr None = None"
  by (simp add: toGRPCErr_def grpc_code_of_def)

subsection \<open>Answers\<close>

text \<open>C27: If the call \<open>ExecuteCase\<close> answers OK, the case id was positive, and for the id in the answer there is an
  execution of exactly the requested case and (trimmed) version that is stored under the request id in
  the answer (as the database compares ids), which the client can repeat; and the status is never UNSPECIFIED: it is
  FAILED if the message of the execution is DEAD, and otherwise WAIT, with the message
  published or in the hands of a relay.\<close>
theorem Handler_ExecuteCase_answer:
  assumes "Handler_ExecuteCase cfg True rand1 rand2 ct ex (Some req) w = (Inr (Inr resp), w')" and "sound w"
    and "\<And>bs. rand1 = Inr bs \<Longrightarrow> length bs = 16" and "\<And>bs. rand2 = Inr bs \<Longrightarrow> length bs = 16"
  shows "0 < cq_CaseId req \<and>
    (\<exists>p \<in> set (t_execs (tabs w')). pe_ExecutionID p = cs_ExecutionId resp \<and> pe_CaseID p = cq_CaseId req \<and>
       pe_Version p = NewVersion (cq_Version req) \<and> request_is (tabs w') (cs_RequestId resp) p) \<and>
    (\<exists>q \<in> set (t_outbox (tabs w')). po_ExecutionID q = cs_ExecutionId resp \<and>
       (cs_Status resp = DISPATCH_STATUS_WAIT \<and> po_State q \<in> {OutboxPublished, OutboxProcessing} \<or>
        cs_Status resp = DISPATCH_STATUS_FAILED \<and> po_State q = OutboxDead))"
proof -
  from assms(1) obtain rid where pos: "0 < cq_CaseId req" and rid: "NormalizeRequestID rand1 (cq_RequestId req) = Inr rid"
    by (auto simp: Handler_ExecuteCase_def Let_def io_return_Inr split: if_splits sum.splits)
  obtain xid st where run: "ExecuteCaseWithRequest cfg True rand2 ct ex rid (cq_CaseId req) (NewVersion (cq_Version req))
      (cq_User req) w = (Inr (xid, st, None), w')"
    and resp: "resp = \<lparr>cs_ExecutionId = xid, cs_Status = toPbDispatchStatus st, cs_RequestId = rid\<rparr>"
    using assms(1) pos rid
    by (auto simp: Handler_ExecuteCase_def Let_def io_bind_Inr io_return_Inr split: option.splits)
  have rid2: "NormalizeRequestID rand2 rid = Inr rid"
    using NormalizeRequestID_Inr [OF rid assms(3)] NormalizeRequestID_id by blast
  show ?thesis
    by (rule ExecuteCase_ok_cases [OF run assms(2,4)])
       (auto simp: resp pos rid2 stored_for_def toPbDispatchStatus_def dest!: ReplayStatus_cases split: if_splits)
qed

definition demo_request :: ExecuteCaseRequest where
  "demo_request = \<lparr>cq_CaseId = 3, cq_Version = '' v1'', cq_User = ''amy'', cq_RequestId = '' req-1 ''\<rparr>"

definition demo_rpc :: "(goerr + (grpc_status + ExecuteCaseResponse)) \<times> world" where
  "demo_rpc = Handler_ExecuteCase demo_config True (Inl (ErrorsNew ''no entropy'')) (Inl (ErrorsNew ''no entropy'')) demo_times
     (\<lambda>_ _. None) (Some demo_request) demo_catalogue"

theorem Handler_ExecuteCase_answer_witness:
  "\<exists>p \<in> set (t_execs (tabs (snd demo_rpc))). pe_ExecutionID p = 1 \<and> pe_CaseID p = 3 \<and> pe_Version p = ''v1'' \<and>
     request_is (tabs (snd demo_rpc)) ''req-1'' p"
proof -
  have "fst demo_rpc = Inr (Inr \<lparr>cs_ExecutionId = 1, cs_Status = DISPATCH_STATUS_WAIT, cs_RequestId = ''req-1''\<rparr>)"
    by code_simp
  then have run: "demo_rpc = (Inr (Inr \<lparr>cs_ExecutionId = 1, cs_Status = DISPATCH_STATUS_WAIT, cs_RequestId = ''req-1''\<rparr>), snd demo_rpc)"
    by (metis prod.collapse)
  have v: "NewVersion (cq_Version demo_request) = ''v1''" "cq_CaseId demo_request = 3" by code_simp+
  from Handler_ExecuteCase_answer [OF run [unfolded demo_rpc_def] sound_demo] v show ?thesis
    unfolding demo_rpc_def by auto
qed

end

