(* ===== verification/Grpc_Server.thy ===== *)
theory Grpc_Server
  imports Grpc_Handler Machines
begin

text \<open>
  \<open>grpcserver/server.go\<close>: the listener, the gRPC server around the handler, and its graceful stop. What the
  library and the network answer are arguments. The interceptors pass request, response and error through;
  their log lines are left out.
\<close>

record ServerConfig =
  sv_Addr :: string
  sv_MaxRecvMsgMiB :: int

datatype serving = SERVING | NOT_SERVING

text \<open>The server: its limit in bytes, the address it listens on, the health service, and what became of the
  library's server.\<close>

datatype grpc_state = Accepting | Draining | Stopped

record Server =
  sr_cfg :: ServerConfig
  sr_maxRecv :: "64 word"
  sr_addr :: string
  sr_health :: serving
  sr_state :: grpc_state

text \<open>\<open>listen\<close> yields the address the listener is bound to.\<close>

definition NewServer :: "(string \<Rightarrow> goerr + string) \<Rightarrow> ServerConfig \<Rightarrow> goerr + Server" where
  "NewServer listen cfg =
     (let cfg = (if sv_MaxRecvMsgMiB cfg \<le> 0 then cfg\<lparr>sv_MaxRecvMsgMiB := 16\<rparr> else cfg)
      in case listen (sv_Addr cfg) of
           Inl err \<Rightarrow> Inl (wrap_prefix (''listen '' @ sv_Addr cfg @ '': '') err)
         | Inr addr \<Rightarrow> Inr \<lparr>sr_cfg = cfg, sr_maxRecv = word_of_int (sv_MaxRecvMsgMiB cfg) * 1024 * 1024, sr_addr = addr,
                          sr_health = SERVING, sr_state = Accepting\<rparr>)"

definition Server_Addr :: "Server \<Rightarrow> string" where
  "Server_Addr s = sr_addr s"

text \<open>What \<open>Serve\<close> returns when it does: an error of the listener, the library's \<open>ErrServerStopped\<close>, or nil.\<close>

datatype serve_end = ServeErr goerr | ServerStopped | ServeNil

definition Server_Start :: "serve_end \<Rightarrow> goerr option" where
  "Server_Start e = (case e of ServeErr err \<Rightarrow> Some (wrap_prefix ''grpc serve: '' err) | _ \<Rightarrow> None)"

text \<open>
  \<open>GracefulStop\<close> as steps of the caller and of the goroutine that drains: the caller waits in the \<open>select\<close>,
  and then perhaps for \<open>done\<close> after it has forced the stop. As the library documents it, draining ends when
  the last call is over (\<open>DrainEnds\<close>), and \<open>Stop\<close> cancels the calls that are running.
\<close>

datatype stopper = NotStopping | Selecting | Forced | StopReturned

record stop_sys =
  ss_server :: Server
  ss_stopper :: stopper
  ss_open :: nat        \<comment> \<open>the calls that are running\<close>
  ss_cancelled :: bool
  ss_done :: bool

datatype stop_action = StopBegin | CallEnds | DrainEnds | StopCtxDone | StopDone

fun stop_act :: "stop_action \<Rightarrow> stop_sys \<Rightarrow> stop_sys option" where
  "stop_act StopBegin s =
     (if ss_stopper s = NotStopping
      then Some (s\<lparr>ss_server := (ss_server s)\<lparr>sr_health := NOT_SERVING, sr_state := Draining\<rparr>, ss_stopper := Selecting\<rparr>)
      else None)"
| "stop_act CallEnds s = (if 0 < ss_open s then Some (s\<lparr>ss_open := ss_open s - 1\<rparr>) else None)"
| "stop_act DrainEnds s =
     (if ss_stopper s \<noteq> NotStopping \<and> ss_open s = 0 \<and> \<not> ss_done s
      then Some (s\<lparr>ss_server := (ss_server s)\<lparr>sr_state := Stopped\<rparr>, ss_done := True\<rparr>) else None)"
| "stop_act StopCtxDone s =
     (if ss_stopper s = Selecting then Some (s\<lparr>ss_stopper := Forced, ss_cancelled := True\<rparr>) else None)"
| "stop_act StopDone s =
     (if (ss_stopper s = Selecting \<or> ss_stopper s = Forced) \<and> ss_done s
      then Some (s\<lparr>ss_stopper := StopReturned\<rparr>) else None)"

fun stop_run :: "stop_action list \<Rightarrow> stop_sys \<Rightarrow> stop_sys option" where
  "stop_run [] s = Some s"
| "stop_run (a # as) s = (case stop_act a s of None \<Rightarrow> None | Some s' \<Rightarrow> stop_run as s')"

definition stop_start :: "Server \<Rightarrow> nat \<Rightarrow> stop_sys" where
  "stop_start sv calls = \<lparr>ss_server = sv, ss_stopper = NotStopping, ss_open = calls, ss_cancelled = False, ss_done = False\<rparr>"

text \<open>Whatever the interleaving: when \<open>GracefulStop\<close> has returned, no call is running, the health service says
  so, and the library's server has stopped.\<close>

definition stop_ok :: "stop_sys \<Rightarrow> bool" where
  "stop_ok s \<longleftrightarrow>
     (ss_stopper s \<noteq> NotStopping \<longrightarrow> sr_health (ss_server s) = NOT_SERVING) \<and>
     (ss_done s \<longrightarrow> ss_open s = 0 \<and> sr_state (ss_server s) = Stopped \<and> ss_stopper s \<noteq> NotStopping) \<and>
     (ss_stopper s = StopReturned \<longrightarrow> ss_done s)"

lemma stop_ok_act: "stop_ok s \<Longrightarrow> stop_act a s = Some s' \<Longrightarrow> stop_ok s'"
  by (cases a) (auto simp: stop_ok_def split: if_splits)

interpretation stopping: machine stop_act stop_run stop_ok
  by unfold_locales (simp, simp, erule (1) stop_ok_act)

lemma GracefulStop_returned:
  assumes "stop_run as (stop_start sv calls) = Some s" and "ss_stopper s = StopReturned"
  shows "ss_open s = 0 \<and> sr_health (ss_server s) = NOT_SERVING \<and> sr_state (ss_server s) = Stopped"
proof -
  have "stop_ok (stop_start sv calls)" by (simp add: stop_ok_def stop_start_def)
  from stopping.run_keeps [OF this assms(1)] assms(2) show ?thesis by (simp add: stop_ok_def)
qed

text \<open>Once it has begun, the stop returns as soon as the calls that run have ended, forced or not, and it has
  never more than that to wait for.\<close>

lemma calls_end:
  "stop_run (replicate (ss_open s) CallEnds) s = Some (s\<lparr>ss_open := 0\<rparr>)"
proof (induction "ss_open s" arbitrary: s)
  case (Suc n)
  with Suc(1) [of "s\<lparr>ss_open := n\<rparr>"] show ?case by (simp flip: Suc(2))
qed simp


lemma GracefulStop_returns:
  assumes "ss_stopper s = Selecting \<or> ss_stopper s = Forced"
  shows "\<exists>as s'. stop_run (replicate (ss_open s) CallEnds @ as) s = Some s' \<and> ss_stopper s' = StopReturned \<and> length as \<le> 2"
proof (cases "ss_done s")
  case True
  with assms show ?thesis
    by (intro exI [of _ "[StopDone]"]) (simp add: stopping.run_append [OF calls_end])
next
  case False
  with assms show ?thesis
    by (intro exI [of _ "[DrainEnds, StopDone]"]) (auto simp: stopping.run_append [OF calls_end])
qed

text \<open>The interceptors pass on what the handler returns, and log the method, the time it took and the error.\<close>

record rpc_log =
  rl_method :: string
  rl_took :: duration
  rl_error :: "goerr option"

definition unaryLoggingInterceptor ::
  "gotime \<Rightarrow> gotime \<Rightarrow> string \<Rightarrow> ('q \<Rightarrow> 'r \<times> goerr option) \<Rightarrow> 'q \<Rightarrow> ('r \<times> goerr option) \<times> rpc_log" where
  "unaryLoggingInterceptor start now fullMethod handler req =
     (let (resp, err) = handler req in
      ((resp, err), \<lparr>rl_method = fullMethod, rl_took = word_of_int (now - start), rl_error = err\<rparr>))"

definition streamLoggingInterceptor ::
  "gotime \<Rightarrow> gotime \<Rightarrow> string \<Rightarrow> ('q \<Rightarrow> goerr option) \<Rightarrow> 'q \<Rightarrow> goerr option \<times> rpc_log" where
  "streamLoggingInterceptor start now fullMethod handler ss =
     (let err = handler ss in
      (err, \<lparr>rl_method = fullMethod, rl_took = word_of_int (now - start), rl_error = err\<rparr>))"

lemma interceptors_transparent:
  "fst (unaryLoggingInterceptor t0 t1 m h q) = h q" "fst (streamLoggingInterceptor t0 t1 m h' q') = h' q'"
  by (simp_all add: unaryLoggingInterceptor_def streamLoggingInterceptor_def Let_def split: prod.splits)

text \<open>The limit for messages is that of the configuration, or 16 MiB; it overflows only from 8 EiB on.\<close>

lemma NewServer_limit:
  assumes "NewServer listen cfg = Inr s" and "sv_MaxRecvMsgMiB cfg < 2 ^ 43"
  shows "sint (sr_maxRecv s) = (if sv_MaxRecvMsgMiB cfg \<le> 0 then 16 else sv_MaxRecvMsgMiB cfg) * 2 ^ 20"
proof -
  define n where "n = (if sv_MaxRecvMsgMiB cfg \<le> 0 then 16 else sv_MaxRecvMsgMiB cfg)"
  have "sr_maxRecv s = word_of_int (n * 2 ^ 20)"
    using assms(1) by (auto simp: NewServer_def n_def Let_def split: sum.splits if_splits)
  moreover have "sint (word_of_int (n * 2 ^ 20) :: 64 word) = n * 2 ^ 20"
    using assms(2) unfolding signed_of_int by (simp add: n_def, intro signed_take_bit_int_eq_self conjI impI; simp)
  ultimately show ?thesis by (simp add: n_def)
qed

end
