(* ===== verification/Connections.thy ===== *)
theory Connections
  imports Database
begin

text \<open>
  \<open>persistence/mysql/db.go\<close>: opening and closing the connection pool, and how a transaction travels in a
  context so that every repository called inside \<open>TxRunner.Do\<close> joins it. What the GORM library answers is
  an argument; the pool limits are those of \<open>database/sql\<close>. The transactions themselves are \<open>tx_Do\<close> of
  \<open>Database\<close>.
\<close>

subsection \<open>The connection pool\<close>

record DBConfig =
  my_DSN :: string
  my_MaxOpenConns :: int
  my_MaxIdleConns :: int
  my_ConnMaxLifetimeSec :: int

text \<open>
  The limits a \<open>sql.DB\<close> keeps: 0 open connections and a lifetime of 0 mean no limit; 0 idle ones means the
  default of 2, a negative number none.
\<close>

record sqlDB =
  sd_maxOpen :: int
  sd_maxIdleCount :: int
  sd_maxLifetime :: duration
  sd_closed :: bool

definition maxIdleConns :: "sqlDB \<Rightarrow> int" where
  "maxIdleConns d = (if sd_maxIdleCount d = 0 then 2 else if sd_maxIdleCount d < 0 then 0 else sd_maxIdleCount d)"

definition SetMaxIdleConns :: "int \<Rightarrow> sqlDB \<Rightarrow> sqlDB" where
  "SetMaxIdleConns n d =
     (let d = d\<lparr>sd_maxIdleCount := (if 0 < n then n else - 1)\<rparr>
      in if 0 < sd_maxOpen d \<and> sd_maxOpen d < maxIdleConns d then d\<lparr>sd_maxIdleCount := sd_maxOpen d\<rparr> else d)"

definition SetMaxOpenConns :: "int \<Rightarrow> sqlDB \<Rightarrow> sqlDB" where
  "SetMaxOpenConns n d =
     (let d = d\<lparr>sd_maxOpen := (if n < 0 then 0 else n)\<rparr>
      in if 0 < sd_maxOpen d \<and> sd_maxOpen d < maxIdleConns d then SetMaxIdleConns n d else d)"

definition SetConnMaxLifetime :: "duration \<Rightarrow> sqlDB \<Rightarrow> sqlDB" where
  "SetConnMaxLifetime t d = d\<lparr>sd_maxLifetime := (if t <s 0 then 0 else t)\<rparr>"

text \<open>The errors of the library, if any: of \<open>gorm.Open\<close>, of \<open>DB()\<close>, and of closing. When \<open>Open\<close> ends with an error the
  caller has no pool; whether the library keeps one if \<open>DB()\<close> fails after \<open>gorm.Open\<close> is not recorded.\<close>

record gorm_env =
  ge_open :: "goerr option"
  ge_db :: "goerr option"
  ge_close :: "goerr option"

definition fresh_pool :: sqlDB where
  "fresh_pool = \<lparr>sd_maxOpen = 0, sd_maxIdleCount = 0, sd_maxLifetime = 0, sd_closed = False\<rparr>"

definition DB_Open :: "gorm_env \<Rightarrow> DBConfig \<Rightarrow> goerr + sqlDB" where
  "DB_Open env cfg =
     (case ge_open env of
        Some err \<Rightarrow> Inl (wrap_prefix ''gorm open: '' err)
      | None \<Rightarrow>
          (case ge_db env of
             Some err \<Rightarrow> Inl (wrap_prefix ''gorm underlying db: '' err)
           | None \<Rightarrow>
               (let d = fresh_pool;
                    d = (if 0 < my_MaxOpenConns cfg then SetMaxOpenConns (my_MaxOpenConns cfg) d else d);
                    d = (if 0 < my_MaxIdleConns cfg then SetMaxIdleConns (my_MaxIdleConns cfg) d else d);
                    d = (if 0 < my_ConnMaxLifetimeSec cfg
                         then SetConnMaxLifetime (word_of_int (my_ConnMaxLifetimeSec cfg) * Second) d else d)
                in Inr d)))"

text \<open>\<open>None\<close> is a nil handle.\<close>

definition DB_Close :: "gorm_env \<Rightarrow> sqlDB option \<Rightarrow> goerr option \<times> sqlDB option" where
  "DB_Close env db =
     (case db of
        None \<Rightarrow> (None, None)
      | Some d \<Rightarrow>
          (case ge_db env of
             Some err \<Rightarrow> (Some err, db)
           | None \<Rightarrow> (ge_close env, Some (d\<lparr>sd_closed := True\<rparr>))))"

lemmas pool_defs = SetMaxIdleConns_def SetMaxOpenConns_def SetConnMaxLifetime_def maxIdleConns_def fresh_pool_def

text \<open>The lifetime in nanoseconds, as long as it fits.\<close>

lemma sint_seconds:
  assumes "0 \<le> n" and "n < 2 ^ 63 div 10 ^ 9"
  shows "sint (word_of_int n * Second) = n * 10 ^ 9"
proof -
  have "word_of_int n * Second = word_of_int (n * 10 ^ 9)" by (simp add: Second_def)
  moreover have "sint (word_of_int (n * 10 ^ 9) :: duration) = n * 10 ^ 9"
    using assms unfolding signed_of_int by (simp, intro signed_take_bit_int_eq_self; simp)
  ultimately show ?thesis by simp
qed


text \<open>
  The pool keeps to its configuration: the number of open connections is limited to the configured one, if
  that is positive; there are never more idle connections than open ones are allowed; the configured number
  of idle ones is kept as far as that limit lets it; and a lifetime that fits is the configured one.
\<close>

lemma DB_Open_limits:
  assumes "DB_Open env cfg = Inr d"
  shows "sd_maxOpen d = max 0 (my_MaxOpenConns cfg)"
    and "0 < my_MaxOpenConns cfg \<Longrightarrow> maxIdleConns d \<le> my_MaxOpenConns cfg"
    and "0 < my_MaxIdleConns cfg \<Longrightarrow> maxIdleConns d =
       (if 0 < my_MaxOpenConns cfg then min (my_MaxIdleConns cfg) (my_MaxOpenConns cfg) else my_MaxIdleConns cfg)"
    and "my_ConnMaxLifetimeSec cfg < 2 ^ 63 div 10 ^ 9 \<Longrightarrow>
       sint (sd_maxLifetime d) = max 0 (my_ConnMaxLifetimeSec cfg) * 10 ^ 9"
proof -
  define d1 where "d1 =
      (if 0 < my_MaxOpenConns cfg then SetMaxOpenConns (my_MaxOpenConns cfg) fresh_pool else fresh_pool)"
  define d2 where "d2 = (if 0 < my_MaxIdleConns cfg then SetMaxIdleConns (my_MaxIdleConns cfg) d1 else d1)"
  have d: "d = (if 0 < my_ConnMaxLifetimeSec cfg
       then SetConnMaxLifetime (word_of_int (my_ConnMaxLifetimeSec cfg) * Second) d2 else d2)"
    using assms [symmetric] unfolding DB_Open_def Let_def d1_def d2_def by (simp split: option.splits)
  note d2 = d2_def
  have o1: "sd_maxOpen d1 = max 0 (my_MaxOpenConns cfg)" and l1: "sd_maxLifetime d1 = 0"
    and i1: "0 < my_MaxOpenConns cfg \<Longrightarrow> maxIdleConns d1 \<le> my_MaxOpenConns cfg"
    by (auto simp: d1_def pool_defs Let_def)
  have o2: "sd_maxOpen d2 = sd_maxOpen d1" "sd_maxLifetime d2 = sd_maxLifetime d1"
    by (simp_all add: d2 SetMaxIdleConns_def Let_def)
  have dd: "sd_maxOpen d = sd_maxOpen d2" "maxIdleConns d = maxIdleConns d2"
    by (simp_all add: d SetConnMaxLifetime_def maxIdleConns_def)
  show "sd_maxOpen d = max 0 (my_MaxOpenConns cfg)" using o1 o2 dd by simp
  have i2: "maxIdleConns d2 = (if 0 < my_MaxOpenConns cfg then min (my_MaxIdleConns cfg) (my_MaxOpenConns cfg)
      else my_MaxIdleConns cfg)" if "0 < my_MaxIdleConns cfg"
    using that o1 by (auto simp: d2 SetMaxIdleConns_def maxIdleConns_def Let_def)
  then show "0 < my_MaxIdleConns cfg \<Longrightarrow> maxIdleConns d =
       (if 0 < my_MaxOpenConns cfg then min (my_MaxIdleConns cfg) (my_MaxOpenConns cfg) else my_MaxIdleConns cfg)"
    by (simp add: dd)
  show "maxIdleConns d \<le> my_MaxOpenConns cfg" if "0 < my_MaxOpenConns cfg"
    using i1 i2 that by (cases "0 < my_MaxIdleConns cfg") (simp_all add: dd d2)
  show "sint (sd_maxLifetime d) = max 0 (my_ConnMaxLifetimeSec cfg) * 10 ^ 9" if "my_ConnMaxLifetimeSec cfg < 2 ^ 63 div 10 ^ 9"
  proof (cases "0 < my_ConnMaxLifetimeSec cfg")
    case True
    with sint_seconds [of "my_ConnMaxLifetimeSec cfg"] that
    have "sint (word_of_int (my_ConnMaxLifetimeSec cfg) * Second) = my_ConnMaxLifetimeSec cfg * 10 ^ 9" by simp
    with True show ?thesis by (simp add: d SetConnMaxLifetime_def word_sless_alt)
  qed (simp add: d o2 l1)
qed

subsection \<open>Transactions in contexts\<close>

text \<open>A handle is that of the pool or of a transaction, which have numbers.\<close>

datatype db_handle = RootDB | TxDB nat

text \<open>A context is a chain of key-value pairs; \<open>TxKey\<close> is the private key of the package, and a value under it
  may be a nil handle. A context derived with a deadline or with another key counts as \<open>OtherKey\<close>.\<close>

datatype ctx_key = TxKey | OtherKey string
datatype ctx_value = DBValue "db_handle option" | OtherValue

type_synonym go_context = "(ctx_key \<times> ctx_value) list"

definition ctx_Value :: "go_context \<Rightarrow> ctx_key \<Rightarrow> ctx_value option" where
  "ctx_Value ctx k = map_of ctx k"

definition WithTx :: "go_context \<Rightarrow> db_handle option \<Rightarrow> go_context" where
  "WithTx ctx tx = (TxKey, DBValue tx) # ctx"

text \<open>A handle bound to a context, as \<open>WithContext\<close> makes it.\<close>

definition FromCtx :: "go_context \<Rightarrow> db_handle \<Rightarrow> db_handle \<times> go_context" where
  "FromCtx ctx root =
     (case ctx_Value ctx TxKey of
        Some (DBValue (Some tx)) \<Rightarrow> (tx, ctx)
      | _ \<Rightarrow> (root, ctx))"

text \<open>\<open>Do\<close> begins the transaction with number \<open>n\<close> and runs \<open>fn\<close> with the context that carries it.\<close>

definition TxRunner_Do :: "nat \<Rightarrow> go_context \<Rightarrow> (go_context \<Rightarrow> 'a io) \<Rightarrow> 'a io" where
  "TxRunner_Do n ctx fn = tx_Do (fn (WithTx ctx (Some (TxDB n))))"

text \<open>
  Inside \<open>Do\<close> every repository gets the handle of the transaction, also through contexts derived from the one
  \<open>fn\<close> was given; a context without a transaction gets the handle of the pool; inside a nested \<open>Do\<close> it is
  the inner transaction.
\<close>

lemma ctx_Value_derived: "k \<notin> fst ` set kvs \<Longrightarrow> ctx_Value (kvs @ ctx) k = ctx_Value ctx k"
  by (induction kvs) (auto simp: ctx_Value_def)

lemma FromCtx_in_transaction: "TxKey \<notin> fst ` set kvs \<Longrightarrow> fst (FromCtx (kvs @ WithTx ctx (Some tx)) root) = tx"
  by (simp add: FromCtx_def ctx_Value_derived) (simp add: ctx_Value_def WithTx_def)

lemma FromCtx_outside: "TxKey \<notin> fst ` set ctx \<Longrightarrow> FromCtx ctx root = (root, ctx)"
  using ctx_Value_derived [of TxKey ctx "[]"] by (simp add: FromCtx_def ctx_Value_def)

lemma FromCtx_nil: "fst (FromCtx (WithTx ctx None) root) = root"
  by (simp add: FromCtx_def ctx_Value_def WithTx_def)

lemma TxRunner_Do_handle:
  "TxRunner_Do n ctx (\<lambda>c. io_return (fst (FromCtx c root))) w = (Inr h, w') \<Longrightarrow> h = TxDB n"
  using FromCtx_in_transaction [of "[]" ctx "TxDB n" root]
  by (auto simp: TxRunner_Do_def tx_Do_def io_return_def split: prod.splits sum.splits outcome.splits)

end
