(* ===== verification/Logger.thy ===== *)
theory Logger
  imports Errors
begin

text \<open>
  \<open>pkg/logger/logger.go\<close>: the process-wide logger behind a \<open>sync.Once\<close>. What zap makes of a level's text
  and of a configuration are arguments; loggers are numbers, and no number is the logger that drops
  everything.
\<close>

datatype log_level = DebugLevel | InfoLevel | WarnLevel | ErrorLevel | DPanicLevel | PanicLevel | FatalLevel

record LoggerConfig =
  lg_Level :: string
  lg_Encoding :: string

record ZapConfig =
  zc_Level :: log_level
  zc_Development :: bool
  zc_DisableCaller :: bool
  zc_Encoding :: string
  zc_OutputPaths :: "string list"
  zc_ErrorOutputPaths :: "string list"

text \<open>The package's two variables.\<close>

record logger_state =
  ls_once :: bool
  ls_logger :: "nat option"

definition logger_unset :: logger_state where
  "logger_unset = \<lparr>ls_once = False, ls_logger = None\<rparr>"

text \<open>\<open>unmarshal\<close> leaves a text it does not know without a level, and the default stays.\<close>

definition zap_config :: "(string \<Rightarrow> log_level option) \<Rightarrow> LoggerConfig \<Rightarrow> ZapConfig" where
  "zap_config unmarshal cfg =
     \<lparr>zc_Level = (case unmarshal (lg_Level cfg) of Some l \<Rightarrow> l | None \<Rightarrow> InfoLevel),
      zc_Development = False, zc_DisableCaller = False,
      zc_Encoding = (if lg_Encoding cfg = '''' then ''console'' else lg_Encoding cfg),
      zc_OutputPaths = [''stdout''], zc_ErrorOutputPaths = [''stderr'']\<rparr>"

definition Logger_Init ::
  "(string \<Rightarrow> log_level option) \<Rightarrow> (ZapConfig \<Rightarrow> goerr + nat) \<Rightarrow> LoggerConfig \<Rightarrow> logger_state \<Rightarrow> goerr option \<times> logger_state" where
  "Logger_Init unmarshal build cfg s =
     (if ls_once s then (None, s)
      else case build (zap_config unmarshal cfg) of
             Inl err \<Rightarrow> (Some err, s\<lparr>ls_once := True, ls_logger := None\<rparr>)
           | Inr l \<Rightarrow> (None, s\<lparr>ls_once := True, ls_logger := Some l\<rparr>))"

text \<open>\<open>None\<close> is zap's logger without output.\<close>

definition Logger_L :: "logger_state \<Rightarrow> nat option" where
  "Logger_L s = ls_logger s"

text \<open>The loggers that are flushed; the error of flushing is dropped.\<close>

definition Logger_Sync :: "logger_state \<Rightarrow> nat list" where
  "Logger_Sync s = (case ls_logger s of Some l \<Rightarrow> [l] | None \<Rightarrow> [])"

text \<open>The logger is built at most once: a second call changes nothing, whatever its configuration.\<close>

lemma Init_once:
  "Logger_Init u b cfg s = (r, s') \<Longrightarrow> Logger_Init u' b' cfg' s' = (None, s')"
  by (auto simp: Logger_Init_def split: if_splits sum.splits)

lemma Init_ok_logs:
  "Logger_Init u b cfg logger_unset = (None, s') \<Longrightarrow> \<exists>l. b (zap_config u cfg) = Inr l \<and> Logger_L s' = Some l"
  by (auto simp: Logger_Init_def logger_unset_def Logger_L_def split: sum.splits)

text \<open>
  Because the \<open>Once\<close> counts a failed call as well, a retry after a failure reports success although there is
  no logger.
\<close>

lemma Init_retry_reports_success:
  assumes "b (zap_config u cfg) = Inl e"
  shows "\<exists>s. Logger_Init u b cfg logger_unset = (Some e, s) \<and>
    Logger_Init u' b' cfg' s = (None, s) \<and> Logger_L s = None"
  using assms by (simp add: Logger_Init_def logger_unset_def Logger_L_def)

end
