(* ===== verification/Deferred_Steps.thy ===== *)
theory Deferred_Steps
  imports Errors
begin

text \<open>
  Go functions that acquire and release things, for the command line programs: a step leaves events, may end
  the function with an error, and may defer events to the end of the function, where they happen in
  the reverse order, on every way out.
\<close>

record 'e proc =
  pr_trace :: "'e list"
  pr_deferred :: "'e list"     \<comment> \<open>the last one deferred comes first\<close>

type_synonym ('e, 'x, 'a) step = "'e proc \<Rightarrow> ('x + 'a) \<times> 'e proc"

definition step_return :: "'a \<Rightarrow> ('e, 'x, 'a) step" where
  "step_return x p = (Inr x, p)"

definition step_fail :: "'x \<Rightarrow> ('e, 'x, 'a) step" where
  "step_fail e p = (Inl e, p)"

definition step_bind :: "('e, 'x, 'a) step \<Rightarrow> ('a \<Rightarrow> ('e, 'x, 'b) step) \<Rightarrow> ('e, 'x, 'b) step" where
  "step_bind m k p = (case m p of (Inl e, p') \<Rightarrow> (Inl e, p') | (Inr x, p') \<Rightarrow> k x p')"

definition step_then :: "('e, 'x, 'a) step \<Rightarrow> ('e, 'x, 'b) step \<Rightarrow> ('e, 'x, 'b) step" where
  "step_then m k = step_bind m (\<lambda>_. k)"

definition step_event :: "'e \<Rightarrow> ('e, 'x, unit) step" where
  "step_event e p = (Inr (), p\<lparr>pr_trace := pr_trace p @ [e]\<rparr>)"

definition step_defer :: "'e \<Rightarrow> ('e, 'x, unit) step" where
  "step_defer e p = (Inr (), p\<lparr>pr_deferred := e # pr_deferred p\<rparr>)"

text \<open>An error of something called ends the function, dressed up by \<open>f\<close>.\<close>

definition step_try :: "('y \<Rightarrow> 'x) \<Rightarrow> 'y + 'a \<Rightarrow> ('e, 'x, 'a) step" where
  "step_try f r p = (case r of Inl e \<Rightarrow> (Inl (f e), p) | Inr x \<Rightarrow> (Inr x, p))"

definition step_check :: "('y \<Rightarrow> 'x) \<Rightarrow> 'y option \<Rightarrow> ('e, 'x, unit) step" where
  "step_check f r = step_try f (case r of Some e \<Rightarrow> Inl e | None \<Rightarrow> Inr ())"

definition step_run :: "('e, 'x, 'a) step \<Rightarrow> ('x + 'a) \<times> 'e list" where
  "step_run m = (case m \<lparr>pr_trace = [], pr_deferred = []\<rparr> of (r, p) \<Rightarrow> (r, pr_trace p @ pr_deferred p))"

text \<open>A call of another function: what that deferred happens when it returns.\<close>

definition step_call :: "('y \<Rightarrow> 'x) \<Rightarrow> ('e, 'y, 'a) step \<Rightarrow> ('e, 'x, 'a) step" where
  "step_call f m p =
     (case step_run m of
        (r, tr) \<Rightarrow> (case r of Inl e \<Rightarrow> Inl (f e) | Inr x \<Rightarrow> Inr x, p\<lparr>pr_trace := pr_trace p @ tr\<rparr>))"

lemmas step_defs = step_return_def step_fail_def step_bind_def step_event_def step_defer_def step_try_def step_check_def
  step_then_def

end
