(* ===== verification/Batch_Slots.thy ===== *)
theory Batch_Slots
  imports Server_Main Machines
begin

text \<open>
  The semaphore around \<open>dispatchStream\<close>: the batch calls of one instance, each of which waits for a slot or
  for the end of its context, streams, and gives the slot back on every way out. Any number of calls
  interleave; the stream itself is \<open>dispatchStream\<close> of \<open>Dispatch_Stream\<close>.
\<close>

datatype batch_call =
    AwaitingSlot
  | Streaming
  | CallOver "goerr option"

text \<open>\<open>bs_used\<close> is the number of elements in the channel \<open>batchSlots\<close>, whose capacity is \<open>da_slots\<close>.\<close>

record batch_sys =
  bs_app :: DispatchAppService
  bs_used :: nat
  bs_calls :: "batch_call list"

datatype slot_action =
    Arrives
  | TakesSlot nat
  | GivesUp nat goerr            \<comment> \<open>its context is done first\<close>
  | StreamEnds nat "goerr option"    \<comment> \<open>with the result of the stream; the slot is given back\<close>

definition set_call :: "nat \<Rightarrow> batch_call \<Rightarrow> batch_sys \<Rightarrow> batch_sys" where
  "set_call i c s = s\<lparr>bs_calls := (bs_calls s)[i := c]\<rparr>"

fun slot_act :: "slot_action \<Rightarrow> batch_sys \<Rightarrow> batch_sys option" where
  "slot_act Arrives s = Some (s\<lparr>bs_calls := bs_calls s @ [AwaitingSlot]\<rparr>)"
| "slot_act (TakesSlot i) s =
     (if i < length (bs_calls s) \<and> bs_calls s ! i = AwaitingSlot \<and> bs_used s < da_slots (bs_app s)
      then Some (set_call i Streaming (s\<lparr>bs_used := Suc (bs_used s)\<rparr>)) else None)"
| "slot_act (GivesUp i e) s =
     (if i < length (bs_calls s) \<and> bs_calls s ! i = AwaitingSlot then Some (set_call i (CallOver (Some e)) s) else None)"
| "slot_act (StreamEnds i r) s =
     (if i < length (bs_calls s) \<and> bs_calls s ! i = Streaming
      then Some (set_call i (CallOver r) (s\<lparr>bs_used := bs_used s - 1\<rparr>)) else None)"

fun slot_run :: "slot_action list \<Rightarrow> batch_sys \<Rightarrow> batch_sys option" where
  "slot_run [] s = Some s"
| "slot_run (x # xs) s = (case slot_act x s of None \<Rightarrow> None | Some s' \<Rightarrow> slot_run xs s')"

definition slots_start :: "DispatchAppService \<Rightarrow> batch_sys" where
  "slots_start app = \<lparr>bs_app = app, bs_used = 0, bs_calls = []\<rparr>"

definition streaming :: "batch_sys \<Rightarrow> nat" where
  "streaming s = count_list (bs_calls s) Streaming"

lemma count_list_update:
  assumes "i < length xs"
  shows "count_list (xs[i := y]) z + (if xs ! i = z then 1 else 0) = count_list xs z + (if y = z then 1 else 0)"
proof -
  have "count_list xs z = count_list (take i xs @ xs ! i # drop (Suc i) xs) z" using id_take_nth_drop [OF assms] by simp
  then show ?thesis using upd_conv_take_nth_drop [OF assms, of y] by simp
qed

definition slots_ok :: "batch_sys \<Rightarrow> bool" where
  "slots_ok s \<longleftrightarrow> bs_used s = streaming s \<and> streaming s \<le> da_slots (bs_app s)"

lemma slots_act:
  assumes "slots_ok s" and "slot_act x s = Some s'"
  shows "slots_ok s'"
proof (cases x)
  case (TakesSlot i)
  then show ?thesis using assms count_list_update [of i "bs_calls s" Streaming Streaming]
    by (auto simp: slots_ok_def streaming_def set_call_def split: if_splits)
next
  case (GivesUp i e)
  then show ?thesis using assms count_list_update [of i "bs_calls s" "CallOver (Some e)" Streaming]
    by (auto simp: slots_ok_def streaming_def set_call_def split: if_splits)
next
  case (StreamEnds i r)
  then show ?thesis using assms count_list_update [of i "bs_calls s" "CallOver r" Streaming]
    by (auto simp: slots_ok_def streaming_def set_call_def split: if_splits)
qed (use assms in \<open>auto simp: slots_ok_def streaming_def\<close>)

interpretation slots: machine slot_act slot_run slots_ok
  by unfold_locales (simp, simp, erule (1) slots_act)

text \<open>However the calls come and go, no more of them stream at a time than were configured, and the slots that are taken are
  exactly those of the calls that stream: no way out loses a slot.\<close>

lemma batch_slots_bound:
  assumes "slot_run xs (slots_start app) = Some s"
  shows "streaming s \<le> da_slots (bs_app s)" and "bs_used s = streaming s"
proof -
  have "slots_ok (slots_start app)" by (simp add: slots_ok_def streaming_def slots_start_def)
  from slots.run_keeps [OF this assms] show "streaming s \<le> da_slots (bs_app s)" "bs_used s = streaming s"
    by (simp_all add: slots_ok_def)
qed

text \<open>In an engine that was put together, a call that waits can go on whenever no other streams: it is never locked out.\<close>

lemma waiting_call_proceeds:
  assumes "slot_run xs (slots_start (en_app en)) = Some s" and "assemble env p = (Inr (cfg, en), p')"
    and "bs_app s = en_app en" and "streaming s = 0" and "i < length (bs_calls s)" and "bs_calls s ! i = AwaitingSlot"
  shows "slot_act (TakesSlot i) s \<noteq> None"
proof -
  have "0 < da_slots (en_app en)"
    by (simp add: assembled(5) [OF assms(2)] WithOutbox_def NewDispatchAppService_def Let_def withDefaults_sane)
  with assms(3-6) batch_slots_bound(2) [OF assms(1)] show ?thesis by simp
qed

end
