(* ===== verification/Envinit.thy ===== *)
theory Envinit
  imports Connections Deferred_Steps
begin

text \<open>
  \<open>cmd/envinit/main.go\<close>: the tool that prepares a test environment. What MySQL, RabbitMQ and the
  configuration library answer are arguments; what the tool does to the two servers is the trace of its
  run. The error messages are Chinese; each of the tool's formats is a constructor here.
\<close>

subsection \<open>Names\<close>

text \<open>\<open>^[a-zA-Z0-9_]+$\<close>; in Go's syntax \<open>$\<close> matches at the end of the text only.\<close>

definition ident_char :: "char \<Rightarrow> bool" where
  "ident_char c \<longleftrightarrow>
     (let n = (of_char c :: nat) in 97 \<le> n \<and> n \<le> 122 \<or> 65 \<le> n \<and> n \<le> 90 \<or> 48 \<le> n \<and> n \<le> 57 \<or> n = 95)"

definition safeIdentifier :: "string \<Rightarrow> bool" where
  "safeIdentifier s \<longleftrightarrow> s \<noteq> [] \<and> list_all ident_char s"

text \<open>
  \<open>strings.ToLower\<close> on the bytes of a text, as far as the search for an ASCII marker can tell: apart from
  the capital letters only U+0130 and U+212A have an ASCII character as their lower case.
\<close>

fun lower_bytes :: "nat list \<Rightarrow> nat list" where
  "lower_bytes [] = []"
| "lower_bytes (b # bs) =
     (if b = 196 \<and> take 1 bs = [176] then 105 # lower_bytes (drop 1 bs)
      else if b = 226 \<and> take 2 bs = [132, 170] then 107 # lower_bytes (drop 2 bs)
      else (if 65 \<le> b \<and> b \<le> 90 then b + 32 else b) # lower_bytes bs)"

definition ToLower :: "string \<Rightarrow> string" where
  "ToLower s = map char_of (lower_bytes (map of_char s))"

fun strings_Contains :: "string \<Rightarrow> string \<Rightarrow> bool" where
  "strings_Contains [] m \<longleftrightarrow> m = []"
| "strings_Contains (c # cs) m \<longleftrightarrow> take (length m) (c # cs) = m \<or> strings_Contains cs m"

lemma strings_Contains_iff: "strings_Contains s m \<longleftrightarrow> (\<exists>us vs. s = us @ m @ vs)"
proof (induction s)
  case (Cons c cs)
  show ?case
  proof
    assume "strings_Contains (c # cs) m"
    then show "\<exists>us vs. c # cs = us @ m @ vs"
    proof (cases "take (length m) (c # cs) = m")
      case True
      then have "c # cs = [] @ m @ drop (length m) (c # cs)" by (metis append_Nil append_take_drop_id)
      then show ?thesis by blast
    next
      case False
      with \<open>strings_Contains (c # cs) m\<close> Cons.IH obtain us vs where "cs = us @ m @ vs" by auto
      then have "c # cs = (c # us) @ m @ vs" by simp
      then show ?thesis by blast
    qed
  next
    assume "\<exists>us vs. c # cs = us @ m @ vs"
    then obtain us vs where eq: "c # cs = us @ m @ vs" by blast
    show "strings_Contains (c # cs) m"
    proof (cases us)
      case Nil
      with eq have "take (length m) (c # cs) = m" by simp
      then show ?thesis by simp
    next
      case (Cons u us')
      with eq have "cs = us' @ m @ vs" by simp
      with Cons.IH show ?thesis by auto
    qed
  qed
qed simp

fun any_marker :: "string \<Rightarrow> string list \<Rightarrow> bool" where
  "any_marker name [] = False"
| "any_marker name (m # ms) = (if strings_Contains name m then True else any_marker name ms)"

definition looksLikeTestResource :: "string \<Rightarrow> bool" where
  "looksLikeTestResource name = any_marker (ToLower name) [''bench'', ''test'', ''qa'', ''staging'']"

subsection \<open>Configuration, errors, surroundings\<close>

record initConfig =
  ic_MySQL :: DBConfig
  ic_URL :: string
  ic_Exchange :: string

record init_flags =
  if_config :: string
  if_queue :: string
  if_routingKey :: string
  if_confirmTest :: bool
  if_allowShared :: bool

datatype init_error =
    ParseDSNFailed goerr | NoDatabaseName | UnsafeDatabaseName string
  | OpenFailed goerr | PingFailed goerr | QueryFailed goerr | CreateFailed goerr
  | MigrateFailed goerr
  | DialFailed goerr | ChannelFailed goerr | ExchangeFailed goerr | QueueFailed goerr
  | BindFailed goerr | InspectFailed goerr

datatype fatal =
    NotConfirmed | FlagsMissing | ConfigUnreadable goerr | ConfigIncomplete | NotATestExchange string
  | DatabaseFatal init_error | TablesFatal init_error | RabbitFatal init_error

text \<open>
  What happens on the servers, in order: statements, migrations and declarations; and connections that are
  opened and closed.
\<close>

datatype init_event =
    AdminOpened | AdminClosed
  | Executed string                    \<comment> \<open>a statement that is not a query\<close>
  | GormOpened | GormClosed
  | AutoMigrated "string list"
  | AmqpDialled | AmqpClosed | ChannelOpened | ChannelClosed
  | ExchangeDeclared string string bool     \<comment> \<open>name, kind, durable\<close>
  | QueueDeclared string bool
  | QueueBound string string string    \<comment> \<open>queue, key, exchange\<close>

text \<open>
  The surroundings: \<open>ie_parse\<close> is the database name in a DSN; \<open>ie_schemas\<close> the databases the server has,
  whose names it compares by the sort key \<open>ie_coll\<close>;
  the others are the errors of the calls, if any. \<open>ie_declare\<close> is the queue's name as the broker knows
  it, \<open>ie_inspect\<close> its messages and consumers.
\<close>

record init_env =
  ie_readIn :: "string \<Rightarrow> goerr option"
  ie_unmarshal :: "string \<Rightarrow> goerr + initConfig"
  ie_parse :: "string \<Rightarrow> goerr + string"
  ie_open :: "goerr option"
  ie_ping :: "goerr option"
  ie_schemas :: "goerr + string list"
  ie_coll :: "string \<Rightarrow> string"
  ie_exec :: "goerr option"
  ie_gorm :: gorm_env
  ie_migrate :: "goerr option"
  ie_dial :: "goerr option"
  ie_channel :: "goerr option"
  ie_exchange :: "goerr option"
  ie_declare :: "string \<Rightarrow> goerr + string"
  ie_bind :: "goerr option"
  ie_inspect :: "goerr + int \<times> int"

subsection \<open>The steps\<close>

definition init_loadConfig :: "init_env \<Rightarrow> string \<Rightarrow> goerr + initConfig" where
  "init_loadConfig env path = (case ie_readIn env path of Some err \<Rightarrow> Inl err | None \<Rightarrow> ie_unmarshal env path)"

definition create_statement :: "string \<Rightarrow> string" where
  "create_statement name =
     ''CREATE DATABASE `'' @ name @ ''` CHARACTER SET utf8mb4 COLLATE utf8mb4_unicode_ci''"

text \<open>The result is the name and whether the database was created; a failed statement counts as executed, as the
  server may have seen it.\<close>

definition ensureDatabase :: "init_env \<Rightarrow> string \<Rightarrow> (init_event, init_error, string \<times> bool) step" where
  "ensureDatabase env dsn =
     step_bind (step_try ParseDSNFailed (ie_parse env dsn)) (\<lambda>databaseName.
     if databaseName = '''' then step_fail NoDatabaseName
     else if \<not> safeIdentifier databaseName then step_fail (UnsafeDatabaseName databaseName)
     else
       step_then (step_check OpenFailed (ie_open env))
       (step_then (step_event AdminOpened)
       (step_then (step_defer AdminClosed)
       (step_then (step_check PingFailed (ie_ping env))
       (step_bind (step_try QueryFailed (ie_schemas env)) (\<lambda>schemas.
       if 0 < length (filter (\<lambda>s. ie_coll env s = ie_coll env databaseName) schemas) then step_return (databaseName, False)
       else step_then (step_event (Executed (create_statement databaseName)))
         (step_then (step_check CreateFailed (ie_exec env))
           (step_return (databaseName, True)))))))))"

definition migrateTables :: "init_env \<Rightarrow> initConfig \<Rightarrow> (init_event, init_error, unit) step" where
  "migrateTables env cfg =
     step_bind (step_try MigrateFailed (DB_Open (ie_gorm env) (ic_MySQL cfg))) (\<lambda>db.
     step_then (step_event GormOpened)
     (step_then (step_defer GormClosed)
     (step_then (step_event (AutoMigrated [''ut_case'', ''execution_record'', ''dispatch_outbox'']))
       (step_check MigrateFailed (ie_migrate env)))))"

definition initializeRabbitMQ ::
  "init_env \<Rightarrow> initConfig \<Rightarrow> string \<Rightarrow> string \<Rightarrow> (init_event, init_error, int \<times> int) step" where
  "initializeRabbitMQ env cfg queue routingKey =
     step_then (step_check DialFailed (ie_dial env))
     (step_then (step_event AmqpDialled)
     (step_then (step_defer AmqpClosed)
     (step_then (step_check ChannelFailed (ie_channel env))
     (step_then (step_event ChannelOpened)
     (step_then (step_defer ChannelClosed)
     (step_then (step_event (ExchangeDeclared (ic_Exchange cfg) ''direct'' True))
     (step_then (step_check ExchangeFailed (ie_exchange env))
     (step_then (step_event (QueueDeclared queue True))
     (step_bind (step_try QueueFailed (ie_declare env queue)) (\<lambda>declared.
     step_then (step_event (QueueBound declared routingKey (ic_Exchange cfg)))
     (step_then (step_check BindFailed (ie_bind env))
       (step_try InspectFailed (ie_inspect env)))))))))))))"

text \<open>\<open>fatalf\<close> ends the process at once; a result is the counts that are printed at the end.\<close>

definition envinit_main :: "init_env \<Rightarrow> init_flags \<Rightarrow> (init_event, fatal, string \<times> bool \<times> int \<times> int) step" where
  "envinit_main env fl =
     (if \<not> if_confirmTest fl then step_fail NotConfirmed
      else if if_config fl = '''' \<or> if_queue fl = '''' \<or> if_routingKey fl = '''' then step_fail FlagsMissing
      else
        step_bind (step_try ConfigUnreadable (init_loadConfig env (if_config fl))) (\<lambda>cfg.
        if my_DSN (ic_MySQL cfg) = '''' \<or> ic_URL cfg = '''' \<or> ic_Exchange cfg = '''' then step_fail ConfigIncomplete
        else if \<not> if_allowShared fl \<and> \<not> looksLikeTestResource (ic_Exchange cfg)
             then step_fail (NotATestExchange (ic_Exchange cfg))
        else
          step_bind (step_call DatabaseFatal (ensureDatabase env (my_DSN (ic_MySQL cfg)))) (\<lambda>(databaseName, created).
          step_then (step_call TablesFatal (migrateTables env cfg))
          (step_bind (step_call RabbitFatal (initializeRabbitMQ env cfg (if_queue fl) (if_routingKey fl)))
            (\<lambda>(messages, consumers). step_return (databaseName, created, messages, consumers))))))"

definition envinit_exit :: "init_env \<Rightarrow> init_flags \<Rightarrow> int" where
  "envinit_exit env fl = (case fst (step_run (envinit_main env fl)) of Inl _ \<Rightarrow> 1 | Inr _ \<Rightarrow> 0)"

subsection \<open>The tool only adds\<close>

text \<open>The traces of the three parts.\<close>

lemma ensureDatabase_trace:
  assumes "step_run (ensureDatabase env dsn) = (r, tr)"
  obtains "tr = []" "\<exists>e. r = Inl e"
  | name where "tr = [AdminOpened, AdminClosed]" "ie_parse env dsn = Inr name"
      "\<forall>res. r = Inr res \<longrightarrow> res = (name, False) \<and> (\<exists>ns. ie_schemas env = Inr ns \<and> (\<exists>s \<in> set ns. ie_coll env s = ie_coll env name))"
  | name ns where "tr = [AdminOpened, Executed (create_statement name), AdminClosed]" "ie_parse env dsn = Inr name"
      "safeIdentifier name" "ie_schemas env = Inr ns" "name \<notin> set ns"
      "\<forall>res. r = Inr res \<longrightarrow> res = (name, True) \<and> ie_exec env = None"
  using assms
  by (auto simp: step_run_def ensureDatabase_def step_defs filter_empty_conv split: sum.splits option.splits if_splits)

lemma migrateTables_trace:
  assumes "step_run (migrateTables env cfg) = (r, tr)"
  shows "tr = [] \<and> (\<exists>e. r = Inl e) \<or>
    tr = [GormOpened, AutoMigrated [''ut_case'', ''execution_record'', ''dispatch_outbox''], GormClosed]"
  using assms
  by (auto simp: step_run_def migrateTables_def step_defs split: sum.splits option.splits)


lemma initializeRabbitMQ_trace:
  assumes "step_run (initializeRabbitMQ env cfg queue routingKey) = (r, tr)"
  obtains "tr = []" "\<exists>e. r = Inl e"
  | "tr = [AmqpDialled, AmqpClosed]" "\<exists>e. r = Inl e"
  | us where "tr = [AmqpDialled, ChannelOpened, ExchangeDeclared (ic_Exchange cfg) ''direct'' True] @ us @ [ChannelClosed, AmqpClosed]"
      "us = [] \<or> us = [QueueDeclared queue True] \<or>
       (\<exists>q. ie_declare env queue = Inr q \<and> us = [QueueDeclared queue True, QueueBound q routingKey (ic_Exchange cfg)])"
      "\<forall>res. r = Inr res \<longrightarrow> ie_bind env = None \<and> (\<exists>q. us = [QueueDeclared queue True, QueueBound q routingKey (ic_Exchange cfg)])"
  using assms
  by (auto simp: step_run_def initializeRabbitMQ_def step_defs split: sum.splits option.splits)

text \<open>How a run goes: it stops at the guards, or in one of the three parts, or comes through.\<close>

lemma envinit_cases:
  assumes "step_run (envinit_main env fl) = (r, tr)"
  obtains "tr = []" "\<exists>e. r = Inl e"
  | cfg r1 tr1 tr2 tr3 where "init_loadConfig env (if_config fl) = Inr cfg" "tr = tr1 @ tr2 @ tr3"
      "if_confirmTest fl" "if_allowShared fl \<or> looksLikeTestResource (ic_Exchange cfg)"
      "step_run (ensureDatabase env (my_DSN (ic_MySQL cfg))) = (r1, tr1)"
      "tr2 = [] \<or> tr2 = [GormOpened, AutoMigrated [''ut_case'', ''execution_record'', ''dispatch_outbox''], GormClosed]"
      "tr3 = [] \<or> (\<exists>r3. step_run (initializeRabbitMQ env cfg (if_queue fl) (if_routingKey fl)) = (r3, tr3))"
      "\<forall>res. r = Inr res \<longrightarrow> (\<exists>name created counts. r1 = Inr (name, created) \<and> res = (name, created, counts) \<and>
         step_run (migrateTables env cfg) = (Inr (), tr2) \<and>
         step_run (initializeRabbitMQ env cfg (if_queue fl) (if_routingKey fl)) = (Inr counts, tr3))"
proof (cases "if_confirmTest fl \<and> if_config fl \<noteq> '''' \<and> if_queue fl \<noteq> '''' \<and> if_routingKey fl \<noteq> ''''")
  case False
  with assms show thesis
    by (intro that(1)) (auto simp: step_run_def envinit_main_def step_fail_def split: if_splits)
next
  case flags: True
  show thesis
  proof (cases "init_loadConfig env (if_config fl)")
    case (Inl e)
    with assms flags show thesis by (intro that(1)) (auto simp: step_run_def envinit_main_def step_defs)
  next
    case load: (Inr cfg)
    let ?bad = "my_DSN (ic_MySQL cfg) = '''' \<or> ic_URL cfg = '''' \<or> ic_Exchange cfg = '''' \<or>
      \<not> if_allowShared fl \<and> \<not> looksLikeTestResource (ic_Exchange cfg)"
    obtain r1 tr1 where 1: "step_run (ensureDatabase env (my_DSN (ic_MySQL cfg))) = (r1, tr1)" by fastforce
    obtain r2 tr2 where 2: "step_run (migrateTables env cfg) = (r2, tr2)" by fastforce
    obtain r3 tr3 where 3: "step_run (initializeRabbitMQ env cfg (if_queue fl) (if_routingKey fl)) = (r3, tr3)" by fastforce
    show thesis
    proof (cases ?bad)
      case True
      with assms flags load show thesis
        by (intro that(1)) (auto simp: step_run_def envinit_main_def step_defs split: if_splits)
    next
      case good: False
      then have run: "step_run (envinit_main env fl) =
          (case r1 of
             Inl e \<Rightarrow> (Inl (DatabaseFatal e), tr1)
           | Inr (name, created) \<Rightarrow>
               (case r2 of
                  Inl e \<Rightarrow> (Inl (TablesFatal e), tr1 @ tr2)
                | Inr _ \<Rightarrow>
                    (case r3 of
                       Inl e \<Rightarrow> (Inl (RabbitFatal e), tr1 @ tr2 @ tr3)
                     | Inr counts \<Rightarrow> (Inr (name, created, counts), tr1 @ tr2 @ tr3))))"
        using flags load unfolding step_run_def [of "envinit_main env fl"]
        by (simp add: envinit_main_def step_call_def step_defs 1 2 3 split: sum.split prod.split)
      have tr2: "tr2 = [] \<or> tr2 = [GormOpened, AutoMigrated [''ut_case'', ''execution_record'', ''dispatch_outbox''], GormClosed]"
        using migrateTables_trace [OF 2] by auto
      from assms [unfolded run] consider
          "tr = tr1 @ [] @ []" "\<exists>e. r = Inl e" | "tr = tr1 @ tr2 @ []" "\<exists>e. r = Inl e" | "tr = tr1 @ tr2 @ tr3" "\<exists>e. r = Inl e"
        | name created counts where "r1 = Inr (name, created)" "r2 = Inr ()" "r3 = Inr counts" "r = Inr (name, created, counts)"
            "tr = tr1 @ tr2 @ tr3"
        by (auto split: sum.splits prod.splits)
      then show thesis
      proof cases
        case a: 1
        show thesis by (rule that(2) [OF load a(1) _ _ 1]) (use flags good a(2) in auto)
      next
        case b: 2
        show thesis by (rule that(2) [OF load b(1) _ _ 1]) (use flags good tr2 b(2) in auto)
      next
        case c: 3
        show thesis by (rule that(2) [OF load c(1) _ _ 1]) (use flags good tr2 3 c(2) in auto)
      next
        case d: 4
        show thesis by (rule that(2) [OF load d(5) _ _ 1]) (use flags good tr2 2 3 d in auto)
      qed
    qed
  qed
qed

text \<open>What was opened is closed.\<close>

definition closes_all :: "init_event list \<Rightarrow> bool" where
  "closes_all tr \<longleftrightarrow>
     count_list tr AdminOpened = count_list tr AdminClosed \<and> count_list tr GormOpened = count_list tr GormClosed \<and>
     count_list tr AmqpDialled = count_list tr AmqpClosed \<and> count_list tr ChannelOpened = count_list tr ChannelClosed"

lemma closes_all_append: "closes_all a \<Longrightarrow> closes_all b \<Longrightarrow> closes_all (a @ b)"
  by (simp add: closes_all_def)

lemma ensureDatabase_only:
  assumes "step_run (ensureDatabase env dsn) = (r, tr)"
  shows "closes_all tr \<and> set tr \<subseteq> {AdminOpened, AdminClosed} \<union>
    {Executed (create_statement name) |name. safeIdentifier name \<and> (\<exists>ns. ie_schemas env = Inr ns \<and> name \<notin> set ns)}"
  by (cases rule: ensureDatabase_trace [OF assms]) (auto simp: closes_all_def)

lemma initializeRabbitMQ_only:
  assumes "step_run (initializeRabbitMQ env cfg queue routingKey) = (r, tr)"
  shows "closes_all tr" and "Executed stmt \<notin> set tr"
  by (cases rule: initializeRabbitMQ_trace [OF assms]; auto simp: closes_all_def)+

lemma backquote_not_ident: "\<not> ident_char (CHR ''`'')"
  by (simp add: ident_char_def)

text \<open>C39: The tool that prepares an environment only adds to it: it does nothing at all unless the flag that
  confirms a test environment is given and the exchange's name looks like a test's or sharing was allowed; the
  only statement it executes itself creates a database that is not there yet, under a name of letters, digits
  and underscores that stands in a statement with exactly two backquotes; every connection
  it opened is closed; and when it reports success the tables were migrated and the queue was bound to the
  configured exchange with the routing key of the command line.\<close>

theorem envinit_only_adds:
  assumes "step_run (envinit_main env fl) = (r, tr)"
  shows "(tr \<noteq> [] \<longrightarrow> if_confirmTest fl \<and> (\<exists>cfg. init_loadConfig env (if_config fl) = Inr cfg \<and>
       (if_allowShared fl \<or> looksLikeTestResource (ic_Exchange cfg)))) \<and>
    (\<forall>stmt. Executed stmt \<in> set tr \<longrightarrow> (\<exists>name ns. stmt = create_statement name \<and>
       ie_schemas env = Inr ns \<and> name \<notin> set ns \<and> list_all ident_char name \<and> count_list stmt (CHR ''`'') = 2)) \<and>
    closes_all tr \<and>
    (\<forall>res. r = Inr res \<longrightarrow> AutoMigrated [''ut_case'', ''execution_record'', ''dispatch_outbox''] \<in> set tr \<and>
       (\<exists>cfg q. init_loadConfig env (if_config fl) = Inr cfg \<and> QueueBound q (if_routingKey fl) (ic_Exchange cfg) \<in> set tr))"
proof (cases rule: envinit_cases [OF assms])
  case 1
  then show ?thesis by (auto simp: closes_all_def)
next
  case (2 cfg r1 tr1 tr2 tr3)
  have part3: "closes_all tr3" "\<And>stmt. Executed stmt \<notin> set tr3"
    using 2(7) initializeRabbitMQ_only by (auto simp: closes_all_def)
  have part2: "closes_all tr2" "\<And>stmt. Executed stmt \<notin> set tr2" using 2(6) by (auto simp: closes_all_def)
  note only1 = ensureDatabase_only [OF 2(5)]
  then have part1: "closes_all tr1" by blast
  have part1': "\<exists>name ns. stmt = create_statement name \<and> safeIdentifier name \<and> ie_schemas env = Inr ns \<and> name \<notin> set ns"
    if "Executed stmt \<in> set tr1" for stmt
    using subsetD [OF conjunct2 [OF only1] that] by auto
  have two: "count_list (create_statement name) (CHR ''`'') = 2" if "safeIdentifier name" for name
  proof -
    have "CHR ''`'' \<notin> set name" using that backquote_not_ident by (auto simp: safeIdentifier_def list_all_iff)
    then show ?thesis by (simp add: create_statement_def count_list_0_iff)
  qed
  have stmts: "\<exists>name ns. stmt = create_statement name \<and> ie_schemas env = Inr ns \<and> name \<notin> set ns \<and>
      list_all ident_char name \<and> count_list stmt (CHR ''`'') = 2" if "Executed stmt \<in> set tr" for stmt
  proof -
    from that 2(2) part2(2) part3(2) have "Executed stmt \<in> set tr1" by auto
    from part1' [OF this] two show ?thesis by (auto simp: safeIdentifier_def)
  qed
  have success: "AutoMigrated [''ut_case'', ''execution_record'', ''dispatch_outbox''] \<in> set tr \<and>
      (\<exists>q. QueueBound q (if_routingKey fl) (ic_Exchange cfg) \<in> set tr)" if "r = Inr res" for res
  proof -
    from 2(8) that obtain counts where m: "step_run (migrateTables env cfg) = (Inr (), tr2)"
      and q: "step_run (initializeRabbitMQ env cfg (if_queue fl) (if_routingKey fl)) = (Inr counts, tr3)" by auto
    from migrateTables_trace [OF m] have "AutoMigrated [''ut_case'', ''execution_record'', ''dispatch_outbox''] \<in> set tr2" by auto
    moreover have "\<exists>q. QueueBound q (if_routingKey fl) (ic_Exchange cfg) \<in> set tr3"
      by (cases rule: initializeRabbitMQ_trace [OF q]) auto
    ultimately show ?thesis using 2(2) by auto
  qed
  show ?thesis using 2(1,3,4) stmts success closes_all_append part1 part2(1) part3(1) 2(2) by auto
qed

text \<open>A fresh server, and the configuration of the repository with an exchange for tests.\<close>

definition demo_init_env :: init_env where
  "demo_init_env =
     \<lparr>ie_readIn = (\<lambda>_. None), ie_unmarshal = (\<lambda>_. Inr \<lparr>ic_MySQL = \<lparr>my_DSN = ''dsn'', my_MaxOpenConns = 50, my_MaxIdleConns = 10, my_ConnMaxLifetimeSec = 3600\<rparr>,
        ic_URL = ''amqp'', ic_Exchange = ''ut.exec.Bench''\<rparr>), ie_parse = (\<lambda>_. Inr ''case_execution''), ie_open = None,
      ie_ping = None, ie_schemas = Inr [''mysql''], ie_coll = (\<lambda>s. s), ie_exec = None, ie_gorm = \<lparr>ge_open = None, ge_db = None, ge_close = None\<rparr>,
      ie_migrate = None, ie_dial = None, ie_channel = None, ie_exchange = None, ie_declare = Inr, ie_bind = None,
      ie_inspect = Inr (0, 1)\<rparr>"

definition demo_init_flags :: init_flags where
  "demo_init_flags =
     \<lparr>if_config = ''config.yaml'', if_queue = ''q'', if_routingKey = ''26B'', if_confirmTest = True, if_allowShared = False\<rparr>"

lemma demo_init_run:
  "step_run (envinit_main demo_init_env demo_init_flags) =
     (Inr (''case_execution'', True, 0, 1),
      [AdminOpened, Executed (create_statement ''case_execution''), AdminClosed, GormOpened,
       AutoMigrated [''ut_case'', ''execution_record'', ''dispatch_outbox''], GormClosed, AmqpDialled, ChannelOpened,
       ExchangeDeclared ''ut.exec.Bench'' ''direct'' True, QueueDeclared ''q'' True,
       QueueBound ''q'' ''26B'' ''ut.exec.Bench'', ChannelClosed, AmqpClosed])"
  by code_simp

lemma shared_exchange_refused: "\<not> looksLikeTestResource ''ut.exec''"
  by code_simp

theorem envinit_only_adds_witness:
  "\<exists>ns. ie_schemas demo_init_env = Inr ns \<and> ''case_execution'' \<notin> set ns \<and>
     count_list (create_statement ''case_execution'') (CHR ''`'') = 2"
proof -
  have "create_statement n = create_statement m \<Longrightarrow> n = m" for n m by (simp add: create_statement_def)
  with envinit_only_adds [OF demo_init_run] show ?thesis by auto
qed

end
