(* ===== verification/Float64.thy ===== *)
theory Float64
  imports Prelude "HOL-Library.Log_Nat"
begin

text \<open>
  Go's \<open>float64\<close>, as far as the benchmark client computes with it: a value is the rational number it stands
  for, and every operation rounds its exact result to 53 bits, to the nearest value, ties to even. All figures of the
  report lie between \<open>10 ^ -9\<close> and \<open>2 ^ 94\<close> or are 0, so that neither overflow nor denormal values occur.
\<close>

subsection \<open>Rounding to an integer, ties to even\<close>

definition rne :: "rat \<Rightarrow> int" where
  "rne x = (let q = \<lfloor>x\<rfloor>; r = x - of_int q in if r < 1 / 2 \<or> r = 1 / 2 \<and> even q then q else q + 1)"

lemma rne_near: "\<bar>of_int (rne x) - x\<bar> \<le> 1 / 2"
proof -
  have "of_int \<lfloor>x\<rfloor> \<le> x" "x < of_int \<lfloor>x\<rfloor> + 1" by linarith+
  then show ?thesis by (auto simp: rne_def Let_def)
qed

lemma rne_of_int [simp]: "rne (of_int k) = k"
  by (simp add: rne_def)

lemma rne_floor: "\<lfloor>x\<rfloor> \<le> rne x" "rne x \<le> \<lfloor>x\<rfloor> + 1"
  by (simp_all add: rne_def Let_def)

lemma rne_mono:
  assumes "x \<le> y"
  shows "rne x \<le> rne y"
proof (cases "\<lfloor>x\<rfloor> = \<lfloor>y\<rfloor>")
  case True
  with assms show ?thesis by (auto simp: rne_def Let_def)
next
  case False
  then have "\<lfloor>x\<rfloor> + 1 \<le> \<lfloor>y\<rfloor>" using floor_mono [OF assms] by linarith
  with rne_floor(2) [of x] rne_floor(1) [of y] show ?thesis by linarith
qed

subsection \<open>Rounding to 53 bits\<close>

text \<open>The exponent of a positive number, so that the significand has 53 bits.\<close>

definition two_to :: "int \<Rightarrow> rat" where
  "two_to e = (if 0 \<le> e then 2 ^ nat e else 1 / 2 ^ nat (- e))"

definition f64_exp :: "rat \<Rightarrow> int" where
  "f64_exp x =
     (let (n, d) = quotient_of x;
          e = int (floorlog 2 (nat n)) - int (floorlog 2 (nat d)) - 53
      in if x < two_to (e + 53) then e else e + 1)"

definition f64_pos :: "rat \<Rightarrow> rat" where
  "f64_pos x = of_int (rne (x / two_to (f64_exp x))) * two_to (f64_exp x)"

definition f64 :: "rat \<Rightarrow> rat" where
  "f64 x = (if x = 0 then 0 else if x < 0 then - f64_pos (- x) else f64_pos x)"

lemma two_to_pos [simp]: "0 < two_to e"
  by (simp add: two_to_def)

lemma two_to_nonzero [simp]: "two_to e \<noteq> 0"
  using two_to_pos [of e] by linarith

lemma two_to_nat [simp]: "two_to (int n) = 2 ^ n"
  by (simp add: two_to_def)

lemma two_to_add: "two_to (a + b) = two_to a * two_to b"
proof -
  have "two_to e = power_int 2 e" for e
    by (simp add: two_to_def power_int_def inverse_eq_divide power_one_over)
  then show ?thesis by (simp add: power_int_add)
qed

lemma two_to_mono: "a \<le> b \<Longrightarrow> two_to a \<le> two_to b"
proof -
  assume "a \<le> b"
  then obtain n where "b = a + int n" by (metis zle_iff_zadd)
  then have "two_to b = two_to a * 2 ^ n" by (simp add: two_to_add)
  moreover have "two_to a * 1 \<le> two_to a * 2 ^ n" by (rule mult_left_mono) (simp_all add: less_imp_le)
  ultimately show ?thesis by simp
qed

lemma f64_exp_bounds:
  assumes "0 < x"
  shows "2 ^ 52 * two_to (f64_exp x) \<le> x" and "x < 2 ^ 53 * two_to (f64_exp x)"
proof -
  obtain n d where q: "quotient_of x = (n, d)" by (cases "quotient_of x")
  then have x: "x = of_int n / of_int d" and d: "0 < d" by (simp_all add: quotient_of_div quotient_of_denom_pos)
  then have n: "0 < n" using assms by (simp add: zero_less_divide_iff)
  define a b where "a = int (floorlog 2 (nat n))" and "b = int (floorlog 2 (nat d))"
  have int_bounds: "two_to (int (floorlog 2 (nat k)) - 1) \<le> of_int k" "of_int k < two_to (int (floorlog 2 (nat k)))" if "0 < k" for k
  proof -
    have f: "2 ^ (floorlog 2 (nat k) - 1) \<le> nat k" "nat k < 2 ^ floorlog 2 (nat k)"
      using floorlog_bounds [of "nat k" 2] that by auto
    have "0 < floorlog 2 (nat k)" using that by (simp add: floorlog_def)
    then have s: "int (floorlog 2 (nat k)) - 1 = int (floorlog 2 (nat k) - 1)" by simp
    from f have "(of_nat (2 ^ (floorlog 2 (nat k) - 1)) :: rat) \<le> of_nat (nat k)" "(of_nat (nat k) :: rat) < of_nat (2 ^ floorlog 2 (nat k))"
      by (simp_all only: of_nat_le_iff of_nat_less_iff)
    then show "two_to (int (floorlog 2 (nat k)) - 1) \<le> of_int k" "of_int k < two_to (int (floorlog 2 (nat k)))"
      using that unfolding s two_to_nat by simp_all
  qed
  have nb: "two_to (a - 1) \<le> of_int n" "of_int n < two_to a" using int_bounds [OF n] by (simp_all add: a_def)
  have db: "two_to (b - 1) \<le> of_int d" "of_int d < two_to b" using int_bounds [OF d] by (simp_all add: b_def)
  have dq: "0 < (of_int d :: rat)" using d by simp
  have "two_to (a - b - 1) * of_int d \<le> two_to (a - b - 1) * two_to b"
    using db(2) by (intro mult_left_mono) (simp_all add: less_imp_le)
  also have "\<dots> = two_to (a - 1)" by (simp add: two_to_add [symmetric])
  finally have lo: "two_to (a - b - 1) \<le> x" using nb(1) dq by (simp add: x pos_le_divide_eq)
  have "of_int n < two_to a" by (rule nb)
  also have "two_to a = two_to (a - b + 1) * two_to (b - 1)" by (simp add: two_to_add [symmetric])
  also have "\<dots> \<le> two_to (a - b + 1) * of_int d" using db(1) by (intro mult_left_mono) (simp_all add: less_imp_le)
  finally have hi: "x < two_to (a - b + 1)" using dq by (simp add: x pos_divide_less_eq)
  have e: "f64_exp x = (if x < two_to (a - b) then a - b - 53 else a - b - 52)"
    by (simp add: f64_exp_def q a_def b_def Let_def)
  have p: "(2 ^ 52 :: rat) = two_to 52" "(2 ^ 53 :: rat) = two_to 53" by (simp_all add: two_to_def)
  show "2 ^ 52 * two_to (f64_exp x) \<le> x" "x < 2 ^ 53 * two_to (f64_exp x)"
    unfolding p two_to_add [symmetric] e using lo hi by (auto simp: algebra_simps)
qed

lemma f64_exp_mono:
  assumes "0 < x" and "x \<le> y"
  shows "f64_exp x \<le> f64_exp y"
proof (rule ccontr)
  assume "\<not> f64_exp x \<le> f64_exp y"
  then have "two_to (f64_exp y + 1) \<le> two_to (f64_exp x)" by (intro two_to_mono) simp
  then have "2 ^ 53 * two_to (f64_exp y) \<le> 2 ^ 52 * two_to (f64_exp x)" by (simp add: two_to_add two_to_def [of 1])
  with f64_exp_bounds(1) [OF assms(1)] f64_exp_bounds(2) [of y] assms show False by linarith
qed

lemma f64_pos_bounds:
  assumes "0 < x"
  shows "2 ^ 52 * two_to (f64_exp x) \<le> f64_pos x" and "f64_pos x \<le> 2 ^ 53 * two_to (f64_exp x)"
proof -
  let ?t = "two_to (f64_exp x)"
  have "2 ^ 52 \<le> x / ?t" "x / ?t \<le> 2 ^ 53"
    using f64_exp_bounds [OF assms] by (simp_all add: pos_le_divide_eq pos_divide_le_eq)
  then have "rne (of_int (2 ^ 52)) \<le> rne (x / ?t)" "rne (x / ?t) \<le> rne (of_int (2 ^ 53))"
    by (auto intro!: rne_mono)
  then have "(2 ^ 52 :: int) \<le> rne (x / ?t)" "rne (x / ?t) \<le> 2 ^ 53" unfolding rne_of_int by simp_all
  then have "(of_int (2 ^ 52) :: rat) \<le> of_int (rne (x / ?t))" "(of_int (rne (x / ?t)) :: rat) \<le> of_int (2 ^ 53)"
    by (simp_all only: of_int_le_iff)
  then show "2 ^ 52 * ?t \<le> f64_pos x" "f64_pos x \<le> 2 ^ 53 * ?t"
    unfolding f64_pos_def by (auto intro!: mult_right_mono simp: less_imp_le)
qed

lemma f64_pos_mono:
  assumes "0 < x" and "x \<le> y"
  shows "f64_pos x \<le> f64_pos y"
proof (cases "f64_exp x = f64_exp y")
  case True
  have "rne (x / two_to (f64_exp y)) \<le> rne (y / two_to (f64_exp y))"
    using assms(2) by (intro rne_mono divide_right_mono) (simp_all add: less_imp_le)
  with True show ?thesis by (simp add: f64_pos_def mult_right_mono less_imp_le)
next
  case False
  then have "f64_exp x + 1 \<le> f64_exp y" using f64_exp_mono [OF assms] by simp
  then have "two_to (f64_exp x + 1) \<le> two_to (f64_exp y)" by (rule two_to_mono)
  then have "2 ^ 53 * two_to (f64_exp x) \<le> 2 ^ 52 * two_to (f64_exp y)" by (simp add: two_to_add two_to_def [of 1])
  with f64_pos_bounds(2) [OF assms(1)] f64_pos_bounds(1) [of y] assms show ?thesis by linarith
qed

lemma f64_pos_positive:
  assumes "0 < x"
  shows "0 < f64_pos x"
proof -
  have "0 < 2 ^ 52 * two_to (f64_exp x)" by simp
  also have "\<dots> \<le> f64_pos x" by (rule f64_pos_bounds(1) [OF assms])
  finally show ?thesis .
qed

text \<open>Rounding keeps the order, is exact on integers of 53 bits, and is near.\<close>

lemma f64_mono:
  assumes "x \<le> y"
  shows "f64 x \<le> f64 y"
proof -
  consider "0 < x" | "x \<le> 0" "0 \<le> y" | "y < 0" by linarith
  then show ?thesis
  proof cases
    case 1
    with assms show ?thesis using f64_pos_mono by (simp add: f64_def)
  next
    case 2
    then show ?thesis using f64_pos_positive [of "- x"] f64_pos_positive [of y] by (auto simp: f64_def)
  next
    case 3
    with assms show ?thesis using f64_pos_mono [of "- y" "- x"] by (simp add: f64_def)
  qed
qed

lemma f64_near: "\<bar>f64 x - x\<bar> \<le> \<bar>x\<bar> / 2 ^ 53"
proof -
  have pos: "\<bar>f64_pos y - y\<bar> \<le> y / 2 ^ 53" if "0 < y" for y
  proof -
    let ?t = "two_to (f64_exp y)"
    have "f64_pos y - y = (of_int (rne (y / ?t)) - y / ?t) * ?t" by (simp add: f64_pos_def left_diff_distrib)
    then have "\<bar>f64_pos y - y\<bar> = \<bar>of_int (rne (y / ?t)) - y / ?t\<bar> * ?t"
      using two_to_pos [of "f64_exp y"] by (simp add: abs_mult less_imp_le)
    also have "\<dots> \<le> 1 / 2 * ?t" by (rule mult_right_mono [OF rne_near]) (simp add: less_imp_le)
    also have "\<dots> \<le> y / 2 ^ 53" using f64_exp_bounds(1) [OF that] by simp
    finally show ?thesis .
  qed
  consider "x = 0" | "0 < x" | "x < 0" by linarith
  then show ?thesis
  proof cases
    case 3
    have "\<bar>- f64_pos (- x) - x\<bar> = \<bar>f64_pos (- x) - - x\<bar>" by linarith
    with 3 pos [of "- x"] show ?thesis by (simp add: f64_def)
  qed (use pos [of x] in \<open>simp_all add: f64_def\<close>)
qed

lemma f64_of_int:
  assumes "\<bar>k\<bar> \<le> 2 ^ 53"
  shows "f64 (of_int k) = of_int k"
proof -
  have pos: "f64_pos (of_int j) = of_int j" if j: "0 < j" "j \<le> 2 ^ 53" for j
  proof -
    let ?e = "f64_exp (of_int j)"
    have "\<exists>i. (of_int j :: rat) / two_to ?e = of_int i"
    proof (cases "0 < ?e")
      case False
      then have "(of_int j :: rat) / two_to ?e = of_int (j * 2 ^ nat (- ?e))" by (simp add: two_to_def)
      then show ?thesis by blast
    next
      case True
      then have "two_to 1 \<le> two_to ?e" by (intro two_to_mono) simp
      then have t: "2 \<le> two_to ?e" by (simp add: two_to_def)
      have b: "2 ^ 52 * two_to ?e \<le> of_int j" using j by (intro f64_exp_bounds) simp
      have "(of_int j :: rat) \<le> of_int (2 ^ 53)" using j(2) by (simp only: of_int_le_iff)
      with t b have "two_to ?e = 2" "(of_int j :: rat) = 2 ^ 53" by simp_all
      then show ?thesis by (intro exI [of _ "2 ^ 52"]) simp
    qed
    then obtain i where "(of_int j :: rat) / two_to ?e = of_int i" by blast
    then show ?thesis by (simp add: f64_pos_def) (metis nonzero_eq_divide_eq two_to_nonzero)
  qed
  show ?thesis using pos [of k] pos [of "- k"] assms by (auto simp: f64_def)
qed

end
