(* ===== verification/Bench.thy ===== *)
theory Bench
  imports Grpc_Handler Stream_Refinement Float64 "HOL-Library.Signed_Division"
begin

text \<open>
  \<open>cmd/bench/main.go\<close>: the client that dispatches all cases of a version, measures, and decides whether the run
  passed. What the network answers and the clock are arguments. The figures of the report are the \<open>float64\<close>
  values the client computes, and what it prints is a list of lines, each a constructor for its fixed text with
  the formatted values in it. The flag for the time limit has its effect in the error the stream ends with; the
  layout of the JSON file and the text of a time are those of Go's library.
\<close>

subsection \<open>The report\<close>

record chunkFailure =
  cf_Index :: int32
  cf_Message :: string

datatype bench_status = PASS | FAIL

record benchmarkReport =
  br_Status :: bench_status
  br_StartedAt :: gotime
  br_FinishedAt :: gotime
  br_Address :: string
  br_Version :: string
  br_User :: string
  br_RequestID :: string
  br_Expected :: int
  br_Planned :: int32
  br_Dispatched :: int32
  br_Failed :: int
  br_Unresolved :: int
  br_Chunks :: int
  br_DurationMs :: rat
  br_FirstProgressMs :: rat
  br_P50ChunkIntervalMs :: rat
  br_P95ChunkIntervalMs :: rat
  br_ThroughputCasesPerSec :: rat
  br_ChunkErrors :: "chunkFailure list"
  br_StreamError :: string

record bench_flags =
  bf_addr :: string
  bf_version :: string
  bf_user :: string
  bf_requestID :: string
  bf_expected :: int
  bf_jsonOut :: string

subsection \<open>Times in floating point\<close>

text \<open>\<open>Time.Sub\<close>: a difference that does not fit is cut off at the largest or smallest duration.\<close>

definition time_sub :: "gotime \<Rightarrow> gotime \<Rightarrow> duration" where
  "time_sub t u = word_of_int (max (- (2 ^ 63)) (min (2 ^ 63 - 1) (t - u)))"

definition durationMs :: "duration \<Rightarrow> rat" where
  "durationMs value = f64 (f64 (of_int (sint value)) / f64 (of_int (sint Millisecond)))"

text \<open>\<open>Duration.Seconds\<close>: whole seconds and the rest are converted apart.\<close>

definition duration_Seconds :: "duration \<Rightarrow> rat" where
  "duration_Seconds d =
     (let sec = sint d sdiv sint Second; nsec = sint d smod sint Second
      in f64 (f64 (of_int sec) + f64 (f64 (of_int nsec) / 1000000000)))"

text \<open>\<open>percentile\<close> is a \<open>float64\<close>; the constants of the client are these two.\<close>

definition p50 :: rat where "p50 = f64 (50 / 100)"
definition p95 :: rat where "p95 = f64 (95 / 100)"

definition percentileMs :: "duration list \<Rightarrow> rat \<Rightarrow> rat" where
  "percentileMs values percentile =
     (if values = [] then 0
      else let ordered = sort_key sint values;
               index = \<lceil>f64 (f64 (of_nat (length ordered)) * percentile)\<rceil> - 1;
               index = (if index < 0 then 0 else index);
               index = (if int (length ordered) \<le> index then int (length ordered) - 1 else index)
           in durationMs (ordered ! nat index))"

subsection \<open>Receiving\<close>

record bench_state =
  bs_chunkCount :: int
  bs_totalDispatched :: int32
  bs_totalPlanned :: int32
  bs_totalFailed :: int
  bs_firstProgress :: duration
  bs_lastProgressAt :: gotime
  bs_intervals :: "duration list"
  bs_chunkErrors :: "chunkFailure list"

definition bench_start :: "gotime \<Rightarrow> bench_state" where
  "bench_start startedAt =
     \<lparr>bs_chunkCount = 0, bs_totalDispatched = 0, bs_totalPlanned = 0, bs_totalFailed = 0, bs_firstProgress = 0,
      bs_lastProgressAt = startedAt, bs_intervals = [], bs_chunkErrors = []\<rparr>"

text \<open>One frame, received at time \<open>now\<close>.\<close>

definition bench_frame :: "gotime \<Rightarrow> gotime \<times> BatchDispatchProgress \<Rightarrow> bench_state \<Rightarrow> bench_state" where
  "bench_frame startedAt received s =
     (let (now, resp) = received;
          s = (if bs_chunkCount s = 0 then s\<lparr>bs_firstProgress := time_sub now startedAt\<rparr>
               else s\<lparr>bs_intervals := bs_intervals s @ [time_sub now (bs_lastProgressAt s)]\<rparr>)
      in s\<lparr>bs_lastProgressAt := now, bs_chunkCount := bs_chunkCount s + 1,
           bs_totalDispatched := bp_TotalDispatched resp, bs_totalPlanned := bp_TotalPlanned resp,
           bs_totalFailed := bs_totalFailed s + int (length (bp_FailedExecutionIds resp)),
           bs_chunkErrors := (if bp_ChunkError resp \<noteq> ''''
             then bs_chunkErrors s @ [\<lparr>cf_Index = bp_ChunkIndex resp, cf_Message = bp_ChunkError resp\<rparr>]
             else bs_chunkErrors s)\<rparr>)"

definition bench_loop :: "gotime \<Rightarrow> (gotime \<times> BatchDispatchProgress) list \<Rightarrow> bench_state" where
  "bench_loop startedAt frames = fold (bench_frame startedAt) frames (bench_start startedAt)"

subsection \<open>The verdict\<close>

definition bench_unresolved :: "bench_state \<Rightarrow> int" where
  "bench_unresolved s =
     (let unresolved = sint (bs_totalPlanned s) - sint (bs_totalDispatched s) - bs_totalFailed s
      in if unresolved < 0 then 0 else unresolved)"

text \<open>\<open>streamErr\<close> is what the stream ended with, if not the end of the file.\<close>

definition bench_report :: "bench_flags \<Rightarrow> gotime \<Rightarrow> gotime \<Rightarrow> goerr option \<Rightarrow> bench_state \<Rightarrow> benchmarkReport" where
  "bench_report fl startedAt finishedAt streamErr s =
     (let elapsed = time_sub finishedAt startedAt; unresolved = bench_unresolved s in
      \<lparr>br_Status = (if streamErr \<noteq> None \<or> 0 < bs_totalFailed s \<or> 0 < unresolved \<or> 0 < length (bs_chunkErrors s) \<or>
            (0 < bf_expected fl \<and> sint (bs_totalPlanned s) \<noteq> bf_expected fl) then FAIL else PASS),
       br_StartedAt = startedAt, br_FinishedAt = finishedAt, br_Address = bf_addr fl, br_Version = bf_version fl,
       br_User = bf_user fl, br_RequestID = bf_requestID fl, br_Expected = bf_expected fl,
       br_Planned = bs_totalPlanned s, br_Dispatched = bs_totalDispatched s, br_Failed = bs_totalFailed s,
       br_Unresolved = unresolved, br_Chunks = bs_chunkCount s, br_DurationMs = durationMs elapsed,
       br_FirstProgressMs = durationMs (bs_firstProgress s),
       br_P50ChunkIntervalMs = percentileMs (bs_intervals s) p50,
       br_P95ChunkIntervalMs = percentileMs (bs_intervals s) p95,
       br_ThroughputCasesPerSec = (if 0 < sint elapsed
          then f64 (f64 (of_int (sint (bs_totalDispatched s))) / duration_Seconds elapsed) else 0),
       br_ChunkErrors = bs_chunkErrors s,
       br_StreamError = (case streamErr of None \<Rightarrow> '''' | Some e \<Rightarrow> Error e)\<rparr>)"

subsection \<open>What is printed\<close>

text \<open>\<open>%.2f\<close> and \<open>%.0f\<close>: the exact value, rounded to that many places, ties to even.\<close>

definition fixed_places :: "nat \<Rightarrow> rat \<Rightarrow> string" where
  "fixed_places n x =
     (let k = nat (rne (\<bar>x\<bar> * 10 ^ n)); fraction = format_nat (k mod 10 ^ n)
      in (if x < 0 then ''-'' else '''') @ format_nat (k div 10 ^ n) @
         (if n = 0 then '''' else ''.'' @ replicate (n - length fraction) CHR ''0'' @ fraction))"

datatype bench_line =
    MissingFlags
  | ConnectFailed string goerr
  | Connecting string string string string
  | CallFailed goerr
  | ChunkTrouble string string
  | Rule
  | Result bench_status
  | Elapsed string
  | FirstFrame string
  | TotalPlanned string
  | DispatchedCases string
  | FailedCases string
  | UnresolvedCases string
  | ChunkCount string
  | AverageRate string
  | ChunkInterval string string
  | RequestIdentifier string
  | StreamTrouble string
  | WriteFailed goerr
  | ResultFile string

definition printReport :: "benchmarkReport \<Rightarrow> bench_line list" where
  "printReport report =
     [Rule,
      Result (br_Status report),
      Elapsed (fixed_places 2 (br_DurationMs report)),
      FirstFrame (fixed_places 2 (br_FirstProgressMs report)),
      TotalPlanned (FormatInt (sint (br_Planned report))),
      DispatchedCases (FormatInt (sint (br_Dispatched report))),
      FailedCases (FormatInt (br_Failed report)),
      UnresolvedCases (FormatInt (br_Unresolved report)),
      ChunkCount (FormatInt (br_Chunks report)),
      AverageRate (fixed_places 0 (br_ThroughputCasesPerSec report)),
      ChunkInterval (fixed_places 2 (br_P50ChunkIntervalMs report)) (fixed_places 2 (br_P95ChunkIntervalMs report)),
      RequestIdentifier (br_RequestID report)] @
     (if br_StreamError report \<noteq> '''' then [StreamTrouble (br_StreamError report)] else [])"

text \<open>The report file: it must not exist, and an error of encoding is returned before that of closing.\<close>

definition writeJSONReport :: "goerr option \<Rightarrow> goerr option \<Rightarrow> goerr option \<Rightarrow> goerr option" where
  "writeJSONReport openErr encodeErr closeErr =
     (case openErr of
        Some err \<Rightarrow> Some err
      | None \<Rightarrow> (case encodeErr of Some e \<Rightarrow> Some e | None \<Rightarrow> closeErr))"

record bench_env =
  be_newClient :: "goerr option"
  be_call :: "ExecuteAllCasesRequest \<Rightarrow> goerr option"
  be_startedAt :: gotime
  be_frames :: "(gotime \<times> BatchDispatchProgress) list"
  be_streamErr :: "goerr option"
  be_finishedAt :: gotime
  be_write :: "goerr option \<times> goerr option \<times> goerr option"

definition bench_request :: "bench_flags \<Rightarrow> ExecuteAllCasesRequest" where
  "bench_request fl = \<lparr>aq_Version = bf_version fl, aq_User = bf_user fl, aq_RequestId = bf_requestID fl\<rparr>"

text \<open>
  The exit status, the lines written to the standard output and error in their order, and the report if it
  came so far. The line \<open>MissingFlags\<close> is followed by the usage text of Go's \<open>flag\<close> package.
\<close>

definition bench_main :: "bench_env \<Rightarrow> bench_flags \<Rightarrow> int \<times> bench_line list \<times> benchmarkReport option" where
  "bench_main env fl =
     (if bf_version fl = '''' \<or> bf_requestID fl = '''' then (1, [MissingFlags], None)
      else (case be_newClient env of
        Some err \<Rightarrow> (1, [ConnectFailed (bf_addr fl) err], None)
      | None \<Rightarrow>
        let hello = Connecting (bf_addr fl) (bf_version fl) (bf_user fl) (bf_requestID fl)
        in (case be_call env (bench_request fl) of
          Some err \<Rightarrow> (1, [hello, CallFailed err], None)
        | None \<Rightarrow>
          let s = bench_loop (be_startedAt env) (be_frames env);
              report = bench_report fl (be_startedAt env) (be_finishedAt env) (be_streamErr env) s;
              printed = hello # map (\<lambda>f. ChunkTrouble (FormatInt (sint (cf_Index f))) (cf_Message f)) (bs_chunkErrors s) @
                printReport report;
              (openErr, encodeErr, closeErr) = be_write env;
              verdict = (if br_Status report \<noteq> PASS then 2 else 0)
          in if bf_jsonOut fl \<noteq> '''' then
               (case writeJSONReport openErr encodeErr closeErr of
                  Some err \<Rightarrow> (1, printed @ [WriteFailed err], Some report)
                | None \<Rightarrow> (verdict, printed @ [ResultFile (bf_jsonOut fl)], Some report))
             else (verdict, printed, Some report))))"

text \<open>The exit status needs only the verdict, and the verdict none of the figures.\<close>

lemma br_Status_report [simp]:
  "br_Status (bench_report fl t u e s) =
     (if e \<noteq> None \<or> 0 < bs_totalFailed s \<or> 0 < bench_unresolved s \<or> 0 < length (bs_chunkErrors s) \<or>
         (0 < bf_expected fl \<and> sint (bs_totalPlanned s) \<noteq> bf_expected fl) then FAIL else PASS)"
  by (simp add: bench_report_def Let_def)

lemma bench_main_exit:
  assumes "bf_version fl \<noteq> ''''" and "bf_requestID fl \<noteq> ''''" and "be_newClient env = None"
    and "be_call env (bench_request fl) = None"
  shows "fst (bench_main env fl) =
    (if bf_jsonOut fl \<noteq> '''' \<and> (case be_write env of (a, b, c) \<Rightarrow> writeJSONReport a b c) \<noteq> None then 1
     else if br_Status (bench_report fl (be_startedAt env) (be_finishedAt env) (be_streamErr env)
       (bench_loop (be_startedAt env) (be_frames env))) \<noteq> PASS then 2 else 0)"
  using assms by (simp add: bench_main_def Let_def split: prod.splits option.splits)

subsection \<open>What the loop keeps\<close>

lemma bench_fold:
  "bs_totalFailed (fold (bench_frame t) fs s) = bs_totalFailed s + int (length (concat (map (bp_FailedExecutionIds \<circ> snd) fs)))"
  "bs_chunkCount (fold (bench_frame t) fs s) = bs_chunkCount s + int (length fs)"
  "bs_chunkErrors (fold (bench_frame t) fs s) = bs_chunkErrors s @
     map (\<lambda>f. \<lparr>cf_Index = bp_ChunkIndex f, cf_Message = bp_ChunkError f\<rparr>) (filter (\<lambda>f. bp_ChunkError f \<noteq> '''') (map snd fs))"
  by (induction fs arbitrary: s) (auto simp: bench_frame_def Let_def split: prod.splits)

lemma bench_fold_totals:
  "fs \<noteq> [] \<Longrightarrow> bs_totalDispatched (fold (bench_frame t) fs s) = bp_TotalDispatched (snd (last fs)) \<and>
     bs_totalPlanned (fold (bench_frame t) fs s) = bp_TotalPlanned (snd (last fs))"
  by (induction fs arbitrary: s) (auto simp: bench_frame_def Let_def split: prod.splits)

subsection \<open>The percentiles\<close>

text \<open>
  The index is the nearest rank although it goes through two roundings: the error stays below the distance of
  a fraction with denominator 100 to the next integer, and the constants are not above the fractions they stand for.
\<close>

lemma f64_nonneg: "0 \<le> x \<Longrightarrow> 0 \<le> f64 x"
  using f64_mono [of 0 x] by (simp add: f64_def)

lemma ceiling_f64_rank:
  assumes k: "0 < k" "k \<le> 100" and p: "f64 (of_int k / 100) \<le> of_int k / 100" and n: "n < 2 ^ 40"
  shows "\<lceil>f64 (f64 (of_nat n) * f64 (of_int k / 100))\<rceil> = \<lceil>of_int (k * int n) / (100 :: rat)\<rceil>"
proof -
  define q where "q = f64 (of_int k / 100)"
  define x where "x = (of_int (k * int n) / 100 :: rat)"
  define c where "c = \<lceil>x\<rceil>"
  have n': "int n < 2 ^ 40" using n by (metis of_nat_less_iff of_nat_numeral of_nat_power)
  have exact: "f64 (of_nat n) = of_nat n"
    using f64_of_int [of "int n"] n' by simp
  have q0: "0 \<le> q" using k by (simp add: q_def f64_nonneg)
  have nq: "\<bar>of_nat n * q - x\<bar> \<le> x / 2 ^ 53"
  proof -
    have "\<bar>q - of_int k / 100\<bar> \<le> of_int k / 100 / 2 ^ 53" using f64_near [of "of_int k / 100"] k by (simp add: q_def)
    then have "of_nat n * \<bar>q - of_int k / 100\<bar> \<le> of_nat n * (of_int k / 100 / 2 ^ 53)" by (rule mult_left_mono) simp
    moreover have "of_nat n * \<bar>q - of_int k / 100\<bar> = \<bar>of_nat n * q - x\<bar>"
    proof -
      have "of_nat n * (q - of_int k / 100) = of_nat n * q - x" by (simp add: x_def algebra_simps)
      then show ?thesis by (metis abs_mult abs_of_nat)
    qed
    moreover have "of_nat n * (of_int k / 100 / 2 ^ 53) = x / 2 ^ 53" by (simp add: x_def)
    ultimately show ?thesis by (simp only:)
  qed
  have x0: "0 \<le> x" using k by (simp add: x_def)
  have below: "of_nat n * q \<le> x"
    using mult_left_mono [OF p, of "of_nat n"] by (simp add: q_def x_def algebra_simps)
  define e where "e = f64 (of_nat n * q)"
  have "\<bar>e - of_nat n * q\<bar> \<le> \<bar>of_nat n * q\<bar> / 2 ^ 53" unfolding e_def by (rule f64_near)
  moreover have "\<bar>of_nat n * q\<bar> \<le> x" using below q0 by simp
  ultimately have near: "\<bar>e - of_nat n * q\<bar> \<le> x / 2 ^ 53" by simp
  have "x \<le> of_nat n"
  proof -
    have "k * int n \<le> 100 * int n" using k(2) by (simp add: mult_right_mono)
    then have "(of_int (k * int n) :: rat) \<le> of_int (100 * int n)" by (simp only: of_int_le_iff)
    then show ?thesis by (simp add: x_def)
  qed
  moreover have "(of_nat n :: rat) < 2 ^ 40" using n by (metis of_nat_less_iff of_nat_numeral of_nat_power)
  ultimately have x40: "x < 2 ^ 40" by linarith
  have "x / 2 ^ 53 < 2 ^ 40 / 2 ^ 53" using x40 by (rule divide_strict_right_mono) simp
  moreover have "2 * (2 ^ 40 / 2 ^ 53) < (1 / 100 :: rat)" by simp
  moreover have "\<bar>e - x\<bar> \<le> \<bar>e - of_nat n * q\<bar> + \<bar>of_nat n * q - x\<bar>" by linarith
  ultimately have close: "\<bar>e - x\<bar> < 1 / 100" using nq near by linarith
  have c: "of_int c - 1 < x" "x \<le> of_int c" unfolding c_def by linarith+
  have "of_int c - 1 < e"
  proof -
    have "(of_int (100 * (c - 1)) :: rat) < of_int (k * int n)" using c(1) by (simp add: x_def)
    then have "100 * (c - 1) + 1 \<le> k * int n" by (simp only: of_int_less_iff)
    then have "(of_int (100 * (c - 1) + 1) :: rat) \<le> of_int (k * int n)" by (simp only: of_int_le_iff)
    then have "of_int c - 1 + 1 / 100 \<le> x" by (simp add: x_def)
    with close show ?thesis by linarith
  qed
  moreover have "e \<le> of_int c"
  proof -
    have "c \<le> 2 ^ 53" "0 \<le> c" using x40 x0 unfolding c_def by (simp_all add: ceiling_le_iff)
    then have "f64 (of_int c) = of_int c" by (intro f64_of_int) simp
    moreover have "e \<le> f64 (of_int c)" unfolding e_def using below c(2) by (intro f64_mono) simp
    ultimately show ?thesis by simp
  qed
  ultimately have "\<lceil>e\<rceil> = c" by (intro ceiling_unique) simp_all
  then show ?thesis by (simp add: exact e_def q_def c_def x_def)
qed

lemma percentileMs_rank:
  assumes "values \<noteq> []" and "length values < 2 ^ 40" and "0 < k" "k \<le> 100" and "f64 (of_int k / 100) \<le> of_int k / 100"
  shows "percentileMs values (f64 (of_int k / 100)) =
      durationMs (sort_key sint values ! nat (\<lceil>of_int (k * int (length values)) / (100 :: rat)\<rceil> - 1))"
    and "nat (\<lceil>of_int (k * int (length values)) / (100 :: rat)\<rceil> - 1) < length values"
    and "0 < \<lceil>of_int (k * int (length values)) / (100 :: rat)\<rceil>"
proof -
  define r where "r = \<lceil>of_int (k * int (length values)) / (100 :: rat)\<rceil>"
  have "0 < (of_int (k * int (length values)) :: rat)" using assms(1,3) by simp
  then have r0: "0 < r" unfolding r_def by simp
  have "k * int (length values) \<le> 100 * int (length values)" using assms(4) by (simp add: mult_right_mono)
  then have "(of_int (k * int (length values)) :: rat) \<le> of_int (100 * int (length values))" by (simp only: of_int_le_iff)
  then have rn: "r \<le> int (length values)" unfolding r_def by (simp add: ceiling_le_iff)
  have "percentileMs values (f64 (of_int k / 100)) = durationMs (sort_key sint values ! nat (r - 1))"
    using assms(1) ceiling_f64_rank [OF assms(3,4,5,2)] r0 rn by (simp add: percentileMs_def Let_def r_def)
  then show "percentileMs values (f64 (of_int k / 100)) =
      durationMs (sort_key sint values ! nat (\<lceil>of_int (k * int (length values)) / (100 :: rat)\<rceil> - 1))" by (simp add: r_def)
  show "nat (\<lceil>of_int (k * int (length values)) / (100 :: rat)\<rceil> - 1) < length values"
    using r0 rn by (fold r_def) linarith
  show "0 < \<lceil>of_int (k * int (length values)) / (100 :: rat)\<rceil>" using r0 by (simp add: r_def)
qed

text \<open>Conversion to milliseconds keeps the order of durations.\<close>

lemma durationMs_mono: "sint v \<le> sint w \<Longrightarrow> durationMs v \<le> durationMs w"
proof -
  assume "sint v \<le> sint w"
  then have "(of_int (sint v) :: rat) \<le> of_int (sint w)" by (simp only: of_int_le_iff)
  moreover have "0 \<le> f64 (of_int (sint Millisecond))" by (rule f64_nonneg) (simp add: Millisecond_def)
  ultimately show ?thesis unfolding durationMs_def by (intro f64_mono divide_right_mono)
qed

lemma counts_around_rank:
  fixes f :: "'a \<Rightarrow> 'b::linorder"
  assumes "sorted (map f ys)" and "i < length ys"
  shows "Suc i \<le> length (filter (\<lambda>y. f y \<le> f (ys ! i)) ys)" and "length (filter (\<lambda>y. f y < f (ys ! i)) ys) \<le> i"
proof -
  have le: "f (ys ! a) \<le> f (ys ! b)" if "a \<le> b" "b < length ys" for a b
    using sorted_nth_mono [OF assms(1), of a b] that by simp
  have "filter (\<lambda>y. f y \<le> f (ys ! i)) (take (Suc i) ys) = take (Suc i) ys"
    using assms(2) by (intro filter_True) (auto simp: in_set_conv_nth intro!: le)
  then have "length (filter (\<lambda>y. f y \<le> f (ys ! i)) (take (Suc i) ys @ drop (Suc i) ys)) \<ge> Suc i"
    using assms(2) by (simp only: filter_append) simp
  then show "Suc i \<le> length (filter (\<lambda>y. f y \<le> f (ys ! i)) ys)" by simp
  have "filter (\<lambda>y. f y < f (ys ! i)) (drop i ys) = []"
    using assms(2) by (auto simp: filter_empty_conv in_set_conv_nth not_less intro!: le)
  then have "length (filter (\<lambda>y. f y < f (ys ! i)) (take i ys @ drop i ys)) \<le> i"
    by (simp only: filter_append append_Nil2) (metis length_filter_le length_take min.bounded_iff)
  then show "length (filter (\<lambda>y. f y < f (ys ! i)) ys) \<le> i" by simp
qed

lemma p50_exact: "f64 (of_int 50 / 100) \<le> of_int 50 / 100" by code_simp

lemma p95_below: "f64 (of_int 95 / 100) \<le> of_int 95 / 100" by code_simp

lemma length_filter_imp: "(\<And>y. Q y \<Longrightarrow> P y) \<Longrightarrow> length (filter Q ys) \<le> length (filter P ys)"
  by (induction ys) (auto intro: le_SucI)

lemma length_filter_sort: "length (filter P (sort_key f xs)) = length (filter P xs)"
  by (metis mset_filter mset_sort size_mset)

lemma ceiling_hundredths:
  "x \<le> 100 * \<lceil>of_int x / (100 :: rat)\<rceil>" "100 * (\<lceil>of_int x / (100 :: rat)\<rceil> - 1) < x"
proof -
  define r where "r = \<lceil>of_int x / (100 :: rat)\<rceil>"
  define y where "y = (of_int x :: rat)"
  have "of_int r - 1 < y / 100" "y / 100 \<le> of_int r" unfolding r_def y_def by linarith+
  then have "y \<le> 100 * of_int r" "100 * (of_int r - 1) < y" by simp_all
  then have "(of_int x :: rat) \<le> of_int (100 * r)" "(of_int (100 * (r - 1)) :: rat) < of_int x"
    by (simp_all add: y_def)
  then show "x \<le> 100 * \<lceil>of_int x / (100 :: rat)\<rceil>" "100 * (\<lceil>of_int x / (100 :: rat)\<rceil> - 1) < x"
    by (simp_all only: of_int_le_iff of_int_less_iff r_def)
qed

lemma percentileMs_counts:
  assumes "values \<noteq> []" and "length values < 2 ^ 40" and "0 < k" "k \<le> 100" and "f64 (of_int k / 100) \<le> of_int k / 100"
  defines "x \<equiv> percentileMs values (f64 (of_int k / 100))"
  shows "k * int (length values) \<le> 100 * int (length (filter (\<lambda>v. durationMs v \<le> x) values))"
    and "100 * int (length (filter (\<lambda>v. durationMs v < x) values)) < k * int (length values)"
    and "x \<in> durationMs ` set values"
proof -
  define r where "r = \<lceil>of_int (k * int (length values)) / (100 :: rat)\<rceil>"
  let ?ys = "sort_key sint values"
  note rank = percentileMs_rank [OF assms(1-5), folded r_def]
  have x: "x = durationMs (?ys ! nat (r - 1))" unfolding x_def by (rule rank(1))
  have i: "nat (r - 1) < length ?ys" using rank(2) by simp
  have "sorted (map sint ?ys)" by simp
  then have "sorted (map durationMs ?ys)"
    unfolding sorted_iff_nth_mono by (auto intro!: durationMs_mono)
  note c = counts_around_rank [OF this i, folded x, unfolded length_filter_sort]
  note r = ceiling_hundredths [of "k * int (length values)", folded r_def]
  show "k * int (length values) \<le> 100 * int (length (filter (\<lambda>v. durationMs v \<le> x) values))"
    using c(1) r(1) rank(3) by linarith
  show "100 * int (length (filter (\<lambda>v. durationMs v < x) values)) < k * int (length values)"
  proof -
    have "int (length (filter (\<lambda>v. durationMs v < x) values)) \<le> r - 1" using c(2) rank(3) by (simp add: le_nat_iff)
    then have "100 * int (length (filter (\<lambda>v. durationMs v < x) values)) \<le> 100 * (r - 1)" by (rule mult_left_mono) simp
    then show ?thesis using r(2) by (rule le_less_trans)
  qed
  have "?ys ! nat (r - 1) \<in> set values" using nth_mem [OF i] by simp
  then show "x \<in> durationMs ` set values" unfolding x by simp
qed

text \<open>C24: The two percentiles of the report are those of the definition by nearest rank, although the client computes
  the rank in floating point: at least half (95 percent) of the intervals are not longer than the reported
  value, fewer than half (95 percent) are shorter, the value is one of the intervals, and the first percentile is
  not above the second.\<close>

theorem percentiles_are_nearest_rank:
  assumes "values \<noteq> []" and "length values < 2 ^ 40"
  shows "50 * length values \<le> 100 * length (filter (\<lambda>v. durationMs v \<le> percentileMs values p50) values) \<and>
    100 * length (filter (\<lambda>v. durationMs v < percentileMs values p50) values) < 50 * length values \<and>
    95 * length values \<le> 100 * length (filter (\<lambda>v. durationMs v \<le> percentileMs values p95) values) \<and>
    100 * length (filter (\<lambda>v. durationMs v < percentileMs values p95) values) < 95 * length values \<and>
    percentileMs values p50 \<in> durationMs ` set values \<and> percentileMs values p95 \<in> durationMs ` set values \<and>
    percentileMs values p50 \<le> percentileMs values p95"
proof -
  have p: "p50 = f64 (of_int 50 / 100)" "p95 = f64 (of_int 95 / 100)" by (simp_all add: p50_def p95_def)
  let ?x = "percentileMs values p50" and ?y = "percentileMs values p95"
  note a = percentileMs_counts [OF assms, of 50, folded p, OF _ _ p50_exact [folded p], simplified]
  note b = percentileMs_counts [OF assms, of 95, folded p, OF _ _ p95_below [folded p], simplified]
  have "?x \<le> ?y"
  proof (rule ccontr)
    assume "\<not> ?x \<le> ?y"
    then have "length (filter (\<lambda>v. durationMs v \<le> ?y) values) \<le> length (filter (\<lambda>v. durationMs v < ?x) values)"
      by (intro length_filter_imp) auto
    with a(2) b(1) show False by linarith
  qed
  moreover have "50 * length values \<le> 100 * length (filter (\<lambda>v. durationMs v \<le> ?x) values)"
    "100 * length (filter (\<lambda>v. durationMs v < ?x) values) < 50 * length values"
    "95 * length values \<le> 100 * length (filter (\<lambda>v. durationMs v \<le> ?y) values)"
    "100 * length (filter (\<lambda>v. durationMs v < ?y) values) < 95 * length values"
    using a(1,2) b(1,2) by linarith+
  ultimately show ?thesis using a(3) b(3) by blast
qed

text \<open>Four frames of a run, three intervals.\<close>

definition demo_intervals :: "duration list" where
  "demo_intervals = [3000000, 1000000, 2000000]"

lemma durationMs_whole:
  assumes "sint v = 1000000 * k" and "\<bar>k\<bar> \<le> 2 ^ 32"
  shows "durationMs v = of_int k"
proof -
  have "f64 (of_int (1000000 * k)) = of_int (1000000 * k)" "f64 (of_int 1000000) = of_int 1000000" "f64 (of_int k) = of_int k"
    using assms(2) by (intro f64_of_int; simp)+
  then show ?thesis by (simp add: durationMs_def Millisecond_def assms(1))
qed

lemma demo_percentiles: "percentileMs demo_intervals p50 = 2" "percentileMs demo_intervals p95 = 3"
proof -
  have s: "sort_key sint demo_intervals = [1000000, 2000000, 3000000]" by (simp add: demo_intervals_def)
  have n: "demo_intervals \<noteq> []" "length demo_intervals < 2 ^ 40" "length demo_intervals = 3" by (simp_all add: demo_intervals_def)
  have "durationMs 2000000 = of_int 2" "durationMs 3000000 = of_int 3" by (rule durationMs_whole; simp)+
  moreover have "\<lceil>3 / 2 :: rat\<rceil> = 2" "\<lceil>57 / 20 :: rat\<rceil> = 3" by (rule ceiling_unique; simp)+
  ultimately show "percentileMs demo_intervals p50 = 2" "percentileMs demo_intervals p95 = 3"
    using percentileMs_rank(1) [OF n(1,2) _ _ p50_exact] percentileMs_rank(1) [OF n(1,2) _ _ p95_below]
    by (simp_all add: s n(3) p50_def p95_def)
qed

theorem percentiles_are_nearest_rank_witness:
  "150 \<le> 100 * length (filter (\<lambda>v. durationMs v \<le> 2) demo_intervals) \<and>
   285 \<le> 100 * length (filter (\<lambda>v. durationMs v \<le> 3) demo_intervals)"
proof -
  have "demo_intervals \<noteq> []" "length demo_intervals < 2 ^ 40" "length demo_intervals = 3"
    by (simp_all add: demo_intervals_def)
  with percentiles_are_nearest_rank [of demo_intervals] show ?thesis by (simp add: demo_percentiles)
qed

text \<open>Lines of the report: rounding is that of the stored value, not of the decimal it came from.\<close>

lemma fixed_places_examples:
  "fixed_places 2 (1234567 / 1000000) = ''1.23''"
  "fixed_places 2 (f64 (1005 / 1000)) = ''1.00''"
  "fixed_places 2 (- 5 / 1000) = ''-0.00''"
  "fixed_places 0 (5 / 2) = ''2''"
  by code_simp+

subsection \<open>What a passed run proves\<close>

text \<open>
  The client gets a prefix of the frames the server sent, and the end of the file only if it got all of them
  and the status was OK.
\<close>

definition received_from :: "bench_env \<Rightarrow> grpc_status option \<times> BatchDispatchProgress list \<Rightarrow> bool" where
  "received_from env sent \<longleftrightarrow>
     take (length (be_frames env)) (snd sent) = map snd (be_frames env) \<and>
     (be_streamErr env = None \<longrightarrow> fst sent = None \<and> length (be_frames env) = length (snd sent))"

lemma bench_passes:
  assumes "fst (bench_main env fl) = 0"
  shows "be_streamErr env = None" and "concat (map (bp_FailedExecutionIds \<circ> snd) (be_frames env)) = []"
    and "\<forall>f \<in> set (map snd (be_frames env)). bp_ChunkError f = ''''"
    and "bench_unresolved (bench_loop (be_startedAt env) (be_frames env)) = 0"
    and "bf_expected fl \<le> 0 \<or> sint (bs_totalPlanned (bench_loop (be_startedAt env) (be_frames env))) = bf_expected fl"
proof -
  let ?s = "bench_loop (be_startedAt env) (be_frames env)"
  have "br_Status (bench_report fl (be_startedAt env) (be_finishedAt env) (be_streamErr env) ?s) = PASS"
    using assms by (simp add: bench_main_def Let_def split: if_splits prod.splits option.splits)
  then have ok: "be_streamErr env = None" "\<not> 0 < bs_totalFailed ?s" "\<not> 0 < bench_unresolved ?s" "bs_chunkErrors ?s = []"
    "\<not> (0 < bf_expected fl \<and> sint (bs_totalPlanned ?s) \<noteq> bf_expected fl)"
    by (auto split: if_splits)
  show "be_streamErr env = None" by (rule ok(1))
  show "concat (map (bp_FailedExecutionIds \<circ> snd) (be_frames env)) = []"
    using ok(2) by (simp add: bench_loop_def bench_fold bench_start_def)
  show "\<forall>f \<in> set (map snd (be_frames env)). bp_ChunkError f = ''''"
    using ok(4) by (auto simp: bench_loop_def bench_fold bench_start_def filter_empty_conv)
  have "0 \<le> bench_unresolved ?s" by (simp add: bench_unresolved_def Let_def)
  with ok(3) show "bench_unresolved ?s = 0" by simp
  show "bf_expected fl \<le> 0 \<or> sint (bs_totalPlanned ?s) = bf_expected fl" using ok(5) by auto
qed

lemma handler_streams:
  assumes "Handler_ExecuteAllCases cfg outbox r1 r2 slot (Some req) w1 w2 acts = Some (None, frames)"
  obtains a called rid where "dispatchStream a slot (UtCaseRepository_CountByVersion (NewVersion (aq_Version req)))
      (UtCaseRepository_ScanByVersion (NewVersion (aq_Version req))) w1 w2 acts = Some (None, called)"
    "sa_cfg a = cfg" "frames = map (progressForwarder rid) called"
proof -
  from assms obtain rid called where
      run: "ExecuteAllCasesWithRequest cfg outbox r2 slot rid (NewVersion (aq_Version req)) (aq_User req) w1 w2 acts = Some (None, called)"
    and sent: "frames = map (progressForwarder rid) called"
    by (auto simp: Handler_ExecuteAllCases_def forwarded_def toGRPCErr_def split: sum.splits)
  from run obtain rid' where "dispatchStream \<lparr>sa_cfg = cfg, sa_outbox = outbox, sa_requestID = rid',
        sa_version = NewVersion (aq_Version req), sa_user = aq_User req\<rparr>
      slot (UtCaseRepository_CountByVersion (NewVersion (aq_Version req)))
      (UtCaseRepository_ScanByVersion (NewVersion (aq_Version req))) w1 w2 acts = Some (None, called)"
    by (auto simp: ExecuteAllCasesWithRequest_def split: sum.splits if_splits)
  from that [OF this _ sent] show thesis by simp
qed

lemma sint_int32: "0 \<le> n \<Longrightarrow> n < 2 ^ 31 \<Longrightarrow> sint (word_of_int n :: int32) = n"
  unfolding signed_of_int by (simp, intro signed_take_bit_int_eq_self; simp)

text \<open>C23: A benchmark run that passes with an expected number of cases proves that the server dispatched them: the
  call ended with OK, the catalogue had exactly the expected number of cases, the reports name at least
  as many confirmed executions, and no report names a failed execution or an error, even if the
  server's side of the call was cancelled, which by itself is reported as a success.\<close>

theorem bench_pass_means_dispatched:
  assumes "fst (bench_main env fl) = 0" and "0 < bf_expected fl"
    and "Handler_ExecuteAllCases cfg outbox r1 r2 slot (Some (bench_request fl)) w1 w2 acts = Some sent"
    and "received_from env sent" and "0 < dc_WorkerCount cfg"
    and "fst (UtCaseRepository_CountByVersion (NewVersion (bf_version fl)) w1) = Inr n" and "0 \<le> n" and "n < 2 ^ 31"
    and "length (concat (map bp_SuccessExecutionIds (snd sent))) < 2 ^ 31"
  shows "fst sent = None \<and> n = bf_expected fl \<and>
    n \<le> int (length (concat (map bp_SuccessExecutionIds (snd sent)))) \<and>
    (\<forall>f \<in> set (snd sent). bp_FailedExecutionIds f = [] \<and> bp_ChunkError f = '''')"
proof -
  note p = bench_passes [OF assms(1)]
  have frames: "fst sent = None" "snd sent = map snd (be_frames env)"
    using assms(4) p(1) by (auto simp: received_from_def)
  have "Handler_ExecuteAllCases cfg outbox r1 r2 slot (Some (bench_request fl)) w1 w2 acts = Some (None, snd sent)"
    using assms(3) frames(1) by (cases sent) simp
  then obtain a called rid where run0: "dispatchStream a slot
      (UtCaseRepository_CountByVersion (NewVersion (aq_Version (bench_request fl))))
      (UtCaseRepository_ScanByVersion (NewVersion (aq_Version (bench_request fl)))) w1 w2 acts = Some (None, called)"
    and a: "sa_cfg a = cfg" and sent: "snd sent = map (progressForwarder rid) called"
    by (rule handler_streams)
  have v: "aq_Version (bench_request fl) = bf_version fl" by (simp add: bench_request_def)
  note run = run0 [unfolded v]
  let ?s = "bench_loop (be_startedAt env) (be_frames env)"
  have planned: "sint (bs_totalPlanned ?s) = bf_expected fl" using p(5) assms(2) by simp
  have ne: "be_frames env \<noteq> []" using planned assms(2) by (auto simp: bench_loop_def bench_start_def)
  then have called: "called \<noteq> []" using sent frames(2) by auto
  have last: "bs_totalDispatched ?s = pg_TotalDispatched (last called)" "bs_totalPlanned ?s = pg_TotalPlanned (last called)"
  proof -
    have "snd (last (be_frames env)) = progressForwarder rid (last called)"
      using ne called frames(2) sent by (metis last_map)
    then show "bs_totalDispatched ?s = pg_TotalDispatched (last called)" "bs_totalPlanned ?s = pg_TotalPlanned (last called)"
      using bench_fold_totals [OF ne] by (simp_all add: bench_loop_def progressForwarder_def)
  qed
  have succ: "succeeded called = length (concat (map bp_SuccessExecutionIds (snd sent)))"
    unfolding sent by (simp add: succeeded_def length_concat progressForwarder_def o_def)
  note tot = dispatchStream_last [OF run assms(6) _ called]
  have n: "sint (bs_totalPlanned ?s) = n" "sint (bs_totalDispatched ?s) = int (succeeded called)"
    using tot a assms(5,7,8,9) sint_int32 [of n] sint_int32 [of "int (succeeded called)"] succ by (simp_all add: last)
  have "bs_totalFailed ?s = 0" using p(2) by (simp add: bench_loop_def bench_fold bench_start_def)
  with p(4) n have "n \<le> int (succeeded called)" by (auto simp: bench_unresolved_def Let_def split: if_splits)
  moreover have "\<forall>f \<in> set (snd sent). bp_FailedExecutionIds f = [] \<and> bp_ChunkError f = ''''"
    using p(2,3) by (auto simp: frames(2))
  ultimately show ?thesis using frames(1) n(1) planned succ by simp
qed

text \<open>A run against the two cases of the demonstration catalogue.\<close>

definition demo_flags :: bench_flags where
  "demo_flags = \<lparr>bf_addr = ''localhost:9090'', bf_version = ''v1'', bf_user = ''amy'', bf_requestID = ''req'',
     bf_expected = 2, bf_jsonOut = ''''\<rparr>"

definition demo_sent :: "grpc_status option \<times> BatchDispatchProgress list" where
  "demo_sent = (None, map (progressForwarder ''req'') demo_called)"

definition demo_bench_env :: bench_env where
  "demo_bench_env = \<lparr>be_newClient = None,
     be_call = (\<lambda>_. None), be_startedAt = 0, be_frames = zip [1000, 3000] (snd demo_sent), be_streamErr = None,
     be_finishedAt = 4000, be_write = (None, None, None)\<rparr>"

lemma demo_handler:
  "Handler_ExecuteAllCases (sa_cfg demo_args) True (Inl (ErrorsNew ''no entropy'')) (Inl (ErrorsNew ''no entropy'')) None
     (Some (bench_request demo_flags)) demo_catalogue demo_catalogue smooth_run = Some demo_sent"
proof -
  have "NormalizeRequestID (Inl (ErrorsNew ''no entropy'')) ''req'' = Inr ''req''" by code_simp
  moreover have "NewVersion ''v1'' = ''v1''" by code_simp
  ultimately show ?thesis
    using demo_smooth by (simp add: Handler_ExecuteAllCases_def bench_request_def demo_flags_def forwarded_def demo_batch_def
        demo_sent_def toGRPCErr_def)
qed

text \<open>What the run counts.\<close>

lemma demo_bench_counts:
  "bs_totalFailed (bench_loop 0 (be_frames demo_bench_env)) = 0"
  "bench_unresolved (bench_loop 0 (be_frames demo_bench_env)) = 0"
  "bs_chunkErrors (bench_loop 0 (be_frames demo_bench_env)) = []"
  "sint (bs_totalPlanned (bench_loop 0 (be_frames demo_bench_env))) = 2"
  by code_simp+

lemma demo_bench_passes: "fst (bench_main demo_bench_env demo_flags) = 0"
  by (subst bench_main_exit) (simp_all add: demo_flags_def demo_bench_env_def demo_bench_counts [unfolded demo_bench_env_def, simplified])

theorem bench_pass_means_dispatched_witness:
  "fst demo_sent = None \<and> 2 \<le> length (concat (map bp_SuccessExecutionIds (snd demo_sent)))"
proof -
  have r: "received_from demo_bench_env demo_sent" by code_simp
  have w: "0 < dc_WorkerCount (sa_cfg demo_args)" by code_simp
  have n: "fst (UtCaseRepository_CountByVersion (NewVersion (bf_version demo_flags)) demo_catalogue) = Inr 2" by code_simp
  have "length (concat (map bp_SuccessExecutionIds (snd demo_sent))) = 2" by code_simp
  then have l: "length (concat (map bp_SuccessExecutionIds (snd demo_sent))) < 2 ^ 31" by simp
  have e: "0 < bf_expected demo_flags" by code_simp
  have b: "(0 :: int) \<le> 2" "(2 :: int) < 2 ^ 31" by simp_all
  from bench_pass_means_dispatched [OF demo_bench_passes e demo_handler r w n b l] show ?thesis by linarith
qed

text \<open>The same run judged against another expected number, and with a report file that exists.\<close>

lemma demo_bench_other:
  "fst (bench_main demo_bench_env (demo_flags\<lparr>bf_expected := 3\<rparr>)) = 2"
  "fst (bench_main (demo_bench_env\<lparr>be_write := (Some (ErrorsNew ''file exists''), None, None)\<rparr>)
     (demo_flags\<lparr>bf_jsonOut := ''result.json''\<rparr>)) = 1"
  by (subst bench_main_exit; simp add: demo_flags_def demo_bench_env_def writeJSONReport_def
      demo_bench_counts [unfolded demo_bench_env_def, simplified])+

end
