(* ===== verification/Spec2Isabelle.thy ===== *)
theory Spec2Isabelle
  imports Settlement Stream_Accounts Pool_Accounts Batch_Slots Envinit Bench
begin

text \<open>
  A verification library of the case-execution engine (\<open>src/execution-engine\<close>, Go). The engine dispatches
  test cases: it records an execution for a case in MySQL, publishes a message for it to RabbitMQ with
  publisher confirms, and writes back what became of it. It promises that no execution is forgotten
  and none is reported as delivered that the broker did not confirm, over crashes, lost replies, several
  engine instances and repeated requests. This file holds no definitions of its own.

  \<^bold>\<open>The parts and how they interact.\<close> A client calls the gRPC handler; it validates and calls the use
  cases. A single-case dispatch inserts the execution and its outbox message in one transaction,
  publishes, and writes back. A batch call streams the pages of the catalogue through a pipeline of producer,
  workers and aggregator; each worker dispatches a page as one chunk in the same three phases. The
  outbox relay claims messages that were left behind, under a lease with a token, and publishes
  them again. All publishing goes through one client with a pool of AMQP channels that reconnects by itself.
  All of them meet in two tables, \<open>execution_record\<close> and \<open>dispatch_outbox\<close>.

  \<^bold>\<open>Where each part is modelled.\<close>
  \<^item> \<open>Prelude\<close>, \<open>Errors\<close>: Go's integers, times, strings and map iteration; errors as values with sentinels
    and wrapping (\<open>domain/errs\<close>, packages \<open>errors\<close> and \<open>fmt\<close>).
  \<^item> \<open>Values\<close>, \<open>Entities\<close>, \<open>Execution_Service\<close>: \<open>domain/vo\<close>, \<open>domain/entity\<close>, \<open>domain/service\<close>. Records with
    the fields of the structs; a method that changes its receiver returns the new value.
  \<^item> \<open>Database\<close>, \<open>Connections\<close>: \<open>persistence/mysql/po\<close> and \<open>db.go\<close>. A world holds the tables, the outcomes of
    the statements to come (\<open>Done\<close>, \<open>Fail\<close>, or \<open>Late\<close>: effect without reply), and what other
    processes do to the tables in between; \<open>tx_Do\<close> is \<open>TxRunner.Do\<close>; pool limits and the transaction in a
    context are in \<open>Connections\<close>.
  \<^item> \<open>Execution_Repository\<close>, \<open>Outbox_Repository\<close>, \<open>Ut_Case_Repository\<close>: the repositories, statement by statement.
    \<open>Integrity\<close> (keys), \<open>Leases\<close> (claims and conditional writes) hold what they promise.
  \<^item> \<open>Rabbit_Client\<close>, \<open>Rabbit_Pool\<close>: \<open>mq/rabbitmq/executor_client.go\<close>; the first half is publishing and waiting
    for confirms over a list of library events, the second the connection, the pool, the reconnect
    loop and \<open>Close\<close> as interleaved steps between the points where the code locks, waits or calls the library.
    \<open>Pool_Accounts\<close> keeps the books of its connections and channels.
  \<^item> \<open>Dispatch_Service\<close>, \<open>Dispatch_Stream\<close>: \<open>usecase/dispatch_app_service.go\<close>; single cases and chunks as
    state-passing functions, the pipeline as steps of its goroutines; \<open>Batch_Slots\<close> is the semaphore around it. \<open>Case_Dispatch\<close> and \<open>Chunk_Dispatch\<close> hold
    what their reports mean.
  \<^item> \<open>Outbox_Relay\<close>: \<open>usecase/outbox_relay.go\<close>; \<open>Relay_Pass\<close> and \<open>Relay_Progress\<close> hold its promises.
  \<^item> \<open>Pairing\<close>, \<open>System\<close>: any number of operations of any instances on the same tables, as histories: every
    execution has its message, every message its execution, and a DEAD message one that has left WAIT.
    \<open>Settlement\<close> is what follows a history: whatever the broker answers, the attempts that are left suffice.
  \<^item> \<open>Grpc_Handler\<close>, \<open>Grpc_Server\<close>: \<open>grpcserver/handler.go\<close> and \<open>server.go\<close>.
  \<^item> \<open>Logger\<close>, \<open>Server_Main\<close>: \<open>pkg/logger\<close> and \<open>cmd/server\<close>; \<open>Envinit\<close>: \<open>cmd/envinit\<close>; \<open>Bench\<close>: \<open>cmd/bench\<close>,
    with the rounding of Go's \<open>float64\<close> in \<open>Float64\<close>. The
    entry points are functions of what the libraries answer; \<open>Deferred_Steps\<close> gives them Go's \<open>defer\<close>.

  \<^bold>\<open>Abstract specifications.\<close> \<open>Delivery_Refinement\<close>: the tables refine a machine that knows one fate for each
  execution id (unknown, accepted, delivered, abandoned) and moves along accept, deliver (only if confirmed) and
  abandon. \<open>Stream_Refinement\<close>: the pipeline refines a sequential reporter with a bag of pages, by a
  simulation of single steps; \<open>Machines\<close> states what a simulation of runs is. \<open>Stream_Accounts\<close> carries what
  a chunk promises (whose executions its ids are, and what became of their messages) through the pipeline to the
  batch call, page by page.

  \<^bold>\<open>What the lemmas show.\<close> The interface \<open>table_relation\<close> (and \<open>store_relation\<close> for the repositories' clients)
  turns a relation between tables that statements keep, and that other processes keep as well, into one
  that every operation guarantees, whatever fails; it has instances for the keys, the progress of executions and
  messages, the shape of the rows, the pairing of the two tables, and who may be marked delivered. \<open>lease_store\<close>
  states the contract of claims and conditional writes and proves that a stale holder cannot write;
  \<open>keyed_table\<close>, \<open>execution_repository\<close> and \<open>executor_port\<close> state what the clients of the tables, of the execution
  repository and of the publisher rely on. From these come the properties of histories (\<open>System\<close>), of a pass of
  the relay and its progress, of the answers and reports of the use cases, and, by composition, of what an OK of
  the RPC and a passed benchmark run mean. The remaining groups are: the partition and safety of \<open>BatchRun\<close>, the
  ownership of channels, the ready signal, and that the pool neither leaks a connection or channel nor shrinks, completeness and termination of the pipeline, bounds
  of the two back-offs with their overflow, round trips of identifiers and request ids, the orderly start and
  shutdown of the process, the harmlessness of the environment tool, and the percentiles of the benchmark report.

  \<^bold>\<open>Bounds and fuel.\<close> Durations are 64-bit words and the totals of the stream 32-bit words; identifiers are
  integers, with the range of \<open>int64\<close> where they are parsed. No loop needs fuel: the back-off loop recurses over
  the attempts, the confirm loop over the events, of which a list that ends stands for the deadline, the
  scan over the rows left, and the pipeline has a measure that every step decreases (\<open>pipeline_ends\<close>).
  Progress of the relay is proved with an explicit number of passes. A \<open>float64\<close> is the rational number it
  stands for, of 53 bits; the figures of the benchmark are far from overflow and from the denormal range. Its
  percentiles are proved for fewer than \<open>2 ^ 40\<close> intervals.

  \<^bold>\<open>What is assumed of code that is not here.\<close> MySQL: statements and transactions are atomic, isolated by the
  row locks the code asks for (other processes act between transactions; the snapshot a plain query may see under
  REPEATABLE READ is the current state), and unique keys hold; the collation is a sort key; generated keys are not 0; other processes keep the relations
  that the engine itself keeps. RabbitMQ: delivery tags count up on a channel, and a returned message comes
  before its acknowledgement. gRPC: draining ends when the running calls have ended, and a client sees the end
  of the file only after all frames and with status OK. viper, zap, GORM's opening and the operating system
  answer through arguments without assumptions.

  \<^bold>\<open>Not modelled.\<close> The generated protobuf code (its messages are records), Go interfaces (their methods are
  the repositories' and the client's operations, their contracts are interfaces of the library), log lines other than those of
  the interceptors, the wording of the Chinese messages of the benchmark client (each line is a constructor with
  the formatted values) and of the environment tool, the layout of the benchmark's JSON file and the text of its
  times, which are the library's, the MySQL schema files, and the former Python implementation that the engine
  replaced.
\<close>

end
